(* ===== verification/Kvp_Prelude.thy ===== *)
theory Kvp_Prelude
  imports Main "HOL-Library.DAList" "HOL-Library.Monad_Syntax" "HOL-Library.List_Lexorder"
    "HOL-Library.Char_ord" "HOL-Library.Multiset" "HOL-Library.Code_Target_Nat"
begin

text \<open>
  Shared vocabulary of the development: Go strings and byte slices as lists of
  bytes, Go maps as association lists with distinct keys, results that carry an
  error, and the generic facts about them that every component uses.

  \<^item> \<open>alist_sum\<close>: how a sum over an association list changes when a key is
    updated, deleted or filtered (the memory layer's byte counter);
  \<^item> \<open>chunks\<close>: the \<open>for start := 0; start < len; start += n\<close> loops, as the
    list of slices they visit;
  \<^item> \<open>kvp_inv\<close>: the preservation lemmas of the invariants, collected per
    component so that the induction over runs is one call.
\<close>

named_theorems kvp_inv \<open>preservation of the store invariants, one per operation\<close>
named_theorems kvp_frame \<open>fields an operation leaves unchanged\<close>

type_synonym bytes = string

text \<open>A fallible Go call: \<open>Inl\<close> the error, \<open>Inr\<close> the value.\<close>

type_synonym ('e, 'a) res = "'e + 'a"

text \<open>A call that may panic.\<close>

datatype 'a outcome = Returns 'a | Panics string

abbreviation is_ok :: "'e + 'a \<Rightarrow> bool" where
  "is_ok r \<equiv> \<not> isl r"

abbreviation keys_of :: "('k \<times> 'v) list \<Rightarrow> 'k list" where
  "keys_of al \<equiv> map fst al"

section \<open>Association lists\<close>

text \<open>A sum over the entries of a Go map.\<close>

definition alist_sum :: "('k \<Rightarrow> 'v \<Rightarrow> int) \<Rightarrow> ('k \<times> 'v) list \<Rightarrow> int" where
  "alist_sum f al = (\<Sum>(k, v)\<leftarrow>al. f k v)"

lemma alist_sum_Nil [simp]: "alist_sum f [] = 0"
  by (simp add: alist_sum_def)

lemma alist_sum_Cons [simp]: "alist_sum f ((k, v) # al) = f k v + alist_sum f al"
  by (simp add: alist_sum_def)

lemma alist_sum_append [simp]: "alist_sum f (al @ bl) = alist_sum f al + alist_sum f bl"
  by (simp add: alist_sum_def)

lemma alist_sum_nonneg: "(\<And>k v. 0 \<le> f k v) \<Longrightarrow> 0 \<le> alist_sum f al"
  by (induction al) auto

lemma alist_sum_delete:
  assumes "distinct (keys_of al)"
  shows "alist_sum f (AList.delete k al)
    = alist_sum f al - (case map_of al k of None \<Rightarrow> 0 | Some v \<Rightarrow> f k v)"
  using assms
proof (induction al)
  case (Cons kv al)
  then show ?case
    by (cases kv; cases "map_of al k") (auto simp: map_of_eq_None_iff [symmetric] simp del: map_of_eq_Some_iff)
qed simp

lemma alist_sum_update:
  assumes "distinct (keys_of al)"
  shows "alist_sum f (AList.update k v al)
    = alist_sum f al - (case map_of al k of None \<Rightarrow> 0 | Some w \<Rightarrow> f k w) + f k v"
  using assms
proof (induction al)
  case (Cons kv al)
  then show ?case
    by (cases kv; cases "map_of al k") (auto simp: map_of_eq_None_iff [symmetric] simp del: map_of_eq_Some_iff)
qed simp

lemma alist_sum_filter:
  "alist_sum f (filter P al) = alist_sum f al - alist_sum f (filter (\<lambda>kv. \<not> P kv) al)"
  by (induction al) auto

lemma keys_of_delete: "keys_of (AList.delete k al) = removeAll k (keys_of al)"
  by (induction al) (auto simp: AList.delete_eq)

lemma map_of_filter_distinct:
  "distinct (keys_of al) \<Longrightarrow>
    map_of (filter P al) k = (case map_of al k of None \<Rightarrow> None
      | Some v \<Rightarrow> if P (k, v) then Some v else None)"
  by (induction al) (auto split: option.splits simp: map_of_eq_None_iff rev_image_eqI)

lemma distinct_keys_filter: "distinct (keys_of al) \<Longrightarrow> distinct (keys_of (filter P al))"
  by (induction al) auto

section \<open>Go maps\<close>

text \<open>
  A Go map is an association list with distinct keys. Lookup is a function of the
  contents only; the order of the list stands for one order in which a
  \<open>range\<close> over the map may visit it, and every operation that ranges takes the
  order it visits as an argument.
\<close>

type_synonym ('k, 'v) gomap = "('k, 'v) alist"

abbreviation mempty :: "('k, 'v) gomap" where "mempty \<equiv> DAList.empty"
abbreviation mget :: "('k, 'v) gomap \<Rightarrow> 'k \<Rightarrow> 'v option" where "mget \<equiv> DAList.lookup"
abbreviation mput :: "'k \<Rightarrow> 'v \<Rightarrow> ('k, 'v) gomap \<Rightarrow> ('k, 'v) gomap" where "mput \<equiv> DAList.update"
abbreviation mdel :: "'k \<Rightarrow> ('k, 'v) gomap \<Rightarrow> ('k, 'v) gomap" where "mdel \<equiv> DAList.delete"
abbreviation mfilter :: "('k \<times> 'v \<Rightarrow> bool) \<Rightarrow> ('k, 'v) gomap \<Rightarrow> ('k, 'v) gomap" where
  "mfilter \<equiv> DAList.filter"
abbreviation mentries :: "('k, 'v) gomap \<Rightarrow> ('k \<times> 'v) list" where "mentries \<equiv> DAList.impl_of"
abbreviation mkeys :: "('k, 'v) gomap \<Rightarrow> 'k list" where "mkeys m \<equiv> map fst (mentries m)"

definition msum :: "('k \<Rightarrow> 'v \<Rightarrow> int) \<Rightarrow> ('k, 'v) gomap \<Rightarrow> int" where
  "msum f m = alist_sum f (mentries m)"

lemma mget_update [simp]: "mget (mput k v m) = (mget m)(k \<mapsto> v)"
  by (auto simp: DAList.lookup_update)

lemma mget_empty [simp]: "mget mempty = (\<lambda>k. None)"
  by (simp add: fun_eq_iff)

lemma mget_filter: "mget (mfilter P m) k = (case mget m k of None \<Rightarrow> None
    | Some v \<Rightarrow> if P (k, v) then Some v else None)"
  by transfer (simp add: map_of_filter_distinct)

lemma mget_entries: "mget m k = Some v \<longleftrightarrow> (k, v) \<in> set (mentries m)"
  by transfer simp

lemma mget_None: "mget m k = None \<longleftrightarrow> k \<notin> set (mkeys m)"
  by transfer (simp add: map_of_eq_None_iff)

lemma finite_dom_mget [simp]: "finite (dom (mget m))"
  by transfer (rule finite_dom_map_of)

lemma dom_mget: "dom (mget m) = set (mkeys m)"
  by transfer (simp add: dom_map_of_conv_image_fst)

lemma msum_empty [simp]: "msum f mempty = 0"
  by (simp add: msum_def DAList.empty.rep_eq)

lemma msum_update: "msum f (mput k v m)
    = msum f m - (case mget m k of None \<Rightarrow> 0 | Some w \<Rightarrow> f k w) + f k v"
  by (simp add: msum_def DAList.update.rep_eq DAList.lookup.rep_eq alist_sum_update)

lemma msum_delete: "msum f (mdel k m) = msum f m - (case mget m k of None \<Rightarrow> 0 | Some w \<Rightarrow> f k w)"
  by (simp add: msum_def DAList.delete.rep_eq DAList.lookup.rep_eq alist_sum_delete)

lemma msum_filter: "msum f (mfilter P m) = msum f m - alist_sum f (filter (\<lambda>kv. \<not> P kv) (mentries m))"
  unfolding msum_def DAList.filter.rep_eq by (rule alist_sum_filter)

lemma msum_nonneg: "(\<And>k v. 0 \<le> f k v) \<Longrightarrow> 0 \<le> msum f m"
  by (simp add: msum_def alist_sum_nonneg)

lemmas gomap_sums = msum_update msum_delete msum_filter
lemmas gomap_reps = DAList.empty.rep_eq DAList.update.rep_eq DAList.delete.rep_eq DAList.filter.rep_eq DAList.lookup.rep_eq

text \<open>A range order visits each entry once.\<close>

definition range_order :: "('x list \<Rightarrow> 'x list) \<Rightarrow> bool" where
  "range_order r \<longleftrightarrow> (\<forall>xs. mset (r xs) = mset xs)"

lemma range_order_set: "range_order r \<Longrightarrow> set (r xs) = set xs"
  unfolding range_order_def by (metis set_mset_mset)

lemma range_order_length: "range_order r \<Longrightarrow> length (r xs) = length xs"
  unfolding range_order_def by (metis size_mset)

lemma range_order_distinct: "range_order r \<Longrightarrow> distinct (map f (r xs)) = distinct (map f xs)"
  unfolding range_order_def by (metis mset_map mset_eq_imp_distinct_iff)

lemma range_order_id [simp]: "range_order (\<lambda>xs. xs)" "range_order rev"
  by (simp_all add: range_order_def)

section \<open>Slicing loops\<close>

text \<open>
  \<^verbatim>\<open>for start := 0; start < len(xs); start += n { end := min(start+n, len(xs)); xs[start:end] }\<close>
  visits these slices. \<open>n\<close> is one of the positive constants of the source.
\<close>

function chunks :: "nat \<Rightarrow> 'a list \<Rightarrow> 'a list list" where
  "chunks n xs = (if xs = [] \<or> n = 0 then [] else take n xs # chunks n (drop n xs))"
  by pat_completeness auto
termination
  by (relation "measure (\<lambda>(n, xs). length xs)") (auto simp: not_le)

declare chunks.simps [simp del]

lemma chunks_Nil [simp]: "chunks n [] = []"
  by (simp add: chunks.simps)

lemma chunks_nonempty: "xs \<noteq> [] \<Longrightarrow> 0 < n \<Longrightarrow> chunks n xs = take n xs # chunks n (drop n xs)"
  by (simp add: chunks.simps)

lemma concat_chunks: "0 < n \<Longrightarrow> concat (chunks n xs) = xs"
proof (induction n xs rule: chunks.induct)
  case (1 n xs)
  then show ?case by (cases "xs = []") (simp_all add: chunks_nonempty [of xs n])
qed

lemma chunks_small: "xs \<noteq> [] \<Longrightarrow> length xs \<le> n \<Longrightarrow> chunks n xs = [xs]"
  using chunks_nonempty [of xs n] by (cases n) auto

lemma chunks_length_le: "c \<in> set (chunks n xs) \<Longrightarrow> length c \<le> n"
proof (induction n xs rule: chunks.induct)
  case (1 n xs)
  from "1.prems" have ne: "xs \<noteq> []" "n \<noteq> 0"
    by (auto simp: chunks.simps [of n xs] split: if_splits)
  with "1.prems" have "c = take n xs \<or> c \<in> set (chunks n (drop n xs))"
    by (simp add: chunks_nonempty [of xs n])
  with "1.IH" ne show ?case by auto
qed

lemma distinct_chunks:
  assumes "0 < n" "distinct (map f xs)" "c \<in> set (chunks n xs)"
  shows "distinct (map f c)"
proof -
  have "distinct (concat (map (map f) (chunks n xs)))"
    using assms(1,2) by (metis concat_chunks map_concat)
  with assms(3) show ?thesis by (simp add: distinct_concat_iff)
qed

section \<open>Text\<close>

definition ascii_lower :: "char \<Rightarrow> char" where
  "ascii_lower c = (if CHR ''A'' \<le> c \<and> c \<le> CHR ''Z'' then char_of (of_char c + (32::nat)) else c)"

text \<open>
  \<open>strings.ToLower\<close> on the bytes of an ASCII string. The words the source
  compares its result with contain no letter that a non-ASCII rune lowers to,
  so the comparison agrees with Go's on every input.
\<close>

definition to_lower :: "string \<Rightarrow> string" where
  "to_lower = map ascii_lower"

definition has_prefix :: "string \<Rightarrow> string \<Rightarrow> bool" where
  "has_prefix s p \<longleftrightarrow> take (length p) s = p"

definition has_suffix :: "string \<Rightarrow> string \<Rightarrow> bool" where
  "has_suffix s p \<longleftrightarrow> length p \<le> length s \<and> drop (length s - length p) s = p"

end
