(* ===== verification/Go_Time.thy ===== *)
theory Go_Time
  imports Kvp_Prelude
begin

text \<open>
  The part of Go's package \<open>time\<close> the program rests on: instants, their
  comparison, and the RFC 3339 text with trimmed nanoseconds
  (\<open>time.RFC3339Nano\<close>) in which the store writes every expiry.

  A \<open>time.Time\<close> is the pair of its instant (nanoseconds since the Unix epoch)
  and the offset from UTC, in seconds, that its location prescribes at that
  instant. \<open>Local\<close> is a function from instants to offsets (the zone rules of the
  process), an argument of \<open>time_add\<close>. \<open>After\<close>, \<open>Before\<close> and \<open>Equal\<close> compare
  instants only, the text shows the local date: that difference is what the
  last section is about.
\<close>

type_synonym duration = int
type_synonym zone = "int \<Rightarrow> int"

record gotime =
  ns :: int
  off :: int

definition second :: duration where
  "second = 1000000000"

definition time_at :: "zone \<Rightarrow> int \<Rightarrow> gotime" where
  "time_at z n = \<lparr>ns = n, off = z n\<rparr>"

definition time_add :: "zone \<Rightarrow> gotime \<Rightarrow> duration \<Rightarrow> gotime" where
  "time_add z t d = time_at z (ns t + d)"

definition after :: "gotime \<Rightarrow> gotime \<Rightarrow> bool" where
  "after t u \<longleftrightarrow> ns u < ns t"

definition before :: "gotime \<Rightarrow> gotime \<Rightarrow> bool" where
  "before t u \<longleftrightarrow> ns t < ns u"

definition time_equal :: "gotime \<Rightarrow> gotime \<Rightarrow> bool" where
  "time_equal t u \<longleftrightarrow> ns t = ns u"

lemma time_at_simps [simp]: "ns (time_at z n) = n" "off (time_at z n) = z n"
  by (simp_all add: time_at_def)

lemma time_add_simps [simp]: "ns (time_add z t d) = ns t + d" "off (time_add z t d) = z (ns t + d)"
  by (simp_all add: time_add_def)

text \<open>\<open>Time.Sub\<close> saturates at the ends of the 64-bit range.\<close>

definition max_duration :: duration where
  "max_duration = 9223372036854775807"

definition time_sub :: "gotime \<Rightarrow> gotime \<Rightarrow> duration" where
  "time_sub t u = max (- max_duration - 1) (min max_duration (ns t - ns u))"

text \<open>The zero \<open>time.Time\<close>: year 1, January 1, UTC.\<close>

definition zero_time :: gotime where
  "zero_time = \<lparr>ns = -62135596800000000000, off = 0\<rparr>"

section \<open>Calendar dates\<close>

text \<open>
  Days since 1970-01-01 and civil dates, in the proleptic Gregorian calendar.
  Years are counted from March, so that the leap day ends a year; 719468 days
  lie between 0000-03-01 and the epoch.
\<close>

definition civil_of_days :: "int \<Rightarrow> int \<times> int \<times> int" where
  "civil_of_days z =
    (let n = z + 719468;
         era = n div 146097; d0 = n mod 146097;
         c = min 3 (d0 div 36524); d1 = d0 - c * 36524;
         q = d1 div 1461; d2 = d1 - q * 1461;
         r = min 3 (d2 div 365); doy = d2 - r * 365;
         y = era * 400 + c * 100 + q * 4 + r;
         mp = (5 * doy + 2) div 153;
         d = doy - (153 * mp + 2) div 5 + 1
     in if mp < 10 then (y, mp + 3, d) else (y + 1, mp - 9, d))"

definition days_of_civil :: "int \<Rightarrow> int \<Rightarrow> int \<Rightarrow> int" where
  "days_of_civil y m d =
    (let y' = (if m \<le> 2 then y - 1 else y);
         mp = (if m \<le> 2 then m + 9 else m - 3)
     in (y' div 400) * 146097 + (y' mod 400) * 365 + (y' mod 400) div 4 - (y' mod 400) div 100
        + (153 * mp + 2) div 5 + d - 1 - 719468)"

text \<open>The month table the divisions by 153 encode.\<close>

lemma div_bounds:
  fixes a :: int
  assumes "0 < n"
  shows "n * (a div n) \<le> a" "a < n * (a div n) + n"
  using assms mult_div_mod_eq [of n a] pos_mod_bound [of n a] pos_mod_sign [of n a] by linarith+

lemma month_bounds:
  fixes doy :: int
  assumes "0 \<le> doy" "doy \<le> 365"
  defines "mp \<equiv> (5 * doy + 2) div 153"
  shows "0 \<le> mp" "mp \<le> 11" "1 \<le> doy - (153 * mp + 2) div 5 + 1" "doy - (153 * mp + 2) div 5 + 1 \<le> 31"
proof -
  have mp: "153 * mp \<le> 5 * doy + 2" "5 * doy + 2 < 153 * mp + 153"
    unfolding mp_def using div_bounds [of 153 "5 * doy + 2"] by simp_all
  define e where "e = (153 * mp + 2) div 5"
  have e: "5 * e \<le> 153 * mp + 2" "153 * mp + 2 < 5 * e + 5"
    unfolding e_def using div_bounds [of 5 "153 * mp + 2"] by simp_all
  show "0 \<le> mp" "mp \<le> 11" using mp assms(1,2) by linarith+
  show "1 \<le> doy - (153 * mp + 2) div 5 + 1" "doy - (153 * mp + 2) div 5 + 1 \<le> 31"
    using mp e unfolding e_def [symmetric] by linarith+
qed

lemma split_400:
  fixes d0 :: int
  assumes "0 \<le> d0" "d0 < 146097"
  defines "c \<equiv> min 3 (d0 div 36524)"
  defines "d1 \<equiv> d0 - c * 36524"
  defines "q \<equiv> d1 div 1461"
  defines "d2 \<equiv> d1 - q * 1461"
  defines "r \<equiv> min 3 (d2 div 365)"
  shows "0 \<le> c" "c \<le> 3" "0 \<le> d1" "d1 \<le> 36524" "0 \<le> q" "q \<le> 24" "0 \<le> d2" "d2 < 1461"
    "0 \<le> r" "r \<le> 3" "0 \<le> d2 - r * 365" "d2 - r * 365 \<le> 365"
proof -
  have dv: "36524 * (d0 div 36524) \<le> d0" "d0 < 36524 * (d0 div 36524) + 36524"
    using div_bounds [of 36524 d0] by simp_all
  then show c: "0 \<le> c" "c \<le> 3" unfolding c_def using assms(1) by linarith+
  show d1: "0 \<le> d1" "d1 \<le> 36524"
    unfolding d1_def c_def min_def using assms(1,2) dv by (auto split: if_splits)
  have dq: "1461 * q \<le> d1" "d1 < 1461 * q + 1461"
    unfolding q_def using div_bounds [of 1461 d1] by simp_all
  then show "0 \<le> q" "q \<le> 24" using d1 by linarith+
  show d2: "0 \<le> d2" "d2 < 1461" unfolding d2_def using dq by linarith+
  have dr: "365 * (d2 div 365) \<le> d2" "d2 < 365 * (d2 div 365) + 365"
    using div_bounds [of 365 d2] by simp_all
  then show "0 \<le> r" "r \<le> 3" unfolding r_def using d2 by linarith+
  show "0 \<le> d2 - r * 365" "d2 - r * 365 \<le> 365"
    unfolding r_def min_def using d2 dr by (auto split: if_splits)
qed

text \<open>The date shown for a day: the March-based year of the era, the day in that year.\<close>

lemma civil_of_daysE:
  obtains era yoe doy mp where "0 \<le> yoe" "yoe < 400" "0 \<le> doy" "doy \<le> 365"
    "z + 719468 = era * 146097 + yoe * 365 + yoe div 4 - yoe div 100 + doy"
    "mp = (5 * doy + 2) div 153"
    "civil_of_days z = (if mp < 10 then (era * 400 + yoe, mp + 3, doy - (153 * mp + 2) div 5 + 1)
      else (era * 400 + yoe + 1, mp - 9, doy - (153 * mp + 2) div 5 + 1))"
proof -
  define n where "n = z + 719468"
  define era where "era = n div 146097"
  define d0 where "d0 = n mod 146097"
  define c where "c = min 3 (d0 div 36524)"
  define d1 where "d1 = d0 - c * 36524"
  define q where "q = d1 div 1461"
  define d2 where "d2 = d1 - q * 1461"
  define r where "r = min 3 (d2 div 365)"
  define doy where "doy = d2 - r * 365"
  define mp where "mp = (5 * doy + 2) div 153"
  define yoe where "yoe = c * 100 + q * 4 + r"
  have d0: "0 \<le> d0" "d0 < 146097" unfolding d0_def by simp_all
  note b = split_400 [OF d0, folded c_def, folded d1_def, folded q_def, folded d2_def,
      folded r_def, folded doy_def]
  have yoe: "0 \<le> yoe" "yoe < 400" unfolding yoe_def using b by linarith+
  have d4: "yoe div 4 = c * 25 + q"
    by (rule int_div_pos_eq [of _ _ _ r]) (use b in \<open>simp_all add: yoe_def\<close>)
  have d100: "yoe div 100 = c"
    by (rule int_div_pos_eq [of _ _ _ "q * 4 + r"]) (use b in \<open>simp_all add: yoe_def\<close>)
  have n: "n = era * 146097 + d0" unfolding era_def d0_def by simp
  have n_eq: "z + 719468 = era * 146097 + yoe * 365 + yoe div 4 - yoe div 100 + doy"
    unfolding d4 d100 n_def [symmetric] n doy_def d2_def d1_def by (simp add: yoe_def)
  have "civil_of_days z = (if mp < 10 then (era * 400 + yoe, mp + 3, doy - (153 * mp + 2) div 5 + 1)
      else (era * 400 + yoe + 1, mp - 9, doy - (153 * mp + 2) div 5 + 1))"
    unfolding civil_of_days_def Let_def n_def [symmetric] era_def [symmetric] d0_def [symmetric]
      c_def [symmetric] d1_def [symmetric] q_def [symmetric] d2_def [symmetric] r_def [symmetric]
      doy_def [symmetric] mp_def [symmetric]
    by (simp add: yoe_def add.assoc)
  then show ?thesis using that yoe b(11,12) n_eq mp_def by blast
qed

text \<open>\<open>civil_of_days\<close> inverts: the day number is recovered from the date it shows.\<close>

lemma days_of_civil_of_days:
  assumes "civil_of_days z = (y, m, d)"
  shows "days_of_civil y m d = z"
proof (rule civil_of_daysE [of z])
  fix era yoe doy mp
  assume yoe: "0 \<le> yoe" "yoe < 400" and doy: "0 \<le> doy" "doy \<le> 365"
    and n: "z + 719468 = era * 146097 + yoe * 365 + yoe div 4 - yoe div 100 + doy"
    and mp: "mp = (5 * doy + 2) div 153"
    and civil: "civil_of_days z = (if mp < 10 then (era * 400 + yoe, mp + 3, doy - (153 * mp + 2) div 5 + 1)
      else (era * 400 + yoe + 1, mp - 9, doy - (153 * mp + 2) div 5 + 1))"
  have mb: "0 \<le> mp" "mp \<le> 11" using month_bounds [OF doy] mp by simp_all
  have era: "(era * 400 + yoe) div 400 = era" "(era * 400 + yoe) mod 400 = yoe"
    using yoe by auto
  have "(if m \<le> 2 then y - 1 else y) = era * 400 + yoe" "(if m \<le> 2 then m + 9 else m - 3) = mp"
    "d = doy - (153 * mp + 2) div 5 + 1"
    using assms civil mb by (auto split: if_splits)
  with n era show ?thesis by (simp add: days_of_civil_def Let_def)
qed

lemma civil_of_days_bounds:
  assumes "civil_of_days z = (y, m, d)"
  shows "1 \<le> m" "m \<le> 12" "1 \<le> d" "d \<le> 31"
proof -
  obtain era yoe doy mp where doy: "0 \<le> doy" "doy \<le> 365" and mp: "mp = (5 * doy + 2) div 153"
    and civil: "civil_of_days z = (if mp < 10 then (era * 400 + yoe, mp + 3, doy - (153 * mp + 2) div 5 + 1)
      else (era * 400 + yoe + 1, mp - 9, doy - (153 * mp + 2) div 5 + 1))"
    by (rule civil_of_daysE [of z]) blast
  note mb = month_bounds [OF doy, folded mp]
  show "1 \<le> m" "m \<le> 12" "1 \<le> d" "d \<le> 31"
    using assms mb unfolding civil by (auto split: if_splits)
qed

section \<open>Decimal text\<close>

definition digit_char :: "nat \<Rightarrow> char" where
  "digit_char n = char_of (48 + n mod 10)"

definition digit_val :: "char \<Rightarrow> nat" where
  "digit_val c = of_char c - 48"

definition is_digit :: "char \<Rightarrow> bool" where
  "is_digit c \<longleftrightarrow> (48::nat) \<le> of_char c \<and> of_char c \<le> (57::nat)"

text \<open>\<open>pad w n\<close>: the last \<open>w\<close> decimal digits of \<open>n\<close>; \<open>num\<close> reads digits.\<close>

primrec pad :: "nat \<Rightarrow> nat \<Rightarrow> string" where
  "pad 0 n = []"
| "pad (Suc w) n = pad w (n div 10) @ [digit_char n]"

definition num :: "string \<Rightarrow> nat" where
  "num ds = foldl (\<lambda>a c. a * 10 + digit_val c) 0 ds"

lemma digit_char_props [simp]: "is_digit (digit_char n)" "digit_val (digit_char n) = n mod 10"
proof -
  have "(48 + n mod 10) mod 256 = 48 + n mod 10"
    by (rule mod_less) (use mod_less_divisor [of 10 n] in linarith)
  then have "of_char (digit_char n) = 48 + n mod 10"
    by (simp add: digit_char_def of_char_of)
  then show "is_digit (digit_char n)" "digit_val (digit_char n) = n mod 10"
    by (simp_all add: is_digit_def digit_val_def)
qed

lemma length_pad [simp]: "length (pad w n) = w"
  by (induction w arbitrary: n) auto

lemma digits_pad: "c \<in> set (pad w n) \<Longrightarrow> is_digit c"
  by (induction w arbitrary: n) auto

lemma num_snoc [simp]: "num (ds @ [c]) = num ds * 10 + digit_val c"
  by (simp add: num_def)

lemma num_Nil [simp]: "num [] = 0"
  by (simp add: num_def)

lemma num_pad: "n < 10 ^ w \<Longrightarrow> num (pad w n) = n"
proof (induction w arbitrary: n)
  case (Suc w)
  then have "num (pad w (n div 10)) = n div 10" by (intro Suc.IH) (simp add: div_less_iff_less_mult)
  then show ?case by simp
qed simp

lemma num_zeros: "num (ds @ replicate z (CHR ''0'')) = num ds * 10 ^ z"
proof (induction z)
  case (Suc z)
  have "num (ds @ replicate (Suc z) (CHR ''0'')) = num ((ds @ replicate z (CHR ''0'')) @ [CHR ''0''])"
    by (simp add: replicate_append_same)
  also have "\<dots> = num ds * 10 ^ Suc z"
    unfolding num_snoc Suc.IH by (simp add: digit_val_def)
  finally show ?case .
qed simp

text \<open>Take exactly \<open>w\<close> digits off the front; expect one character.\<close>

definition digits :: "nat \<Rightarrow> string \<Rightarrow> (int \<times> string) option" where
  "digits w s = (if w \<le> length s \<and> list_all is_digit (take w s)
     then Some (int (num (take w s)), drop w s) else None)"

fun expect :: "char \<Rightarrow> string \<Rightarrow> string option" where
  "expect c [] = None"
| "expect c (x # s) = (if x = c then Some s else None)"

lemma digits_pad_append: "0 \<le> v \<Longrightarrow> v < 10 ^ w \<Longrightarrow> digits w (pad w (nat v) @ s) = Some (v, s)"
  using num_pad [of "nat v" w]
  by (auto simp: digits_def list_all_iff digits_pad nat_less_iff)

section \<open>RFC 3339 with trimmed nanoseconds\<close>

text \<open>\<open>.999999999\<close> in a layout: the fraction without trailing zeros, nothing for 0.\<close>

definition trim_zeros :: "string \<Rightarrow> string" where
  "trim_zeros ds = rev (dropWhile ((=) CHR ''0'') (rev ds))"

definition frac_text :: "nat \<Rightarrow> string" where
  "frac_text n = (if n = 0 then [] else CHR ''.'' # trim_zeros (pad 9 n))"

text \<open>\<open>Z07:00\<close> in a layout: \<open>Z\<close> for offset 0, else sign, hours and minutes.\<close>

definition zone_text :: "int \<Rightarrow> string" where
  "zone_text z = (if z = 0 then ''Z''
     else (if z < 0 then CHR ''-'' else CHR ''+'')
       # pad 2 (nat (\<bar>z\<bar> div 3600)) @ '':'' @ pad 2 (nat (\<bar>z\<bar> div 60 mod 60)))"

definition local_secs :: "gotime \<Rightarrow> int" where
  "local_secs t = ns t div second + off t"

text \<open>\<open>t.Format(time.RFC3339Nano)\<close>, for the years 0 to 9999 that take four digits.\<close>

definition rfc3339 :: "gotime \<Rightarrow> string" where
  "rfc3339 t =
    (let secs = local_secs t;
         (y, m, d) = civil_of_days (secs div 86400);
         sod = secs mod 86400
     in pad 4 (nat y) @ ''-'' @ pad 2 (nat m) @ ''-'' @ pad 2 (nat d) @ ''T''
        @ pad 2 (nat (sod div 3600)) @ '':'' @ pad 2 (nat (sod div 60 mod 60)) @ '':''
        @ pad 2 (nat (sod mod 60)) @ frac_text (nat (ns t mod second)) @ zone_text (off t))"

definition parse_frac :: "string \<Rightarrow> (int \<times> string) option" where
  "parse_frac s = (case s of
      CHR ''.'' # r \<Rightarrow>
        (let ds = takeWhile is_digit r
         in if ds = [] then None
            else Some (int (num (take 9 ds) * 10 ^ (9 - length (take 9 ds))), dropWhile is_digit r))
    | _ \<Rightarrow> Some (0, s))"

definition parse_zone :: "string \<Rightarrow> int option" where
  "parse_zone s = (case s of
      [] \<Rightarrow> None
    | c # r \<Rightarrow>
        if s = ''Z'' then Some 0
        else if c \<in> set ''+-'' then do {
          (h, r) \<leftarrow> digits 2 r;
          r \<leftarrow> expect (CHR '':'') r;
          (mi, r) \<leftarrow> digits 2 r;
          if r = [] \<and> h \<le> 24 \<and> mi < 60
            then Some ((if c = CHR ''-'' then -1 else 1) * (h * 3600 + mi * 60)) else None }
        else None)"

text \<open>\<open>time.Parse(time.RFC3339Nano, s)\<close>: \<open>None\<close> is its error.\<close>

definition parse_rfc3339 :: "string \<Rightarrow> gotime option" where
  "parse_rfc3339 s = do {
     (y, s) \<leftarrow> digits 4 s; s \<leftarrow> expect (CHR ''-'') s;
     (m, s) \<leftarrow> digits 2 s; s \<leftarrow> expect (CHR ''-'') s;
     (d, s) \<leftarrow> digits 2 s; s \<leftarrow> expect (CHR ''T'') s;
     (h, s) \<leftarrow> digits 2 s; s \<leftarrow> expect (CHR '':'') s;
     (mi, s) \<leftarrow> digits 2 s; s \<leftarrow> expect (CHR '':'') s;
     (sc, s) \<leftarrow> digits 2 s;
     (fr, s) \<leftarrow> parse_frac s;
     z \<leftarrow> parse_zone s;
     (if h < 24 \<and> mi < 60 \<and> sc < 60 \<and> civil_of_days (days_of_civil y m d) = (y, m, d)
      then Some \<lparr>ns = (days_of_civil y m d * 86400 + h * 3600 + mi * 60 + sc - z) * second + fr, off = z\<rparr>
      else None) }"

section \<open>Parsing what was formatted\<close>

lemma trim_zeros_split:
  obtains z where "ds = trim_zeros ds @ replicate z (CHR ''0'')"
proof -
  let ?z = "takeWhile ((=) CHR ''0'') (rev ds)"
  have "?z = replicate (length ?z) (CHR ''0'')"
    by (rule replicate_length_same [symmetric]) (auto dest: set_takeWhileD)
  then have "rev ds = replicate (length ?z) (CHR ''0'') @ dropWhile ((=) CHR ''0'') (rev ds)"
    by (metis takeWhile_dropWhile_id)
  then have "ds = trim_zeros ds @ replicate (length ?z) (CHR ''0'')"
    unfolding trim_zeros_def by (metis rev_append rev_replicate rev_rev_ident)
  then show ?thesis by (rule that)
qed

lemma parse_frac_text:
  assumes "n < 10 ^ 9" and rest: "rest \<noteq> []" "\<not> is_digit (hd rest)" "hd rest \<noteq> CHR ''.''"
  shows "parse_frac (frac_text n @ rest) = Some (int n, rest)"
proof (cases "n = 0")
  case True
  with rest show ?thesis by (cases rest) (simp_all add: frac_text_def parse_frac_def split: char.split bool.split)
next
  case False
  obtain z where z: "pad 9 n = trim_zeros (pad 9 n) @ replicate z (CHR ''0'')"
    by (rule trim_zeros_split)
  define ds where "ds = trim_zeros (pad 9 n)"
  have len: "length ds = 9 - z" "z \<le> 9"
    using arg_cong [OF z, of length] by (simp_all add: ds_def)
  have num: "num ds * 10 ^ z = n"
    using num_pad [OF assms(1)] num_zeros [of ds z] z by (simp add: ds_def)
  with False have "ds \<noteq> []" by auto
  moreover have dig: "c \<in> set ds \<Longrightarrow> is_digit c" for c
    using digits_pad [of c 9 n] z by (metis Un_iff ds_def set_append)
  moreover have "takeWhile is_digit (ds @ rest) = ds" "dropWhile is_digit (ds @ rest) = rest"
    using rest by (cases rest; simp add: dig)+
  ultimately show ?thesis
    using False len num by (simp add: parse_frac_def frac_text_def ds_def Let_def)
qed

lemma hour_min_sec: "(a div 3600) * 3600 + (a div 60 mod 60) * 60 + a mod 60 = (a::int)"
proof -
  have "a div 3600 = a div 60 div 60" using zdiv_zmult2_eq [of 60 a 60] by simp
  moreover have "a div 60 = 60 * (a div 60 div 60) + a div 60 mod 60" by simp
  moreover have "a = 60 * (a div 60) + a mod 60" by simp
  ultimately show ?thesis by linarith
qed

lemma zone_text_hd: "zone_text z \<noteq> []" "\<not> is_digit (hd (zone_text z))" "hd (zone_text z) \<noteq> CHR ''.''"
  by (simp_all add: zone_text_def is_digit_def)

lemma parse_zone_text:
  assumes "\<bar>z\<bar> < 86400" "z mod 60 = 0"
  shows "parse_zone (zone_text z) = Some z"
proof (cases "z = 0")
  case True
  then show ?thesis by (simp add: zone_text_def parse_zone_def)
next
  case False
  define h where "h = \<bar>z\<bar> div 3600"
  define m where "m = \<bar>z\<bar> div 60 mod 60"
  have hm: "0 \<le> h" "h < 24" "0 \<le> m" "m < 60" unfolding h_def m_def using assms(1) by auto
  have "\<bar>z\<bar> mod 60 = 0" using assms(2) by (simp add: abs_if zmod_zminus1_eq_if)
  then have z: "h * 3600 + m * 60 = \<bar>z\<bar>"
    unfolding h_def m_def using hour_min_sec [of "\<bar>z\<bar>"] by linarith
  have d: "digits 2 (pad 2 (nat h) @ s) = Some (h, s)" "digits 2 (pad 2 (nat m) @ s) = Some (m, s)" for s
    using hm by (simp_all add: digits_pad_append)
  show ?thesis
    using False hm d z d(2) [of "[]"]
    by (auto simp: zone_text_def parse_zone_def h_def [symmetric] m_def [symmetric])
qed

text \<open>The times whose text time.Parse reads back: a four-digit year, whole minutes of offset.\<close>

definition writable :: "gotime \<Rightarrow> bool" where
  "writable t \<longleftrightarrow> (let (y, m, d) = civil_of_days (local_secs t div 86400) in 0 \<le> y \<and> y < 10000)
     \<and> \<bar>off t\<bar> < 86400 \<and> off t mod 60 = 0"

lemma parse_format: "writable t \<Longrightarrow> parse_rfc3339 (rfc3339 t) = Some t"
proof -
  assume w: "writable t"
  define secs where "secs = local_secs t"
  define fr where "fr = ns t mod second"
  define h where "h = secs mod 86400 div 3600"
  define mi where "mi = secs mod 86400 div 60 mod 60"
  define sc where "sc = secs mod 86400 mod 60"
  obtain y m d where ymd: "civil_of_days (secs div 86400) = (y, m, d)"
    by (cases "civil_of_days (secs div 86400)")
  note md = civil_of_days_bounds [OF ymd]
  have y: "0 \<le> y" "y < 10000" and off: "\<bar>off t\<bar> < 86400" "off t mod 60 = 0"
    using w ymd by (simp_all add: writable_def secs_def)
  have sod: "0 \<le> secs mod 86400" "secs mod 86400 < 86400" by simp_all
  have h: "0 \<le> h" "h < 24" and mi: "0 \<le> mi" "mi < 60" and sc: "0 \<le> sc" "sc < 60"
    unfolding h_def mi_def sc_def using sod by auto
  have hms: "h * 3600 + mi * 60 + sc = secs mod 86400"
    unfolding h_def mi_def sc_def by (rule hour_min_sec)
  have fr: "0 \<le> fr" "fr < 10 ^ 9" unfolding fr_def second_def by simp_all
  have digs: "digits 4 (pad 4 (nat y) @ s) = Some (y, s)" "digits 2 (pad 2 (nat m) @ s) = Some (m, s)"
    "digits 2 (pad 2 (nat d) @ s) = Some (d, s)" "digits 2 (pad 2 (nat h) @ s) = Some (h, s)"
    "digits 2 (pad 2 (nat mi) @ s) = Some (mi, s)" "digits 2 (pad 2 (nat sc) @ s) = Some (sc, s)" for s
    using y md h mi sc by (simp_all add: digits_pad_append)
  have frac: "parse_frac (frac_text (nat fr) @ zone_text (off t)) = Some (fr, zone_text (off t))"
    using parse_frac_text [of "nat fr" "zone_text (off t)"] fr zone_text_hd by (simp add: nat_less_iff)
  have "((secs div 86400) * 86400 + h * 3600 + mi * 60 + sc - off t) * second + fr = ns t"
  proof -
    have "(secs div 86400) * 86400 + h * 3600 + mi * 60 + sc = secs"
      using hms div_mult_mod_eq [of secs 86400] by linarith
    then have "(secs div 86400) * 86400 + h * 3600 + mi * 60 + sc - off t = ns t div second"
      by (simp add: secs_def local_secs_def)
    then show ?thesis by (simp add: fr_def)
  qed
  then show ?thesis
    using h mi sc days_of_civil_of_days [OF ymd] ymd
    by (simp add: parse_rfc3339_def rfc3339_def Let_def secs_def [symmetric] h_def [symmetric]
        mi_def [symmetric] sc_def [symmetric] fr_def [symmetric] digs frac parse_zone_text [OF off])
qed

corollary rfc3339_inj: "writable t \<Longrightarrow> writable u \<Longrightarrow> rfc3339 t = rfc3339 u \<Longrightarrow> t = u"
  by (metis parse_format option.inject)

section \<open>Sample instants\<close>

text \<open>Whole seconds in UTC, for concrete runs.\<close>

definition sample_time :: "int \<Rightarrow> gotime" where
  "sample_time n = \<lparr>ns = n * second, off = 0\<rparr>"

abbreviation utc :: zone where
  "utc \<equiv> \<lambda>_. 0"

lemma sample_time_simps [simp]:
  "ns (sample_time n) = n * second" "off (sample_time n) = 0"
  "time_add utc (sample_time n) (d * second) = sample_time (n + d)"
  "time_add utc (sample_time n) second = sample_time (n + 1)"
  "after (sample_time m) (sample_time n) \<longleftrightarrow> n < m"
  by (simp_all add: sample_time_def time_add_def time_at_def after_def second_def)

lemma sample_time_writable [simp]:
  assumes "0 \<le> n" "n < 86400"
  shows "writable (sample_time n)"
proof -
  have "local_secs (sample_time n) = n"
    unfolding local_secs_def sample_time_simps by (simp add: second_def)
  then have "local_secs (sample_time n) div 86400 = 0" using assms by simp
  moreover have "civil_of_days 0 = (1970, 1, 1)" by code_simp
  ultimately show ?thesis by (simp add: writable_def)
qed

end
