(* ===== verification/Sql_Engine.thy ===== *)
theory Sql_Engine
  imports Go_Time
begin

text \<open>
  The database, as the store sees it. The engine itself (the SQLite driver) is
  third-party code: it is a parameter of the model, a record \<open>'db sqlite\<close> of the
  calls the program makes on an opaque state \<open>'db\<close>. Every call may fail; how it
  fails, and which of several permitted rows it picks, is the engine's choice.

  \<^item> \<open>stmt\<close>: the SQL statements of the source, one constructor per statement
    text, with the bound parameters as arguments;
  \<^item> \<open>stmt_post\<close>: what SQLite documents for each statement, as a relation
    between the table before and after and the number of affected rows;
  \<^item> locale \<open>sql_engine\<close>: the laws the store relies on (a statement takes
    effect as documented or not at all, reads change nothing, a transaction is
    atomic and isolated);
  \<^item> \<open>ref_engine\<close>: an engine over an explicit table with a schedule of
    failures, and the interpretation showing that it obeys the laws.
\<close>

type_synonym key = string
type_synonym sql_error = string
type_synonym row = "key \<times> bytes \<times> string"

text \<open>\<open>kv_store\<close>: the key's value and the text of its expiry.\<close>

type_synonym table = "key \<rightharpoonup> bytes \<times> string"

datatype stmt =
    Pragma string
  | CreateSchema
  | Upsert key bytes string       \<comment> \<open>\<open>upsertSQL\<close>\<close>
  | DeleteKey key                 \<comment> \<open>\<open>WHERE key = ?\<close>\<close>
  | DeleteKeyAt key string        \<comment> \<open>\<open>WHERE key = ? AND expires_at = ?\<close>\<close>
  | DeleteKeyUpTo key string      \<comment> \<open>\<open>WHERE key = ? AND expires_at <= ?\<close>\<close>
  | DeleteKeys "key list"         \<comment> \<open>\<open>WHERE key IN (?, ?, ...)\<close>\<close>
  | DeleteBefore string           \<comment> \<open>\<open>WHERE expires_at < ?\<close>\<close>
  | DeleteBeforeLimit string int  \<comment> \<open>\<open>... WHERE expires_at < ? ORDER BY expires_at ASC LIMIT ?\<close>\<close>
  | DeleteOldest int              \<comment> \<open>\<open>... ORDER BY expires_at ASC LIMIT ?\<close>\<close>
  | IncrementalVacuumPages int
  | VacuumInto string

text \<open>
  A row iterator: the outcome of \<open>Scan\<close> on each row \<open>Next\<close> reached, then the
  results of \<open>Err\<close> and \<open>Close\<close>.
\<close>

record 'a rows =
  items :: "(sql_error + 'a) list"
  iter_err :: "sql_error option"
  close_err :: "sql_error option"

text \<open>
  \<open>sq_exec\<close> yields the result of \<open>RowsAffected\<close> inside the result of
  \<open>ExecContext\<close>; \<open>sq_select_key\<close> yields \<open>None\<close> for \<open>sql.ErrNoRows\<close>.
\<close>

record 'db sqlite =
  sq_exec :: "stmt \<Rightarrow> 'db \<Rightarrow> (sql_error, (sql_error, int) res) res \<times> 'db"
  sq_select_all :: "'db \<Rightarrow> (sql_error, row rows) res \<times> 'db"
  sq_select_key :: "key \<Rightarrow> 'db \<Rightarrow> (sql_error, (bytes \<times> string) option) res \<times> 'db"
  sq_probe_before :: "string \<Rightarrow> 'db \<Rightarrow> (sql_error, bool) res \<times> 'db"
  sq_select_oldest :: "int \<Rightarrow> 'db \<Rightarrow> (sql_error, key rows) res \<times> 'db"
  sq_count :: "'db \<Rightarrow> (sql_error, int) res \<times> 'db"
  sq_page_count :: "'db \<Rightarrow> (sql_error, int) res \<times> 'db"
  sq_page_size :: "'db \<Rightarrow> (sql_error, int) res \<times> 'db"
  sq_begin :: "'db \<Rightarrow> (sql_error, unit) res \<times> 'db"
  sq_tx_exec :: "stmt \<Rightarrow> 'db \<Rightarrow> (sql_error, (sql_error, int) res) res \<times> 'db"
  sq_commit :: "'db \<Rightarrow> (sql_error, unit) res \<times> 'db"
  sq_rollback :: "'db \<Rightarrow> 'db"
  sq_ping :: "'db \<Rightarrow> (sql_error, unit) res \<times> 'db"
  sq_close :: "'db \<Rightarrow> (sql_error, unit) res \<times> 'db"

section \<open>What the statements do to the table\<close>

definition matched :: "(key \<Rightarrow> string \<Rightarrow> bool) \<Rightarrow> table \<Rightarrow> key set" where
  "matched P t = {k. \<exists>v e. t k = Some (v, e) \<and> P k e}"

definition exp_of :: "table \<Rightarrow> key \<Rightarrow> string" where
  "exp_of t k = snd (the (t k))"

text \<open>\<open>LIMIT n\<close>: a negative limit is no limit.\<close>

definition sql_limit :: "int \<Rightarrow> nat \<Rightarrow> nat" where
  "sql_limit n c = (if n < 0 then c else min (nat n) c)"

text \<open>
  \<open>V\<close> is an answer to \<open>SELECT key ... ORDER BY expires_at ASC LIMIT n\<close>: as many
  matching rows as the limit admits, none with a later text than a row left out.
  Among equal texts the engine chooses.
\<close>

definition oldest_sel :: "(key \<Rightarrow> string \<Rightarrow> bool) \<Rightarrow> int \<Rightarrow> table \<Rightarrow> key set \<Rightarrow> bool" where
  "oldest_sel P n t V \<longleftrightarrow> V \<subseteq> matched P t \<and> card V = sql_limit n (card (matched P t))
     \<and> (\<forall>k\<in>V. \<forall>k'\<in>matched P t - V. exp_of t k \<le> exp_of t k')"

definition remove_keys :: "key set \<Rightarrow> table \<Rightarrow> table" where
  "remove_keys V t = t |` (- V)"

definition removes :: "key set \<Rightarrow> table \<Rightarrow> table \<Rightarrow> int \<Rightarrow> bool" where
  "removes V t t' n \<longleftrightarrow> t' = remove_keys V t \<and> n = int (card (V \<inter> dom t))"

fun stmt_post :: "stmt \<Rightarrow> table \<Rightarrow> table \<Rightarrow> int \<Rightarrow> bool" where
  "stmt_post (Upsert k v e) t t' n \<longleftrightarrow> t' = t(k \<mapsto> (v, e)) \<and> n = 1"
| "stmt_post (DeleteKey k) t t' n \<longleftrightarrow> removes {k} t t' n"
| "stmt_post (DeleteKeyAt k x) t t' n \<longleftrightarrow> removes (matched (\<lambda>k' e. k' = k \<and> e = x) t) t t' n"
| "stmt_post (DeleteKeyUpTo k x) t t' n \<longleftrightarrow> removes (matched (\<lambda>k' e. k' = k \<and> e \<le> x) t) t t' n"
| "stmt_post (DeleteKeys ks) t t' n \<longleftrightarrow> removes (set ks) t t' n"
| "stmt_post (DeleteBefore x) t t' n \<longleftrightarrow> removes (matched (\<lambda>k e. e < x) t) t t' n"
| "stmt_post (DeleteBeforeLimit x m) t t' n \<longleftrightarrow>
     (\<exists>V. oldest_sel (\<lambda>k e. e < x) m t V \<and> removes V t t' n)"
| "stmt_post (DeleteOldest m) t t' n \<longleftrightarrow> (\<exists>V. oldest_sel (\<lambda>k e. True) m t V \<and> removes V t t' n)"
| "stmt_post _ t t' n \<longleftrightarrow> t' = t"

lemma remove_keys_apply: "remove_keys V t k = (if k \<in> V then None else t k)"
  by (simp add: remove_keys_def restrict_map_def)

lemma remove_keys_simps [simp]: "remove_keys {} t = t" "remove_keys V (remove_keys W t) = remove_keys (V \<union> W) t"
  by (auto simp: remove_keys_apply fun_eq_iff)

lemma dom_remove_keys [simp]: "dom (remove_keys V t) = dom t - V"
  by (auto simp: remove_keys_apply dom_def)

lemma matched_subset: "matched P t \<subseteq> dom t"
  by (auto simp: matched_def)

lemma matched_True [simp]: "matched (\<lambda>k e. True) t = dom t"
  by (auto simp: matched_def)

lemma sql_limit_le: "sql_limit n c \<le> c" "0 \<le> n \<Longrightarrow> int (sql_limit n c) \<le> n"
  by (simp_all add: sql_limit_def)

text \<open>Rows were only removed, never changed or added.\<close>

definition shrinks :: "table \<Rightarrow> table \<Rightarrow> bool" where
  "shrinks t t' \<longleftrightarrow> t' \<subseteq>\<^sub>m t"

lemma removes_shrinks: "removes V t t' n \<Longrightarrow> shrinks t t'"
  by (auto simp: removes_def shrinks_def map_le_def remove_keys_apply split: if_splits)

section \<open>The laws of the engine\<close>

text \<open>The rows an iterator delivered, when neither a \<open>Scan\<close> nor the iteration failed.\<close>

definition clean :: "'a rows \<Rightarrow> bool" where
  "clean r \<longleftrightarrow> list_all (\<lambda>x. \<not> isl x) (items r) \<and> iter_err r = None"

definition delivered :: "'a rows \<Rightarrow> 'a list" where
  "delivered r = map projr (items r)"

text \<open>\<open>pend\<close> is the table as the open transaction sees it, \<open>tbl\<close> the committed one.\<close>

locale sql_engine =
  fixes E :: "'db sqlite" and tbl :: "'db \<Rightarrow> table" and pend :: "'db \<Rightarrow> table"
  assumes tbl_finite: "finite (dom (tbl d))"
    and exec_ok: "sq_exec E st d = (Inr r, d') \<Longrightarrow>
      \<exists>n. stmt_post st (tbl d) (tbl d') n \<and> (isl r \<or> r = Inr n)"
    and exec_err: "sq_exec E st d = (Inl x, d') \<Longrightarrow> tbl d' = tbl d"
    and select_all_pure: "tbl (snd (sq_select_all E d)) = tbl d"
    and select_all_ok: "sq_select_all E d = (Inr ra, d') \<Longrightarrow> clean ra \<Longrightarrow>
      distinct (map fst (delivered ra)) \<and> map_of (delivered ra) = tbl d"
    and select_key_pure: "tbl (snd (sq_select_key E k d)) = tbl d"
    and select_key_ok: "sq_select_key E k d = (Inr rk, d') \<Longrightarrow> rk = tbl d k"
    and probe_pure: "tbl (snd (sq_probe_before E x d)) = tbl d"
    and probe_ok: "sq_probe_before E x d = (Inr b, d') \<Longrightarrow> b \<longleftrightarrow> matched (\<lambda>k e. e < x) (tbl d) \<noteq> {}"
    and oldest_pure: "tbl (snd (sq_select_oldest E n d)) = tbl d"
    and oldest_ok: "sq_select_oldest E n d = (Inr ro, d') \<Longrightarrow> clean ro \<Longrightarrow>
      distinct (delivered ro) \<and> oldest_sel (\<lambda>k e. True) n (tbl d) (set (delivered ro))"
    and count_pure: "tbl (snd (sq_count E d)) = tbl d"
    and count_ok: "sq_count E d = (Inr n, d') \<Longrightarrow> n = int (card (dom (tbl d)))"
    and page_pure: "tbl (snd (sq_page_count E d)) = tbl d" "tbl (snd (sq_page_size E d)) = tbl d"
    and begin_pure: "tbl (snd (sq_begin E d)) = tbl d"
    and begin_ok: "sq_begin E d = (Inr (), d') \<Longrightarrow> pend d' = tbl d"
    and tx_pure: "tbl (snd (sq_tx_exec E st d)) = tbl d"
    and tx_ok: "sq_tx_exec E st d = (Inr r, d') \<Longrightarrow> \<exists>n. stmt_post st (pend d) (pend d') n"
    and commit_ok: "sq_commit E d = (Inr (), d') \<Longrightarrow> tbl d' = pend d"
    and commit_err: "sq_commit E d = (Inl x, d') \<Longrightarrow> tbl d' = tbl d"
    and rollback_pure: "tbl (sq_rollback E d) = tbl d"
    and ping_pure: "tbl (snd (sq_ping E d)) = tbl d"
    and close_pure: "tbl (snd (sq_close E d)) = tbl d"
begin

lemma exec_result:
  assumes "sq_exec E st d = (r, d')"
  obtains (failed) x where "r = Inl x" "tbl d' = tbl d"
    | (succeeded) r' n where "r = Inr r'" "stmt_post st (tbl d) (tbl d') n" "isl r' \<or> r' = Inr n"
proof (cases r)
  case (Inl x)
  with assms show ?thesis by (intro failed) (auto dest: exec_err)
next
  case (Inr r')
  with assms obtain n where "stmt_post st (tbl d) (tbl d') n" "isl r' \<or> r' = Inr n"
    using exec_ok [of st d r' d'] by auto
  with Inr show ?thesis by (rule succeeded)
qed

lemma exec_delete_shrinks:
  assumes "sq_exec E st d = (r, d')" and "\<And>t t' n. stmt_post st t t' n \<Longrightarrow> shrinks t t'"
  shows "shrinks (tbl d) (tbl d')"
  using assms(1)
proof (cases rule: exec_result)
  case failed
  then show ?thesis by (simp add: shrinks_def)
next
  case succeeded
  then show ?thesis by (intro assms(2))
qed

lemmas reads_pure = select_all_pure select_key_pure probe_pure oldest_pure count_pure page_pure
  begin_pure tx_pure rollback_pure ping_pure close_pure

end

section \<open>An engine over an explicit table\<close>

text \<open>
  The committed rows, the rows of the open transaction and the schedule of
  failures: each call takes one entry off \<open>faults\<close> and fails when it is True.
  Ties in \<open>ORDER BY expires_at\<close> are broken by the order of the entries.
\<close>

record ref_db =
  rtab :: "(key, bytes \<times> string) gomap"
  rpend :: "(key, bytes \<times> string) gomap"
  faults :: "bool list"

definition ref_io :: "('a \<times> ref_db) \<Rightarrow> ref_db \<Rightarrow> (sql_error, 'a) res \<times> ref_db" where
  "ref_io ok d = (case faults d of
      True # fs \<Rightarrow> (Inl ''disk I/O error'', d\<lparr>faults := fs\<rparr>)
    | fs \<Rightarrow> (Inr (fst ok), (snd ok)\<lparr>faults := tl fs\<rparr>))"

definition ref_select :: "(key \<Rightarrow> string \<Rightarrow> bool) \<Rightarrow> int \<Rightarrow> (key, bytes \<times> string) gomap \<Rightarrow> key list" where
  "ref_select P n tab =
     (let rs = sort_key (\<lambda>(k, v, e). e) (filter (\<lambda>(k, v, e). P k e) (mentries tab))
      in map fst (take (sql_limit n (length rs)) rs))"

definition ref_remove :: "key list \<Rightarrow> (key, bytes \<times> string) gomap \<Rightarrow> (key, bytes \<times> string) gomap \<times> int" where
  "ref_remove ks tab =
     (mfilter (\<lambda>kv. fst kv \<notin> set ks) tab, int (length (filter (\<lambda>kv. fst kv \<in> set ks) (mentries tab))))"

fun ref_stmt :: "stmt \<Rightarrow> (key, bytes \<times> string) gomap \<Rightarrow> (key, bytes \<times> string) gomap \<times> int" where
  "ref_stmt (Upsert k v e) tab = (mput k (v, e) tab, 1)"
| "ref_stmt (DeleteKey k) tab = ref_remove [k] tab"
| "ref_stmt (DeleteKeyAt k x) tab = ref_remove (ref_select (\<lambda>k' e. k' = k \<and> e = x) (- 1) tab) tab"
| "ref_stmt (DeleteKeyUpTo k x) tab = ref_remove (ref_select (\<lambda>k' e. k' = k \<and> e \<le> x) (- 1) tab) tab"
| "ref_stmt (DeleteKeys ks) tab = ref_remove ks tab"
| "ref_stmt (DeleteBefore x) tab = ref_remove (ref_select (\<lambda>k e. e < x) (- 1) tab) tab"
| "ref_stmt (DeleteBeforeLimit x m) tab = ref_remove (ref_select (\<lambda>k e. e < x) m tab) tab"
| "ref_stmt (DeleteOldest m) tab = ref_remove (ref_select (\<lambda>k e. True) m tab) tab"
| "ref_stmt _ tab = (tab, 0)"

definition rows_of :: "'a list \<Rightarrow> 'a rows" where
  "rows_of xs = \<lparr>items = map Inr xs, iter_err = None, close_err = None\<rparr>"

definition ref_engine :: "ref_db sqlite" where
  "ref_engine = \<lparr>
     sq_exec = (\<lambda>st d. ref_io (Inr (snd (ref_stmt st (rtab d))), d\<lparr>rtab := fst (ref_stmt st (rtab d))\<rparr>) d),
     sq_select_all = (\<lambda>d. ref_io (rows_of (mentries (rtab d)), d) d),
     sq_select_key = (\<lambda>k d. ref_io (mget (rtab d) k, d) d),
     sq_probe_before = (\<lambda>x d. ref_io (list_ex (\<lambda>(k, v, e). e < x) (mentries (rtab d)), d) d),
     sq_select_oldest = (\<lambda>n d. ref_io (rows_of (ref_select (\<lambda>k e. True) n (rtab d)), d) d),
     sq_count = (\<lambda>d. ref_io (int (length (mentries (rtab d))), d) d),
     sq_page_count = (\<lambda>d. ref_io (1 + int (length (mentries (rtab d))), d) d),
     sq_page_size = (\<lambda>d. ref_io (4096, d) d),
     sq_begin = (\<lambda>d. ref_io ((), d\<lparr>rpend := rtab d\<rparr>) d),
     sq_tx_exec = (\<lambda>st d. ref_io (Inr (snd (ref_stmt st (rpend d))), d\<lparr>rpend := fst (ref_stmt st (rpend d))\<rparr>) d),
     sq_commit = (\<lambda>d. ref_io ((), d\<lparr>rtab := rpend d\<rparr>) d),
     sq_rollback = (\<lambda>d. d),
     sq_ping = (\<lambda>d. ref_io ((), d) d),
     sq_close = (\<lambda>d. ref_io ((), d) d)\<rparr>"

definition ref_tbl :: "ref_db \<Rightarrow> table" where
  "ref_tbl d = mget (rtab d)"

definition ref_pend :: "ref_db \<Rightarrow> table" where
  "ref_pend d = mget (rpend d)"

definition ref_start :: "bool list \<Rightarrow> ref_db" where
  "ref_start fs = \<lparr>rtab = mempty, rpend = mempty, faults = fs\<rparr>"

lemma card_dom_mget: "card (dom (mget m)) = length (mentries m)"
  unfolding dom_mget by (metis DAList.impl_of_distinct distinct_card length_map)

lemma ref_matched: "matched P (mget m) = set (map fst (filter (\<lambda>(k, v, e). P k e) (mentries m)))"
  by (force simp: matched_def mget_entries image_iff)

lemma ref_select_oldest:
  "oldest_sel P n (mget m) (set (ref_select P n m))" "distinct (ref_select P n m)"
proof -
  define rs where "rs = sort_key (\<lambda>(k, v, e). e) (filter (\<lambda>(k, v, e). P k e) (mentries m))"
  define j where "j = sql_limit n (length rs)"
  have sel: "ref_select P n m = map fst (take j rs)"
    by (simp add: ref_select_def rs_def j_def Let_def)
  have dis: "distinct (map fst rs)"
  proof -
    have "mset (map fst rs) = mset (map fst (filter (\<lambda>(k, v, e). P k e) (mentries m)))"
      by (simp add: rs_def)
    then show ?thesis
      using distinct_keys_filter [OF DAList.impl_of_distinct] mset_eq_imp_distinct_iff by blast
  qed
  have mat: "matched P (mget m) = set (map fst rs)"
    by (simp add: ref_matched rs_def)
  have jl: "j \<le> length rs" unfolding j_def by (rule sql_limit_le)
  show d: "distinct (ref_select P n m)"
    unfolding sel using dis by (metis distinct_take take_map)
  have sorted: "sorted (map (\<lambda>(k, v, e). e) rs)" unfolding rs_def by simp
  have expq: "exp_of (mget m) k = e" if "(k, v, e) \<in> set rs" for k v e
  proof -
    from that have "mget m k = Some (v, e)" unfolding rs_def by (simp add: mget_entries)
    then show ?thesis by (simp add: exp_of_def)
  qed
  have "exp_of (mget m) k \<le> exp_of (mget m) k'"
    if k: "k \<in> set (map fst (take j rs))" and k': "k' \<in> set (map fst rs)" "k' \<notin> set (map fst (take j rs))" for k k'
  proof -
    from k obtain v e where ve: "(k, v, e) \<in> set (take j rs)" by auto
    from k' obtain v' e' where ve': "(k', v', e') \<in> set rs" by auto
    with k'(2) have "(k', v', e') \<in> set (drop j rs)"
      by (metis Un_iff append_take_drop_id fst_conv image_eqI list.set_map set_append)
    moreover have "sorted (map (\<lambda>(k, v, e). e) (take j rs) @ map (\<lambda>(k, v, e). e) (drop j rs))"
      using sorted by (metis append_take_drop_id map_append)
    ultimately have "e \<le> e'" using ve by (force simp: sorted_append)
    with expq [of k v e] expq [OF ve'] ve show ?thesis by (metis in_set_takeD)
  qed
  moreover have "card (set (ref_select P n m)) = sql_limit n (card (matched P (mget m)))"
    using distinct_card [OF d] distinct_card [OF dis] jl unfolding mat sel j_def by simp
  moreover have "set (ref_select P n m) \<subseteq> matched P (mget m)"
    unfolding mat sel by (auto dest: in_set_takeD)
  ultimately show "oldest_sel P n (mget m) (set (ref_select P n m))"
    unfolding oldest_sel_def mat sel by blast
qed

lemma ref_select_all: "set (ref_select P (- 1) m) = matched P (mget m)"
  by (simp add: ref_select_def sql_limit_def Let_def ref_matched)

lemma ref_remove: "ref_remove ks m = (m', n) \<Longrightarrow> removes (set ks) (mget m) (mget m') n"
proof -
  assume r: "ref_remove ks m = (m', n)"
  have "mget m' = remove_keys (set ks) (mget m)"
    using r by (auto simp: ref_remove_def fun_eq_iff mget_filter remove_keys_apply split: option.splits)
  moreover have "n = int (card (set ks \<inter> dom (mget m)))"
  proof -
    let ?f = "filter (\<lambda>kv. fst kv \<in> set ks) (mentries m)"
    have "set ks \<inter> dom (mget m) = set (map fst ?f)" unfolding dom_mget by auto
    moreover have "distinct (map fst ?f)" by (simp add: distinct_keys_filter)
    moreover have "n = int (length (map fst ?f))" using r by (simp add: ref_remove_def)
    ultimately show ?thesis using distinct_card [of "map fst ?f"] by (simp only:)
  qed
  ultimately show ?thesis by (simp add: removes_def)
qed

lemma ref_remove_select:
  "removes (matched P (mget m)) (mget m) (mget (fst (ref_remove (ref_select P (- 1) m) m)))
    (snd (ref_remove (ref_select P (- 1) m) m))"
  using ref_remove [OF surjective_pairing, of "ref_select P (- 1) m" m] by (simp add: ref_select_all)

lemma ref_remove_oldest:
  "\<exists>V. oldest_sel P n (mget m) V \<and> removes V (mget m) (mget (fst (ref_remove (ref_select P n m) m)))
    (snd (ref_remove (ref_select P n m) m))"
  using ref_remove [OF surjective_pairing, of "ref_select P n m" m] ref_select_oldest(1) by blast

lemma ref_stmt_post: "stmt_post st (mget m) (mget (fst (ref_stmt st m))) (snd (ref_stmt st m))"
  using ref_remove [OF surjective_pairing, of "[_]" m] ref_remove [OF surjective_pairing]
  by (cases st) (simp_all add: ref_remove_select ref_remove_oldest)

lemma rows_of_simps [simp]: "clean (rows_of xs)" "delivered (rows_of xs) = xs"
  by (simp_all add: rows_of_def clean_def delivered_def list_all_iff o_def)

lemma ref_probe: "list_ex (\<lambda>(k, v, e). P k e) (mentries m) \<longleftrightarrow> matched P (mget m) \<noteq> {}"
  by (force simp: ref_matched list_ex_iff)

lemma mget_map_of: "map_of (mentries m) = mget m"
  by (simp add: DAList.lookup.rep_eq)

interpretation ref: sql_engine ref_engine ref_tbl ref_pend
proof (unfold_locales, goal_cases)
  case (2 st d r d')
  then show ?case using ref_stmt_post [of st "rtab d"]
    by (auto simp: ref_engine_def ref_io_def ref_tbl_def split: list.splits bool.splits)
next
  case (19 st d rt d')
  then show ?case using ref_stmt_post [of st "rpend d"]
    by (auto simp: ref_engine_def ref_io_def ref_pend_def split: list.splits bool.splits)
qed (auto simp: ref_engine_def ref_io_def ref_tbl_def ref_pend_def mget_map_of
    card_dom_mget ref_select_oldest ref_probe split: list.splits bool.splits)

end
