(* ===== verification/Store_Types.thy ===== *)
theory Store_Types
  imports Sql_Engine
begin

text \<open>
  Package \<open>internal/store\<close>: its types and the primitive updates of the memory
  layer. A \<open>'db store\<close> holds the database handle, the memory layer
  (\<open>cache\<close>, \<open>cacheBytes\<close>, \<open>dirty\<close>), the configured \<open>memLimit\<close> and the deletes that
  \<open>getCached\<close> has started in goroutines of their own and that have not run yet.
  The mutex makes each group of map accesses one step; the model's operations
  run one after the other, and \<open>Store_Races\<close> splits them at the points where the
  code holds no lock.
\<close>

section \<open>Commit modes\<close>

text \<open>\<open>type PutMode int\<close>: the three constants and any other number.\<close>

datatype put_mode = PutSync | PutAsync | PutMemory | PutOther int

fun put_mode_string :: "put_mode \<Rightarrow> string" where
  "put_mode_string PutAsync = ''async''"
| "put_mode_string PutMemory = ''memory''"
| "put_mode_string _ = ''sync''"

definition parse_put_mode :: "string \<Rightarrow> put_mode \<times> bool" where
  "parse_put_mode v =
    (let w = to_lower v
     in if w = ''sync'' then (PutSync, True)
        else if w = ''async'' then (PutAsync, True)
        else if w = ''memory'' then (PutMemory, True)
        else (PutSync, False))"

section \<open>Entries\<close>

record entry =
  val :: bytes
  expires_at :: gotime
  volatile :: bool

definition entry_overhead :: int where
  "entry_overhead = 96"

definition entry_size :: "key \<Rightarrow> entry \<Rightarrow> int" where
  "entry_size k e = int (length k) + int (length (val e)) + entry_overhead"

lemma entry_size_pos: "0 < entry_size k e"
  by (simp add: entry_size_def entry_overhead_def)

section \<open>Errors\<close>

text \<open>One constructor per error the package builds; \<open>ErrSql\<close> is a driver error returned as it is.\<close>

datatype store_error =
    ErrEmptyPath
  | ErrOpen string sql_error
  | ErrPragma string sql_error
  | ErrMigrate sql_error
  | ErrLoad sql_error
  | ErrLoadScan sql_error
  | ErrLoadParse key string
  | ErrPut key sql_error
  | ErrUnknownMode key
  | ErrFlushBegin sql_error
  | ErrFlushItem key sql_error
  | ErrFlushCommit sql_error
  | ErrGet key sql_error
  | ErrGetParse key string
  | ErrLazyDelete key sql_error
  | ErrProbe sql_error
  | ErrSweep sql_error
  | ErrSql sql_error
  | ErrEvictArgs
  | ErrEvictVolatile sql_error
  | ErrEvictSize store_error
  | ErrEvictBatch sql_error
  | ErrPageCount sql_error
  | ErrPageSize sql_error
  | ErrCount sql_error
  | ErrVacuum sql_error
  | ErrBackupDir
  | ErrMkdir string
  | ErrBackup sql_error
  | ErrReadDir string
  | ErrRemoveBackup string string

section \<open>The store\<close>

record 'db store =
  db :: 'db
  cache :: "(key, entry) gomap"
  cache_bytes :: int
  mem_limit :: int
  dirty :: "(key, unit) gomap"
  background :: "stmt list"

definition caching :: "'db store \<Rightarrow> bool" where
  "caching s \<longleftrightarrow> 0 < mem_limit s"

text \<open>A lookup's result; \<open>Value\<close> is empty unless a live value was found.\<close>

record get_result =
  found :: bool
  expired :: bool
  result_value :: bytes

definition no_result :: get_result where
  "no_result = \<lparr>found = False, expired = False, result_value = []\<rparr>"

section \<open>The memory layer\<close>

definition cache_put :: "key \<Rightarrow> bytes \<Rightarrow> gotime \<Rightarrow> bool \<Rightarrow> 'db store \<Rightarrow> 'db store" where
  "cache_put k v t vol s =
    (let e = \<lparr>val = v, expires_at = t, volatile = vol\<rparr>;
         bytes = (case mget (cache s) k of Some old \<Rightarrow> cache_bytes s - entry_size k old | None \<Rightarrow> cache_bytes s)
     in s\<lparr>cache := mput k e (cache s), cache_bytes := bytes + entry_size k e\<rparr>)"

text \<open>\<open>s.cacheBytes -= entrySize(key, e); delete(s.cache, key)\<close>\<close>

definition cache_drop :: "key \<Rightarrow> entry \<Rightarrow> 'db store \<Rightarrow> 'db store" where
  "cache_drop k e s = s\<lparr>cache_bytes := cache_bytes s - entry_size k e, cache := mdel k (cache s)\<rparr>"

definition mark_dirty :: "key \<Rightarrow> 'db store \<Rightarrow> 'db store" where
  "mark_dirty k s = s\<lparr>dirty := mput k () (dirty s)\<rparr>"

definition clear_dirty :: "key \<Rightarrow> 'db store \<Rightarrow> 'db store" where
  "clear_dirty k s = s\<lparr>dirty := mdel k (dirty s)\<rparr>"

text \<open>\<open>takeDirty\<close> ranges over the set in the order \<open>rng\<close> and leaves it empty.\<close>

definition take_dirty :: "(key list \<Rightarrow> key list) \<Rightarrow> 'db store \<Rightarrow> key list \<times> 'db store" where
  "take_dirty rng s = (rng (mkeys (dirty s)), s\<lparr>dirty := mempty\<rparr>)"

definition dirty_count :: "'db store \<Rightarrow> int" where
  "dirty_count s = (if \<not> caching s then 0 else int (length (mkeys (dirty s))))"

definition cache_bytes_of :: "'db store \<Rightarrow> int" where
  "cache_bytes_of s = cache_bytes s"

definition clear_volatile :: "key \<Rightarrow> gotime \<Rightarrow> 'db store \<Rightarrow> 'db store" where
  "clear_volatile k t s =
    (case mget (cache s) k of
       Some cur \<Rightarrow> if volatile cur \<and> time_equal (expires_at cur) t
         then s\<lparr>cache := mput k (cur\<lparr>volatile := False\<rparr>) (cache s)\<rparr> else s
     | None \<Rightarrow> s)"

type_synonym flush_item = "key \<times> entry"

definition re_mark_dirty :: "flush_item list \<Rightarrow> 'db store \<Rightarrow> 'db store" where
  "re_mark_dirty batch s = s\<lparr>dirty := fold (\<lambda>(k, e). mput k ()) batch (dirty s)\<rparr>"

section \<open>The counter is exact\<close>

text \<open>
  The byte counter is the sum of the resident entries' sizes, and a store
  without a memory layer keeps it empty.
\<close>

definition store_wf :: "'db store \<Rightarrow> bool" where
  "store_wf s \<longleftrightarrow> cache_bytes s = msum entry_size (cache s)
     \<and> (\<not> caching s \<longrightarrow> cache s = mempty \<and> dirty s = mempty)"

lemma caching_update [simp]:
  "caching (s\<lparr>db := d\<rparr>) = caching s" "caching (s\<lparr>cache := c\<rparr>) = caching s"
  "caching (s\<lparr>cache_bytes := b\<rparr>) = caching s" "caching (s\<lparr>dirty := y\<rparr>) = caching s"
  "caching (s\<lparr>background := g\<rparr>) = caching s"
  by (simp_all add: caching_def)

lemma store_wf_db [simp]: "store_wf (s\<lparr>db := d\<rparr>) = store_wf s"
  "store_wf (s\<lparr>background := g\<rparr>) = store_wf s"
  by (simp_all add: store_wf_def)

lemma cache_put_simps [simp]:
  "db (cache_put k v t vol s) = db s" "dirty (cache_put k v t vol s) = dirty s"
  "mem_limit (cache_put k v t vol s) = mem_limit s" "caching (cache_put k v t vol s) = caching s"
  "background (cache_put k v t vol s) = background s"
  "mget (cache (cache_put k v t vol s)) = (mget (cache s))(k \<mapsto> \<lparr>val = v, expires_at = t, volatile = vol\<rparr>)"
  by (simp_all add: cache_put_def Let_def caching_def)

lemma cache_drop_simps [simp]:
  "db (cache_drop k e s) = db s" "dirty (cache_drop k e s) = dirty s"
  "mem_limit (cache_drop k e s) = mem_limit s" "caching (cache_drop k e s) = caching s"
  "background (cache_drop k e s) = background s"
  "cache (cache_drop k e s) = mdel k (cache s)"
  by (simp_all add: cache_drop_def caching_def)

lemma dirty_ops_simps [simp]:
  "db (mark_dirty k s) = db s" "cache (mark_dirty k s) = cache s" "cache_bytes (mark_dirty k s) = cache_bytes s"
  "mem_limit (mark_dirty k s) = mem_limit s" "caching (mark_dirty k s) = caching s"
  "background (mark_dirty k s) = background s" "dirty (mark_dirty k s) = mput k () (dirty s)"
  "db (clear_dirty k s) = db s" "cache (clear_dirty k s) = cache s" "cache_bytes (clear_dirty k s) = cache_bytes s"
  "mem_limit (clear_dirty k s) = mem_limit s" "caching (clear_dirty k s) = caching s"
  "background (clear_dirty k s) = background s" "dirty (clear_dirty k s) = mdel k (dirty s)"
  by (simp_all add: mark_dirty_def clear_dirty_def caching_def)

lemma re_mark_dirty_simps [simp]:
  "db (re_mark_dirty b s) = db s" "cache (re_mark_dirty b s) = cache s"
  "cache_bytes (re_mark_dirty b s) = cache_bytes s" "mem_limit (re_mark_dirty b s) = mem_limit s"
  "caching (re_mark_dirty b s) = caching s" "background (re_mark_dirty b s) = background s"
  by (simp_all add: re_mark_dirty_def caching_def)

lemma dom_fold_mput: "dom (mget (fold (\<lambda>(k, e). mput k ()) batch m)) = dom (mget m) \<union> fst ` set batch"
  by (induction batch arbitrary: m) auto

lemma dom_re_mark_dirty: "dom (mget (dirty (re_mark_dirty b s))) = dom (mget (dirty s)) \<union> fst ` set b"
  by (simp add: re_mark_dirty_def dom_fold_mput)

lemma clear_volatile_simps [simp]:
  "db (clear_volatile k t s) = db s" "dirty (clear_volatile k t s) = dirty s"
  "cache_bytes (clear_volatile k t s) = cache_bytes s" "mem_limit (clear_volatile k t s) = mem_limit s"
  "caching (clear_volatile k t s) = caching s" "background (clear_volatile k t s) = background s"
  by (simp_all add: clear_volatile_def caching_def split: option.splits)

lemma mget_clear_volatile:
  "mget (cache (clear_volatile k t s)) = (mget (cache s))(k := map_option
     (\<lambda>cur. if volatile cur \<and> time_equal (expires_at cur) t then cur\<lparr>volatile := False\<rparr> else cur) (mget (cache s) k))"
  by (auto simp: clear_volatile_def fun_eq_iff split: option.splits)

lemma entry_size_volatile [simp]: "entry_size k (e\<lparr>volatile := b\<rparr>) = entry_size k e"
  by (simp add: entry_size_def)

lemma cache_put_wf [kvp_inv]: "store_wf s \<Longrightarrow> caching s \<Longrightarrow> store_wf (cache_put k v t vol s)"
  by (auto simp: store_wf_def cache_put_def Let_def msum_update split: option.splits)

lemma cache_drop_wf [kvp_inv]:
  "store_wf s \<Longrightarrow> mget (cache s) k = Some e \<Longrightarrow> store_wf (cache_drop k e s)"
  by (auto simp: store_wf_def cache_drop_def msum_delete)

lemma dirty_ops_wf [kvp_inv]:
  "store_wf s \<Longrightarrow> caching s \<Longrightarrow> store_wf (mark_dirty k s)"
  "store_wf s \<Longrightarrow> caching s \<Longrightarrow> store_wf (clear_dirty k s)"
  "store_wf s \<Longrightarrow> caching s \<Longrightarrow> store_wf (re_mark_dirty b s)"
  "store_wf s \<Longrightarrow> store_wf (s\<lparr>dirty := mempty\<rparr>)"
  by (simp_all add: store_wf_def)

lemma clear_volatile_wf [kvp_inv]: "store_wf s \<Longrightarrow> store_wf (clear_volatile k t s)"
  by (auto simp: store_wf_def clear_volatile_def msum_update split: option.splits)

lemma dirty_count_dom: "caching s \<Longrightarrow> dirty_count s = int (card (dom (mget (dirty s))))"
  by (simp add: dirty_count_def card_dom_mget)

text \<open>The fields no removal touches: configuration, dirty set, background deletes.\<close>

definition same_shell :: "'db store \<Rightarrow> 'db store \<Rightarrow> bool" where
  "same_shell s s' \<longleftrightarrow> mem_limit s' = mem_limit s \<and> dirty s' = dirty s \<and> background s' = background s"

lemma same_shell_intros [intro, simp]:
  "same_shell s s" "same_shell s (s\<lparr>db := d\<rparr>)" "same_shell s (cache_drop k e s)"
  "same_shell s (cache_drop k e (s\<lparr>db := d\<rparr>))" "same_shell s (clear_volatile k t s)"
  by (simp_all add: same_shell_def)

lemma same_shell_trans: "same_shell s t \<Longrightarrow> same_shell t u \<Longrightarrow> same_shell s u"
  by (simp add: same_shell_def)

lemma same_shell_db [simp]: "same_shell (s\<lparr>db := d\<rparr>) t = same_shell s t" "same_shell s (t\<lparr>db := d\<rparr>) = same_shell s t"
  by (simp_all add: same_shell_def)

lemma same_shell_caching: "same_shell s s' \<Longrightarrow> caching s' = caching s"
  by (simp add: same_shell_def caching_def)

lemma store_wf_cong:
  "same_shell s s' \<Longrightarrow> cache s' = cache s \<Longrightarrow> cache_bytes s' = cache_bytes s \<Longrightarrow> store_wf s' = store_wf s"
  by (simp add: store_wf_def same_shell_def caching_def)

lemma same_shellD: "same_shell s s' \<Longrightarrow> mem_limit s' = mem_limit s"
  "same_shell s s' \<Longrightarrow> dirty s' = dirty s" "same_shell s s' \<Longrightarrow> background s' = background s"
  by (simp_all add: same_shell_def)

text \<open>Entries were only dropped from the memory layer.\<close>

definition cache_shrinks :: "'db store \<Rightarrow> 'db store \<Rightarrow> bool" where
  "cache_shrinks s s' \<longleftrightarrow> mget (cache s') \<subseteq>\<^sub>m mget (cache s)"

lemma cache_shrinks_eq: "cache s' = cache s \<Longrightarrow> cache_shrinks s s'"
  by (simp add: cache_shrinks_def)

lemma cache_shrinks_intros [intro, simp]:
  "cache_shrinks s s" "cache_shrinks s (s\<lparr>db := d\<rparr>)" "cache_shrinks s (cache_drop k e s)"
  "cache_shrinks s (cache_drop k e (s\<lparr>db := d\<rparr>))"
  by (auto simp: cache_shrinks_def map_le_def)

lemma cache_shrinks_trans: "cache_shrinks s t \<Longrightarrow> cache_shrinks t u \<Longrightarrow> cache_shrinks s u"
  unfolding cache_shrinks_def by (rule map_le_trans)

lemma cache_shrinks_db [simp]: "cache_shrinks (s\<lparr>db := d\<rparr>) t = cache_shrinks s t"
  by (simp add: cache_shrinks_def)

section \<open>Properties\<close>

text \<open>Names of commit modes round-trip: the parser accepts exactly the three names, in any
  letter case, and returns the mode of that name; everything else is rejected as sync.\<close>

theorem put_mode_roundtrip:
  "parse_put_mode v = (if to_lower v \<in> put_mode_string ` {PutSync, PutAsync, PutMemory}
     then (THE m. m \<in> {PutSync, PutAsync, PutMemory} \<and> put_mode_string m = to_lower v, True)
     else (PutSync, False))"
proof -
  have "put_mode_string m \<noteq> put_mode_string m'" if "m \<in> {PutSync, PutAsync, PutMemory}"
    "m' \<in> {PutSync, PutAsync, PutMemory}" "m \<noteq> m'" for m m'
    using that by auto
  then have the: "(THE m. m \<in> {PutSync, PutAsync, PutMemory} \<and> put_mode_string m = put_mode_string m') = m'"
    if "m' \<in> {PutSync, PutAsync, PutMemory}" for m'
    using that by (intro the_equality) blast+
  show ?thesis
    using the [of PutSync] the [of PutAsync] the [of PutMemory] by (auto simp: parse_put_mode_def Let_def)
qed

end
