(* ===== verification/Store_Core.thy ===== *)
theory Store_Core
  imports Store_Types
begin

text \<open>
  \<open>Open\<close>, \<open>PutWithMode\<close>, \<open>Get\<close> and the small readers of \<open>store.go\<close>, and what
  each does on every branch. \<open>E\<close> is the engine, \<open>z\<close> the zone rules of the
  process, \<open>now\<close> the clock reading of the call.
\<close>

section \<open>Opening\<close>

fun load_rows :: "gotime \<Rightarrow> (sql_error + row) list \<Rightarrow> 'db store \<Rightarrow> (store_error, 'db store) res" where
  "load_rows now [] s = Inr s"
| "load_rows now (Inl x # rs) s = Inl (ErrLoadScan x)"
| "load_rows now (Inr (k, v, es) # rs) s =
     (case parse_rfc3339 es of
        None \<Rightarrow> Inl (ErrLoadParse k es)
      | Some t \<Rightarrow>
          if after now t then load_rows now rs s
          else let e = \<lparr>val = v, expires_at = t, volatile = False\<rparr>
               in load_rows now rs (s\<lparr>cache := mput k e (cache s), cache_bytes := cache_bytes s + entry_size k e\<rparr>))"

definition load_cache :: "'db sqlite \<Rightarrow> gotime \<Rightarrow> 'db store \<Rightarrow> (store_error, 'db store) res" where
  "load_cache E now s =
    (case sq_select_all E (db s) of
       (Inl x, d) \<Rightarrow> Inl (ErrLoad x)
     | (Inr r, d) \<Rightarrow>
         (case load_rows now (items r) (s\<lparr>db := d\<rparr>) of
            Inl e \<Rightarrow> Inl e
          | Inr s' \<Rightarrow> (case iter_err r of Some x \<Rightarrow> Inl (ErrLoad x) | None \<Rightarrow> Inr s')))"

definition pragmas :: "string list" where
  "pragmas = [''PRAGMA journal_mode=WAL'', ''PRAGMA synchronous=NORMAL'',
     ''PRAGMA auto_vacuum=INCREMENTAL'', ''PRAGMA busy_timeout=5000'']"

fun run_pragmas :: "'db sqlite \<Rightarrow> string list \<Rightarrow> 'db store \<Rightarrow> store_error option \<times> 'db store" where
  "run_pragmas E [] s = (None, s)"
| "run_pragmas E (p # ps) s =
     (case sq_exec E (Pragma p) (db s) of
        (Inl x, d) \<Rightarrow> (Some (ErrPragma p x), s\<lparr>db := d\<rparr>)
      | (Inr _, d) \<Rightarrow> run_pragmas E ps (s\<lparr>db := d\<rparr>))"

definition migrate :: "'db sqlite \<Rightarrow> 'db store \<Rightarrow> store_error option \<times> 'db store" where
  "migrate E s =
    (case run_pragmas E pragmas s of
       (Some e, s) \<Rightarrow> (Some e, s)
     | (None, s) \<Rightarrow>
         (case sq_exec E CreateSchema (db s) of
            (Inl x, d) \<Rightarrow> (Some (ErrMigrate x), s\<lparr>db := d\<rparr>)
          | (Inr _, d) \<Rightarrow> (None, s\<lparr>db := d\<rparr>)))"

text \<open>
  \<open>opened\<close> is the result of \<open>sql.Open\<close> on the path: the handle, or an error. The
  failing branches close the handle and return no store.
\<close>

definition open_store :: "'db sqlite \<Rightarrow> (sql_error, 'db) res \<Rightarrow> gotime \<Rightarrow> string \<Rightarrow> int \<Rightarrow> (store_error, 'db store) res" where
  "open_store E opened now path limit =
    (if path = [] then Inl ErrEmptyPath
     else case opened of
       Inl x \<Rightarrow> Inl (ErrOpen path x)
     | Inr d \<Rightarrow>
         (let s = \<lparr>db = d, cache = mempty, cache_bytes = 0, mem_limit = limit, dirty = mempty, background = []\<rparr>
          in case migrate E s of
               (Some e, s) \<Rightarrow> Inl e
             | (None, s) \<Rightarrow> if 0 < limit then load_cache E now s else Inr s))"

section \<open>Writing\<close>

definition put_with_mode :: "'db sqlite \<Rightarrow> zone \<Rightarrow> gotime \<Rightarrow> key \<Rightarrow> bytes \<Rightarrow> duration \<Rightarrow> put_mode
    \<Rightarrow> 'db store \<Rightarrow> store_error option \<times> 'db store" where
  "put_with_mode E z now k v ttl mode s =
    (let mode = (if mode \<noteq> PutSync \<and> \<not> caching s then PutSync else mode);
         t = time_add z now ttl
     in case mode of
          PutSync \<Rightarrow>
            (case sq_exec E (Upsert k v (rfc3339 t)) (db s) of
               (Inl x, d) \<Rightarrow> (Some (ErrPut k x), s\<lparr>db := d\<rparr>)
             | (Inr _, d) \<Rightarrow>
                 (let s = s\<lparr>db := d\<rparr>
                  in (None, if caching s then clear_dirty k (cache_put k v t False s) else s)))
        | PutAsync \<Rightarrow> (None, mark_dirty k (cache_put k v t True s))
        | PutMemory \<Rightarrow> (None, clear_dirty k (cache_put k v t True s))
        | PutOther _ \<Rightarrow> (Some (ErrUnknownMode k), s))"

definition put :: "'db sqlite \<Rightarrow> zone \<Rightarrow> gotime \<Rightarrow> key \<Rightarrow> bytes \<Rightarrow> duration
    \<Rightarrow> 'db store \<Rightarrow> store_error option \<times> 'db store" where
  "put E z now k v ttl s = put_with_mode E z now k v ttl PutSync s"

section \<open>Reading\<close>

definition get_cached :: "gotime \<Rightarrow> key \<Rightarrow> 'db store \<Rightarrow> (get_result \<times> store_error option) \<times> 'db store" where
  "get_cached now k s =
    (case mget (cache s) k of
       None \<Rightarrow> ((no_result, None), s)
     | Some e \<Rightarrow>
         if \<not> after now (expires_at e) then
           ((no_result\<lparr>found := True, result_value := val e\<rparr>, None), s)
         else
           (let s = (case mget (cache s) k of
                       Some cur \<Rightarrow> if time_equal (expires_at cur) (expires_at e) then cache_drop k cur s else s
                     | None \<Rightarrow> s);
                s = s\<lparr>background := background s @ [DeleteKeyAt k (rfc3339 (expires_at e))]\<rparr>
            in ((no_result\<lparr>found := True, expired := True\<rparr>, None), s)))"

text \<open>\<open>Scan\<close> fills \<open>res.Value\<close> before the expiry is looked at, so an expired row's value is in the result.\<close>

definition get_db :: "'db sqlite \<Rightarrow> gotime \<Rightarrow> key \<Rightarrow> 'db store \<Rightarrow> (get_result \<times> store_error option) \<times> 'db store" where
  "get_db E now k s =
    (case sq_select_key E k (db s) of
       (Inl x, d) \<Rightarrow> ((no_result, Some (ErrGet k x)), s\<lparr>db := d\<rparr>)
     | (Inr None, d) \<Rightarrow> ((no_result, None), s\<lparr>db := d\<rparr>)
     | (Inr (Some (v, es)), d) \<Rightarrow>
         (let s = s\<lparr>db := d\<rparr>; r = no_result\<lparr>result_value := v\<rparr>
          in case parse_rfc3339 es of
               None \<Rightarrow> ((r, Some (ErrGetParse k es)), s)
             | Some t \<Rightarrow>
                 (let r = r\<lparr>found := True\<rparr>
                  in if after now t then
                       (let r = r\<lparr>expired := True\<rparr>
                        in case sq_exec E (DeleteKey k) (db s) of
                             (Inl x, d) \<Rightarrow> ((r, Some (ErrLazyDelete k x)), s\<lparr>db := d\<rparr>)
                           | (Inr _, d) \<Rightarrow> ((r, None), s\<lparr>db := d\<rparr>))
                     else ((r, None), s))))"

definition get :: "'db sqlite \<Rightarrow> gotime \<Rightarrow> key \<Rightarrow> 'db store \<Rightarrow> (get_result \<times> store_error option) \<times> 'db store" where
  "get E now k s = (if caching s then get_cached now k s else get_db E now k s)"

text \<open>One of the deletes \<open>getCached\<close> left to a goroutine; its error is dropped.\<close>

definition run_background :: "'db sqlite \<Rightarrow> 'db store \<Rightarrow> 'db store" where
  "run_background E s =
    (case background s of [] \<Rightarrow> s
     | st # sts \<Rightarrow> s\<lparr>db := snd (sq_exec E st (db s)), background := sts\<rparr>)"

section \<open>Sizes\<close>

definition store_size :: "'db sqlite \<Rightarrow> 'db store \<Rightarrow> (store_error, int) res \<times> 'db store" where
  "store_size E s =
    (case sq_page_count E (db s) of
       (Inl x, d) \<Rightarrow> (Inl (ErrPageCount x), s\<lparr>db := d\<rparr>)
     | (Inr pages, d) \<Rightarrow>
         (case sq_page_size E d of
            (Inl x, d) \<Rightarrow> (Inl (ErrPageSize x), s\<lparr>db := d\<rparr>)
          | (Inr sz, d) \<Rightarrow> (Inr (pages * sz), s\<lparr>db := d\<rparr>)))"

definition usage :: "'db sqlite \<Rightarrow> 'db store \<Rightarrow> (store_error, int) res \<times> 'db store" where
  "usage E s = (if caching s then (Inr (cache_bytes_of s), s) else store_size E s)"

definition row_count :: "'db sqlite \<Rightarrow> 'db store \<Rightarrow> (store_error, int) res \<times> 'db store" where
  "row_count E s =
    (case sq_count E (db s) of
       (Inl x, d) \<Rightarrow> (Inl (ErrCount x), s\<lparr>db := d\<rparr>)
     | (Inr n, d) \<Rightarrow> (Inr n, s\<lparr>db := d\<rparr>))"

definition ping :: "'db sqlite \<Rightarrow> 'db store \<Rightarrow> (sql_error, unit) res \<times> 'db store" where
  "ping E s = (case sq_ping E (db s) of (r, d) \<Rightarrow> (r, s\<lparr>db := d\<rparr>))"

definition close_store :: "'db sqlite \<Rightarrow> 'db store \<Rightarrow> (sql_error, unit) res \<times> 'db store" where
  "close_store E s = (case sq_close E (db s) of (r, d) \<Rightarrow> (r, s\<lparr>db := d\<rparr>))"

section \<open>The counter stays exact\<close>

lemma caching_not_limit: "caching s \<longleftrightarrow> 0 < mem_limit s"
  by (simp add: caching_def)

lemma put_wf [kvp_inv]: "store_wf s \<Longrightarrow> store_wf (snd (put_with_mode E z now k v ttl mode s))"
  by (auto simp: put_with_mode_def Let_def split: put_mode.splits prod.splits sum.splits
      intro!: kvp_inv)

lemma get_wf [kvp_inv]: "store_wf s \<Longrightarrow> store_wf (snd (get E now k s))"
  by (auto simp: get_def get_cached_def get_db_def Let_def time_equal_def
      split: option.splits prod.splits sum.splits intro: kvp_inv)

lemma run_background_wf [kvp_inv]: "store_wf s \<Longrightarrow> store_wf (run_background E s)"
  by (simp add: run_background_def store_wf_def caching_def split: list.splits)

lemma usage_wf [kvp_inv]: "store_wf s \<Longrightarrow> store_wf (snd (usage E s))"
  by (auto simp: usage_def store_size_def split: prod.splits sum.splits)

lemma row_count_wf [kvp_inv]: "store_wf s \<Longrightarrow> store_wf (snd (row_count E s))"
  by (auto simp: row_count_def split: prod.splits sum.splits)

section \<open>A sample store\<close>

text \<open>An empty store over the reference engine with a schedule of failures, for concrete runs.\<close>

definition sample_store :: "int \<Rightarrow> bool list \<Rightarrow> ref_db store" where
  "sample_store limit fs = \<lparr>db = ref_start fs, cache = mempty, cache_bytes = 0, mem_limit = limit,
     dirty = mempty, background = []\<rparr>"

lemma sample_store_simps [simp]: "caching (sample_store limit fs) \<longleftrightarrow> 0 < limit"
  "store_wf (sample_store limit fs)" "background (sample_store limit fs) = []"
  "ref_tbl (db (sample_store limit fs)) = (\<lambda>_. None)" "dirty (sample_store limit fs) = mempty"
  "cache (sample_store limit fs) = mempty"
  by (simp_all add: sample_store_def caching_def store_wf_def ref_start_def ref_tbl_def)

end
