(* ===== verification/Store_Flush.thy ===== *)
theory Store_Flush
  imports Store_Core
begin

text \<open>
  \<open>Flush\<close>: the write-behind of asynchronous writes. The dirty set is taken (and
  emptied), the live keys' entries are read from memory, and chunks of at most
  \<open>flushBatchSize\<close> entries are upserted, one transaction per chunk. A failing
  chunk is marked dirty again and ends the run.
\<close>

definition flush_batch_size :: nat where
  "flush_batch_size = 500"

text \<open>The inner loop over a chunk, in the open transaction.\<close>

fun flush_items :: "'db sqlite \<Rightarrow> flush_item list \<Rightarrow> 'db \<Rightarrow> store_error option \<times> 'db" where
  "flush_items E [] d = (None, d)"
| "flush_items E ((k, e) # its) d =
     (case sq_tx_exec E (Upsert k (val e) (rfc3339 (expires_at e))) d of
        (Inl x, d) \<Rightarrow> (Some (ErrFlushItem k x), sq_rollback E d)
      | (Inr _, d) \<Rightarrow> flush_items E its d)"

text \<open>One transaction: begin, the items, commit.\<close>

definition flush_chunk :: "'db sqlite \<Rightarrow> flush_item list \<Rightarrow> 'db store \<Rightarrow> store_error option \<times> 'db store" where
  "flush_chunk E chunk s =
    (case sq_begin E (db s) of
       (Inl x, d) \<Rightarrow> (Some (ErrFlushBegin x), re_mark_dirty chunk (s\<lparr>db := d\<rparr>))
     | (Inr _, d) \<Rightarrow>
         (case flush_items E chunk d of
            (Some e, d) \<Rightarrow> (Some e, re_mark_dirty chunk (s\<lparr>db := d\<rparr>))
          | (None, d) \<Rightarrow>
              (case sq_commit E d of
                 (Inl x, d) \<Rightarrow> (Some (ErrFlushCommit x), re_mark_dirty chunk (s\<lparr>db := d\<rparr>))
               | (Inr _, d) \<Rightarrow> (None, fold (\<lambda>(k, e). clear_volatile k (expires_at e)) chunk (s\<lparr>db := d\<rparr>)))))"

fun flush_chunks :: "'db sqlite \<Rightarrow> flush_item list list \<Rightarrow> int \<Rightarrow> 'db store
    \<Rightarrow> (int \<times> store_error option) \<times> 'db store" where
  "flush_chunks E [] persisted s = ((persisted, None), s)"
| "flush_chunks E (chunk # cs) persisted s =
     (case flush_chunk E chunk s of
        (Some e, s) \<Rightarrow> ((persisted, Some e), s)
      | (None, s) \<Rightarrow> flush_chunks E cs (persisted + int (length chunk)) s)"

definition flush_batch :: "key list \<Rightarrow> 'db store \<Rightarrow> flush_item list" where
  "flush_batch keys s = List.map_filter (\<lambda>k. map_option (Pair k) (mget (cache s) k)) keys"

definition flush :: "'db sqlite \<Rightarrow> (key list \<Rightarrow> key list) \<Rightarrow> 'db store \<Rightarrow> (int \<times> store_error option) \<times> 'db store" where
  "flush E rng s =
    (if \<not> caching s then ((0, None), s)
     else case take_dirty rng s of
       (keys, s) \<Rightarrow>
         if keys = [] then ((0, None), s)
         else flush_chunks E (chunks flush_batch_size (flush_batch keys s)) 0 s)"

section \<open>Shape\<close>

lemma flush_batch_Nil [simp]: "flush_batch [] s = []"
  by (simp add: flush_batch_def map_filter_simps)

lemma flush_batch_Cons: "flush_batch (k # ks) s = (case mget (cache s) k of None \<Rightarrow> flush_batch ks s
    | Some e \<Rightarrow> (k, e) # flush_batch ks s)"
  by (simp add: flush_batch_def map_filter_simps split: option.splits)

lemma set_flush_batch: "(k, e) \<in> set (flush_batch keys s) \<longleftrightarrow> k \<in> set keys \<and> mget (cache s) k = Some e"
  by (induction keys) (auto simp: flush_batch_Cons split: option.splits)

lemma keys_flush_batch: "fst ` set (flush_batch keys s) = set keys \<inter> dom (mget (cache s))"
proof (rule set_eqI)
  fix k
  have "k \<in> fst ` set (flush_batch keys s) \<longleftrightarrow> (\<exists>e. (k, e) \<in> set (flush_batch keys s))" by force
  then show "k \<in> fst ` set (flush_batch keys s) \<longleftrightarrow> k \<in> set keys \<inter> dom (mget (cache s))"
    by (auto simp: set_flush_batch)
qed

lemma distinct_flush_batch: "distinct keys \<Longrightarrow> distinct (map fst (flush_batch keys s))"
proof (induction keys)
  case (Cons k ks)
  moreover have "fst ` set (flush_batch ks s) \<subseteq> set ks" by (simp add: keys_flush_batch)
  ultimately show ?case by (auto simp: flush_batch_Cons split: option.splits)
qed simp

lemma fold_clear_volatile_simps [simp]:
  "db (fold (\<lambda>(k, e). clear_volatile k (expires_at e)) b s) = db s"
  "dirty (fold (\<lambda>(k, e). clear_volatile k (expires_at e)) b s) = dirty s"
  "cache_bytes (fold (\<lambda>(k, e). clear_volatile k (expires_at e)) b s) = cache_bytes s"
  "mem_limit (fold (\<lambda>(k, e). clear_volatile k (expires_at e)) b s) = mem_limit s"
  "caching (fold (\<lambda>(k, e). clear_volatile k (expires_at e)) b s) = caching s"
  "background (fold (\<lambda>(k, e). clear_volatile k (expires_at e)) b s) = background s"
  by (induction b arbitrary: s) (auto split: prod.splits)

text \<open>Entries keep their value and expiry through a flush; only \<open>volatile\<close> may fall.\<close>

definition entry_settles :: "entry \<Rightarrow> entry \<Rightarrow> bool" where
  "entry_settles e e' \<longleftrightarrow> e' = e \<or> e' = e\<lparr>volatile := False\<rparr>"

definition cache_settles :: "'db store \<Rightarrow> 'db store \<Rightarrow> bool" where
  "cache_settles s s' \<longleftrightarrow> (\<forall>k. rel_option entry_settles (mget (cache s) k) (mget (cache s') k))"

lemma entry_settles_refl [simp]: "entry_settles e e"
  by (simp add: entry_settles_def)

lemma entry_settles_trans: "entry_settles e f \<Longrightarrow> entry_settles f g \<Longrightarrow> entry_settles e g"
  by (auto simp: entry_settles_def)

lemma cache_settles_refl [simp]: "cache_settles s s"
  by (simp add: cache_settles_def option.rel_refl)

lemma cache_settles_eq: "cache s = cache t \<Longrightarrow> cache_settles s t"
  by (simp add: cache_settles_def option.rel_refl)

lemma cache_settles_cong: "cache s = cache t \<Longrightarrow> cache_settles t u \<Longrightarrow> cache_settles s u"
  by (simp add: cache_settles_def)

lemma cache_settles_trans:
  assumes "cache_settles s t" "cache_settles t u"
  shows "cache_settles s u"
  unfolding cache_settles_def
proof
  fix k
  have "rel_option entry_settles (mget (cache s) k) (mget (cache t) k)"
    "rel_option entry_settles (mget (cache t) k) (mget (cache u) k)"
    using assms by (auto simp: cache_settles_def)
  then show "rel_option entry_settles (mget (cache s) k) (mget (cache u) k)"
    by (auto simp: option_rel_Some1 option_rel_Some2 intro: entry_settles_trans elim!: option.rel_cases)
qed

lemma clear_volatile_settles: "cache_settles s (clear_volatile k t s)"
  by (auto simp: cache_settles_def mget_clear_volatile option.rel_refl entry_settles_def option.rel_map
      intro!: option.rel_refl split: option.splits)

lemma fold_clear_volatile_settles:
  "cache_settles s (fold (\<lambda>(k, e). clear_volatile k (expires_at e)) b s)"
proof (induction b arbitrary: s)
  case (Cons it b)
  obtain k e where it: "it = (k, e)" by (cases it)
  show ?case
    using cache_settles_trans [OF clear_volatile_settles Cons.IH] by (simp add: it)
qed simp

text \<open>After its chunk is committed an entry that was not overwritten is durable.\<close>

lemma fold_clear_volatile_get:
  "distinct (map fst b) \<Longrightarrow>
   mget (cache (fold (\<lambda>(k, e). clear_volatile k (expires_at e)) b s)) k =
     (case map_of b k of None \<Rightarrow> mget (cache s) k
      | Some e \<Rightarrow> map_option (\<lambda>cur. if volatile cur \<and> time_equal (expires_at cur) (expires_at e)
          then cur\<lparr>volatile := False\<rparr> else cur) (mget (cache s) k))"
proof (induction b arbitrary: s)
  case (Cons it b)
  obtain k' e' where it: "it = (k', e')" by (cases it)
  from Cons have IH: "mget (cache (fold (\<lambda>(k, e). clear_volatile k (expires_at e)) b (clear_volatile k' (expires_at e') s))) k =
     (case map_of b k of None \<Rightarrow> mget (cache (clear_volatile k' (expires_at e') s)) k
      | Some e \<Rightarrow> map_option (\<lambda>cur. if volatile cur \<and> time_equal (expires_at cur) (expires_at e)
          then cur\<lparr>volatile := False\<rparr> else cur) (mget (cache (clear_volatile k' (expires_at e') s)) k))"
    by simp
  moreover have "map_of b k' = None" using Cons.prems by (simp add: it map_of_eq_None_iff)
  ultimately show ?case by (auto simp: it mget_clear_volatile split: option.splits)
qed simp

lemma flush_chunk_frame [simp]:
  "caching (snd (flush_chunk E chunk s)) = caching s"
  "mem_limit (snd (flush_chunk E chunk s)) = mem_limit s"
  "background (snd (flush_chunk E chunk s)) = background s"
  "cache_bytes (snd (flush_chunk E chunk s)) = cache_bytes s"
  by (simp_all add: flush_chunk_def split: prod.splits sum.splits option.splits)

lemma flush_chunk_settles: "cache_settles s (snd (flush_chunk E chunk s))"
  by (auto simp: flush_chunk_def split: prod.splits sum.splits option.splits
      intro: cache_settles_eq cache_settles_cong [OF _ fold_clear_volatile_settles])

lemma flush_chunk_frameD:
  assumes "flush_chunk E c s = (r, s')"
  shows "caching s' = caching s" "mem_limit s' = mem_limit s" "background s' = background s"
    "cache_bytes s' = cache_bytes s"
  using flush_chunk_frame [of E c s, unfolded assms] by (simp_all only: snd_conv)

lemma flush_chunks_frame [simp]:
  "caching (snd (flush_chunks E cs n s)) = caching s
    \<and> mem_limit (snd (flush_chunks E cs n s)) = mem_limit s
    \<and> background (snd (flush_chunks E cs n s)) = background s
    \<and> cache_bytes (snd (flush_chunks E cs n s)) = cache_bytes s"
  by (induction cs arbitrary: n s) (auto simp: flush_chunk_frameD split: prod.splits option.splits)

lemma flush_chunks_frameD:
  assumes "flush_chunks E cs n s = (r, s')"
  shows "caching s' = caching s" "mem_limit s' = mem_limit s" "background s' = background s"
    "cache_bytes s' = cache_bytes s"
  using flush_chunks_frame [of E cs n s, unfolded assms] by (simp_all only: snd_conv)

lemma flush_chunks_settles: "cache_settles s (snd (flush_chunks E cs n s))"
proof (induction cs arbitrary: n s)
  case (Cons c cs)
  show ?case
    using flush_chunk_settles [of s E c] Cons
    by (auto split: prod.splits option.splits intro: cache_settles_trans)
qed simp

lemma fold_clear_volatile_wf:
  "store_wf s \<Longrightarrow> store_wf (fold (\<lambda>(k, e). clear_volatile k (expires_at e)) b s)"
  by (induction b arbitrary: s) (auto intro: kvp_inv)

lemma flush_chunk_wf [kvp_inv]: "store_wf s \<Longrightarrow> caching s \<Longrightarrow> store_wf (snd (flush_chunk E c s))"
  by (auto simp: flush_chunk_def split: prod.splits sum.splits option.splits
      intro!: dirty_ops_wf fold_clear_volatile_wf)

lemma flush_chunks_wf [kvp_inv]: "store_wf s \<Longrightarrow> caching s \<Longrightarrow> store_wf (snd (flush_chunks E cs n s))"
proof (induction cs arbitrary: n s)
  case (Cons c cs)
  then show ?case
    using flush_chunk_wf [of s E c] by (auto simp: flush_chunk_frameD split: prod.splits option.splits)
qed simp

lemma flush_wf [kvp_inv]: "store_wf s \<Longrightarrow> store_wf (snd (flush E rng s))"
  by (auto simp: flush_def take_dirty_def intro: kvp_inv)

lemma flush_settles: "cache_settles s (snd (flush E rng s))"
  by (auto simp: flush_def take_dirty_def intro: cache_settles_eq cache_settles_cong [OF _ flush_chunks_settles])

section \<open>What a flush does to the database\<close>

text \<open>The rows a list of items writes.\<close>

definition item_row :: "entry \<Rightarrow> bytes \<times> string" where
  "item_row e = (val e, rfc3339 (expires_at e))"

definition write_items :: "flush_item list \<Rightarrow> table \<Rightarrow> table" where
  "write_items its t = fold (\<lambda>(k, e) t. t(k \<mapsto> item_row e)) its t"

lemma write_items_simps [simp]: "write_items [] t = t"
  "write_items ((k, e) # its) t = write_items its (t(k \<mapsto> item_row e))"
  "write_items (its @ its') t = write_items its' (write_items its t)"
  by (simp_all add: write_items_def)

lemma write_items_apply:
  "distinct (map fst its) \<Longrightarrow>
    write_items its t k = (case map_of its k of None \<Rightarrow> t k | Some e \<Rightarrow> Some (item_row e))"
  by (induction its arbitrary: t) (auto split: option.splits simp: map_of_eq_None_iff [symmetric])

lemma write_items_other: "k \<notin> fst ` set its \<Longrightarrow> write_items its t k = t k"
  by (induction its arbitrary: t) auto

context sql_engine
begin

lemma flush_items_tbl: "tbl (snd (flush_items E its d)) = tbl d"
proof (induction its arbitrary: d)
  case (Cons it its)
  obtain k e where it: "it = (k, e)" by (cases it)
  obtain r d1 where r: "sq_tx_exec E (Upsert k (val e) (rfc3339 (expires_at e))) d = (r, d1)"
    by (cases "sq_tx_exec E (Upsert k (val e) (rfc3339 (expires_at e))) d")
  have "tbl d1 = tbl d"
    using tx_pure [of "Upsert k (val e) (rfc3339 (expires_at e))" d] r by simp
  with Cons show ?case by (auto simp: it r rollback_pure split: sum.splits)
qed simp

lemma flush_items_pend: "flush_items E its d = (None, d') \<Longrightarrow> pend d' = write_items its (pend d)"
proof (induction its arbitrary: d)
  case (Cons it its)
  obtain k e where it: "it = (k, e)" by (cases it)
  obtain r d1 where r: "sq_tx_exec E (Upsert k (val e) (rfc3339 (expires_at e))) d = (Inr r, d1)"
    and rest: "flush_items E its d1 = (None, d')"
    using Cons.prems by (auto simp: it split: prod.splits sum.splits)
  have "pend d1 = (pend d)(k \<mapsto> item_row e)"
    using tx_ok [OF r] by (simp add: item_row_def)
  with Cons.IH [OF rest] show ?case by (simp only: it write_items_simps)
qed simp

text \<open>A chunk is written whole, or its transaction leaves the table as it was.\<close>

lemma flush_chunk_tbl:
  assumes "flush_chunk E chunk s = (r, s')"
  shows "tbl (db s') = (if r = None then write_items chunk (tbl (db s)) else tbl (db s))"
proof (cases "sq_begin E (db s)")
  case (Pair rb d1)
  have t1: "tbl d1 = tbl (db s)" using begin_pure [of "db s"] Pair by simp
  show ?thesis
  proof (cases rb)
    case (Inl x)
    with assms Pair t1 show ?thesis by (auto simp: flush_chunk_def)
  next
    case (Inr u)
    with Pair have p1: "pend d1 = tbl (db s)" using begin_ok [of "db s" d1] by simp
    obtain ri d2 where items: "flush_items E chunk d1 = (ri, d2)" by (cases "flush_items E chunk d1")
    have t2: "tbl d2 = tbl (db s)" using flush_items_tbl [of chunk d1] items t1 by simp
    show ?thesis
    proof (cases ri)
      case None
      with items p1 have p2: "pend d2 = write_items chunk (tbl (db s))"
        using flush_items_pend by auto
      obtain rc d3 where commit: "sq_commit E d2 = (rc, d3)" by (cases "sq_commit E d2")
      then show ?thesis
        using assms Pair Inr items None p2 t2 commit_ok [of d2 d3] commit_err [of d2 _ d3]
        by (cases rc) (auto simp: flush_chunk_def)
    qed (use assms Pair Inr items t2 in \<open>auto simp: flush_chunk_def\<close>)
  qed
qed

end

lemma flush_chunk_dirty:
  assumes "flush_chunk E chunk s = (r, s')"
  shows "dom (mget (dirty s')) = (if r = None then dom (mget (dirty s))
     else dom (mget (dirty s)) \<union> fst ` set chunk)"
proof -
  have "dom (mget (dirty (snd (flush_chunk E chunk s)))) = (if fst (flush_chunk E chunk s) = None then dom (mget (dirty s))
     else dom (mget (dirty s)) \<union> fst ` set chunk)"
    by (simp add: flush_chunk_def dom_re_mark_dirty split: prod.splits sum.splits option.splits)
  with assms show ?thesis by simp
qed

section \<open>Whole runs\<close>

text \<open>
  A run commits a prefix of the chunks. When it stops at a failing chunk, that
  chunk is marked dirty again; the chunks after it are in none of the two sets.
\<close>

definition flush_outcome :: "flush_item list list \<Rightarrow> flush_item list list \<Rightarrow> store_error option
    \<Rightarrow> key set \<Rightarrow> key set \<Rightarrow> bool" where
  "flush_outcome cs committed r D D' \<longleftrightarrow>
     (case r of
        None \<Rightarrow> committed = cs \<and> D' = D
      | Some e \<Rightarrow> (\<exists>failing lost. cs = committed @ failing # lost \<and> D' = D \<union> fst ` set failing))"

context sql_engine
begin

lemma flush_chunks_outcome:
  assumes "flush_chunks E cs n s = ((m, r), s')"
  shows "\<exists>committed. flush_outcome cs committed r (dom (mget (dirty s))) (dom (mget (dirty s')))
    \<and> tbl (db s') = write_items (concat committed) (tbl (db s))
    \<and> m = n + int (length (concat committed))"
  using assms
proof (induction cs arbitrary: n s)
  case Nil
  then show ?case by (simp add: flush_outcome_def)
next
  case (Cons c cs)
  obtain rc s1 where c: "flush_chunk E c s = (rc, s1)" by (cases "flush_chunk E c s")
  show ?case
  proof (cases rc)
    case (Some e)
    with Cons.prems c have eq: "m = n" "r = Some e" "s' = s1" by simp_all
    have "flush_outcome (c # cs) [] r (dom (mget (dirty s))) (dom (mget (dirty s')))"
      using flush_chunk_dirty [OF c] by (simp add: flush_outcome_def eq Some)
    then show ?thesis
      using flush_chunk_tbl [OF c] eq Some by (intro exI [of _ "[]"]) simp
  next
    case None
    with Cons.prems c have rest: "flush_chunks E cs (n + int (length c)) s1 = ((m, r), s')" by simp
    obtain committed where o: "flush_outcome cs committed r (dom (mget (dirty s1))) (dom (mget (dirty s')))"
      and t: "tbl (db s') = write_items (concat committed) (tbl (db s1))"
      and m: "m = n + int (length c) + int (length (concat committed))"
      using Cons.IH [OF rest] by blast
    have "dom (mget (dirty s1)) = dom (mget (dirty s))" using flush_chunk_dirty [OF c] None by simp
    with o have "flush_outcome (c # cs) (c # committed) r (dom (mget (dirty s))) (dom (mget (dirty s')))"
      by (auto simp: flush_outcome_def split: option.splits)
    moreover have "tbl (db s1) = write_items c (tbl (db s))" using flush_chunk_tbl [OF c] None by simp
    ultimately show ?thesis using t m by (intro exI [of _ "c # committed"]) simp
  qed
qed

text \<open>The run of \<open>Flush\<close> itself, from the dirty set it takes.\<close>

lemma flush_run:
  assumes "flush E rng s = ((m, r), s')" "caching s"
  defines "batch \<equiv> flush_batch (rng (mkeys (dirty s))) s"
  obtains committed where
    "flush_outcome (chunks flush_batch_size batch) committed r {} (dom (mget (dirty s')))"
    "tbl (db s') = write_items (concat committed) (tbl (db s))"
    "m = int (length (concat committed))"
proof (cases "rng (mkeys (dirty s)) = []")
  case True
  with assms have "r = None" "m = 0" "s' = s\<lparr>dirty := mempty\<rparr>"
    by (simp_all add: flush_def take_dirty_def)
  moreover have "batch = []" using True by (simp add: batch_def)
  ultimately show ?thesis by (intro that [of "[]"]) (simp_all add: flush_outcome_def)
next
  case False
  have "flush_batch ks (s\<lparr>dirty := mempty\<rparr>) = flush_batch ks s" for ks
    by (simp add: flush_batch_def)
  with False assms have "flush_chunks E (chunks flush_batch_size batch) 0 (s\<lparr>dirty := mempty\<rparr>) = ((m, r), s')"
    by (simp add: flush_def take_dirty_def)
  from flush_chunks_outcome [OF this] show ?thesis by (auto intro: that)
qed

end

lemma flush_chunk_durable:
  assumes "flush_chunk E c s = (None, s')" "distinct (map fst c)" "(k, e) \<in> set c" "mget (cache s) k = Some e"
  shows "mget (cache s') k = Some (e\<lparr>volatile := False\<rparr>)"
proof -
  obtain d where s': "s' = fold (\<lambda>(k, e). clear_volatile k (expires_at e)) c (s\<lparr>db := d\<rparr>)"
    using assms(1) by (auto simp: flush_chunk_def split: prod.splits sum.splits option.splits)
  have "map_of c k = Some e" using assms(2,3) by (simp add: map_of_eq_Some_iff)
  then show ?thesis
    using assms(2,4) unfolding s' by (auto simp: fold_clear_volatile_get time_equal_def)
qed

section \<open>What a flush does to the memory layer\<close>

lemma flush_chunk_cache:
  assumes "flush_chunk E c s = (r, s')" "distinct (map fst c)"
  shows "mget (cache s') k = (if r \<noteq> None then mget (cache s) k else case map_of c k of None \<Rightarrow> mget (cache s) k
      | Some e \<Rightarrow> map_option (\<lambda>cur. if volatile cur \<and> time_equal (expires_at cur) (expires_at e)
          then cur\<lparr>volatile := False\<rparr> else cur) (mget (cache s) k))"
  using assms
  by (auto simp: flush_chunk_def fold_clear_volatile_get split: prod.splits sum.splits option.splits)

lemma flush_chunks_cache:
  assumes "flush_chunks E cs n s = ((m, None), s')" "distinct (map fst (concat cs))"
  shows "mget (cache s') k = (case map_of (concat cs) k of None \<Rightarrow> mget (cache s) k
      | Some e \<Rightarrow> map_option (\<lambda>cur. if volatile cur \<and> time_equal (expires_at cur) (expires_at e)
          then cur\<lparr>volatile := False\<rparr> else cur) (mget (cache s) k))"
  using assms
proof (induction cs arbitrary: n s)
  case (Cons c cs)
  obtain q s1 where q: "flush_chunk E c s = (q, s1)" by (metis surj_pair)
  with Cons.prems(1) have ok: "q = None" "flush_chunks E cs (n + int (length c)) s1 = ((m, None), s')"
    by (auto split: option.splits)
  have d: "distinct (map fst c)" "distinct (map fst (concat cs))"
    "fst ` set c \<inter> fst ` set (concat cs) = {}" using Cons.prems(2) by auto
  note IH = Cons.IH [OF ok(2) d(2)]
  show ?case
  proof (cases "map_of c k")
    case None
    have "mget (cache s1) k = mget (cache s) k"
      using flush_chunk_cache [OF q d(1), of k] ok(1) None by simp
    with IH None show ?thesis by (simp only: map_of_append map_add_None map_add_def concat.simps) simp
  next
    case (Some e)
    then have "k \<in> fst ` set c" by (force dest: map_of_SomeD)
    with d(3) have "map_of (concat cs) k = None" by (auto simp: map_of_eq_None_iff)
    with Some IH flush_chunk_cache [OF q d(1), of k] ok(1) show ?thesis
      by (simp add: map_add_def)
  qed
qed simp

lemma flush_chunks_dirty:
  assumes "flush_chunks E cs n s = (r, s')" "distinct (map fst (concat cs))" "dom (mget (dirty s)) = {}"
    "\<forall>k e. k \<in> fst ` set (concat cs) \<and> mget (cache s) k = Some e \<longrightarrow> volatile e"
  shows "\<forall>k e. k \<in> dom (mget (dirty s')) \<and> mget (cache s') k = Some e \<longrightarrow> volatile e"
  using assms
proof (induction cs arbitrary: n s)
  case (Cons c cs)
  obtain q s1 where q: "flush_chunk E c s = (q, s1)" by (metis surj_pair)
  have d: "distinct (map fst c)" "distinct (map fst (concat cs))"
    "fst ` set c \<inter> fst ` set (concat cs) = {}" using Cons.prems(2) by auto
  note cc = flush_chunk_cache [OF q d(1)] and dd = flush_chunk_dirty [OF q]
  show ?case
  proof (cases q)
    case None
    have "volatile e" if k: "k \<in> fst ` set (concat cs)" and e: "mget (cache s1) k = Some e" for k e
    proof -
      have "map_of c k = None" using k d(3) by (auto simp: map_of_eq_None_iff)
      then have "mget (cache s) k = Some e" using cc [of k] e by simp
      moreover have "k \<in> fst ` set (concat (c # cs))" using k by (simp add: image_Un)
      ultimately show ?thesis using Cons.prems(4) by simp
    qed
    then have "\<forall>k e. k \<in> fst ` set (concat cs) \<and> mget (cache s1) k = Some e \<longrightarrow> volatile e" by blast
    moreover have "flush_chunks E cs (n + int (length c)) s1 = (r, s')"
      using Cons.prems(1) q None by simp
    ultimately show ?thesis using Cons.IH [OF _ d(2)] dd None Cons.prems(3) by simp
  next
    case (Some e)
    with Cons.prems(1) q have "s' = s1" by simp
    moreover have "dom (mget (dirty s1)) = fst ` set c" using dd Some Cons.prems(3) by simp
    moreover have "mget (cache s1) k = mget (cache s) k" for k using cc [of k] Some by simp
    ultimately show ?thesis using Cons.prems(4) by (simp add: image_Un) blast
  qed
qed auto

section \<open>Properties\<close>

text \<open>The dirty keys that are still in memory, and what a flush leaves dirty.\<close>

definition dirty_volatile :: "'db store \<Rightarrow> bool" where
  "dirty_volatile s \<longleftrightarrow> (\<forall>k e. k \<in> dom (mget (dirty s)) \<and> mget (cache s) k = Some e \<longrightarrow> volatile e)"

lemma flush_batch_distinct:
  assumes "range_order rng"
  shows "distinct (map fst (flush_batch (rng (mkeys (dirty s))) s'))"
    "set (rng (mkeys (dirty s))) = dom (mget (dirty s))"
  using range_order_distinct [OF assms, of "\<lambda>x. x" "mkeys (dirty s)"] range_order_set [OF assms, of "mkeys (dirty s)"]
  by (simp_all add: distinct_flush_batch dom_mget)

lemma concat_flush_chunks [simp]: "concat (chunks flush_batch_size b) = b"
  by (simp add: concat_chunks flush_batch_size_def)

lemma flush_chunks_of:
  assumes "flush E rng s = (r, s')" "caching s"
  shows "flush_chunks E (chunks flush_batch_size (flush_batch (rng (mkeys (dirty s))) s)) 0 (s\<lparr>dirty := mempty\<rparr>) = (r, s')"
proof -
  have "flush_batch ks (s\<lparr>dirty := mempty\<rparr>) = flush_batch ks s" for ks
    by (simp add: flush_batch_def)
  with assms show ?thesis
    by (cases "rng (mkeys (dirty s)) = []") (simp_all add: flush_def take_dirty_def)
qed

lemma flush_dirty_volatile:
  assumes "flush E rng s = (r, s')" "range_order rng" "dirty_volatile s"
  shows "dirty_volatile s'"
proof (cases "caching s")
  case False
  with assms show ?thesis by (simp add: flush_def)
next
  case True
  have "\<forall>k e. k \<in> fst ` set (flush_batch (rng (mkeys (dirty s))) s) \<and> mget (cache s) k = Some e \<longrightarrow> volatile e"
    using assms(3) flush_batch_distinct(2) [OF assms(2), of s] by (auto simp: dirty_volatile_def set_flush_batch)
  then show ?thesis unfolding dirty_volatile_def
    by (intro flush_chunks_dirty [OF flush_chunks_of [OF assms(1) True]])
      (simp_all add: flush_batch_distinct(1) [OF assms(2)])
qed

lemma map_of_flush_batch:
  "distinct ks \<Longrightarrow> map_of (flush_batch ks s) k = (if k \<in> set ks then mget (cache s) k else None)"
proof (induction ks)
  case (Cons k' ks)
  moreover have "k' \<notin> set ks" using Cons.prems by simp
  ultimately show ?case by (auto simp: flush_batch_Cons split: option.splits)
qed simp

lemma length_flush_batch:
  assumes "distinct ks"
  shows "length (flush_batch ks s) = card (set ks \<inter> dom (mget (cache s)))"
  using distinct_card [OF distinct_flush_batch [OF assms], of s] by (simp add: keys_flush_batch)

text \<open>Two dirty keys over the reference engine.\<close>

definition sample_dirty :: "bool list \<Rightarrow> ref_db store" where
  "sample_dirty fs = snd (put_with_mode ref_engine utc (sample_time 0) ''a'' ''1'' second PutAsync
     (snd (put_with_mode ref_engine utc (sample_time 0) ''b'' ''2'' second PutAsync (sample_store 1000 fs))))"

lemma sample_dirty_simps [simp]:
  "caching (sample_dirty fs)" "mkeys (dirty (sample_dirty fs)) = [''b'', ''a'']"
  "mget (cache (sample_dirty fs)) = [''b'' \<mapsto> \<lparr>val = ''2'', expires_at = sample_time 1, volatile = True\<rparr>,
     ''a'' \<mapsto> \<lparr>val = ''1'', expires_at = sample_time 1, volatile = True\<rparr>]"
proof -
  have t: "time_add utc (sample_time 0) second = sample_time 1"
    by (simp add: time_add_def time_at_def sample_time_def)
  define s1 where "s1 = cache_put ''b'' ''2'' (sample_time 1) True (sample_store 1000 fs)"
  have s1: "caching s1" "dirty s1 = mempty"
    "mget (cache s1) = [''b'' \<mapsto> \<lparr>val = ''2'', expires_at = sample_time 1, volatile = True\<rparr>]"
    by (simp_all add: s1_def)
  have "sample_dirty fs = mark_dirty ''a'' (cache_put ''a'' ''1'' (sample_time 1) True (mark_dirty ''b'' s1))"
    by (simp add: sample_dirty_def put_with_mode_def Let_def t s1_def)
  then show "caching (sample_dirty fs)" "mkeys (dirty (sample_dirty fs)) = [''b'', ''a'']"
    "mget (cache (sample_dirty fs)) = [''b'' \<mapsto> \<lparr>val = ''2'', expires_at = sample_time 1, volatile = True\<rparr>,
     ''a'' \<mapsto> \<lparr>val = ''1'', expires_at = sample_time 1, volatile = True\<rparr>]"
    by (simp_all only: dirty_ops_simps cache_put_simps s1) (simp_all add: gomap_reps(1,2))
qed

lemma flush_durable:
  assumes "sql_engine E tbl pend" and "caching s" and "range_order rng"
    and "flush E rng s = ((n, None), s')"
  shows "dom (mget (dirty s')) = {} \<and> n = int (card (dom (mget (dirty s)) \<inter> dom (mget (cache s)))) \<and>
    (\<forall>k. if k \<in> dom (mget (dirty s)) \<and> k \<in> dom (mget (cache s))
      then mget (cache s') k = map_option (\<lambda>e. e\<lparr>volatile := False\<rparr>) (mget (cache s) k)
        \<and> tbl (db s') k = map_option item_row (mget (cache s) k)
      else mget (cache s') k = mget (cache s) k \<and> tbl (db s') k = tbl (db s) k)"
proof -
  define ks where "ks = rng (mkeys (dirty s))"
  define b where "b = flush_batch ks s"
  have ks: "distinct ks" "set ks = dom (mget (dirty s))"
    using range_order_distinct [OF assms(3), of "\<lambda>x. x"] flush_batch_distinct(2) [OF assms(3), of s]
    by (simp_all add: ks_def)
  have d: "distinct (map fst b)" unfolding b_def by (rule distinct_flush_batch [OF ks(1)])
  note fc = flush_chunks_of [OF assms(4,2), folded ks_def, folded b_def]
  obtain committed where out: "flush_outcome (chunks flush_batch_size b) committed None {} (dom (mget (dirty s')))"
    "tbl (db s') = write_items (concat committed) (tbl (db s))" "n = int (length (concat committed))"
    using sql_engine.flush_run [OF assms(1,4,2)] by (auto simp: ks_def b_def)
  have com: "concat committed = b" using out(1) by (simp add: flush_outcome_def)
  have "mget (cache s') k = (if k \<in> set ks \<and> k \<in> dom (mget (cache s)) then map_option (\<lambda>e. e\<lparr>volatile := False\<rparr>) (mget (cache s) k)
      else mget (cache s) k)" for k
    using flush_chunks_cache [OF fc, of k] d map_of_flush_batch [OF ks(1), of s k, folded b_def]
    by (cases "mget (cache s) k") (simp_all add: time_equal_def domI domIff)
  moreover have "tbl (db s') k = (if k \<in> set ks \<and> k \<in> dom (mget (cache s)) then map_option item_row (mget (cache s) k)
      else tbl (db s) k)" for k
    using map_of_flush_batch [OF ks(1), of s k, folded b_def]
    by (cases "mget (cache s) k") (auto simp: out(2) com write_items_apply [OF d])
  moreover have "n = int (card (set ks \<inter> dom (mget (cache s))))"
    using out(3) com length_flush_batch [OF ks(1), of s] by (simp add: b_def)
  moreover have "dom (mget (dirty s')) = {}" using out(1) by (simp add: flush_outcome_def)
  ultimately show ?thesis unfolding ks(2) by simp
qed

text \<open>C11: A flush that reports success leaves no key dirty, and every key that was dirty and
  is still in memory is durable: its entry is the row of its key and no longer volatile.
  Nothing else changes, and the count is the number of keys persisted.\<close>

theorem flush_success:
  assumes "sql_engine E tbl pend" and "caching s" and "range_order rng"
    and "flush E rng s = ((n, None), s')"
  shows "dom (mget (dirty s')) = {} \<and> n = int (card (dom (mget (dirty s)) \<inter> dom (mget (cache s)))) \<and>
    (\<forall>k. if k \<in> dom (mget (dirty s)) \<and> k \<in> dom (mget (cache s))
      then mget (cache s') k = map_option (\<lambda>e. e\<lparr>volatile := False\<rparr>) (mget (cache s) k)
        \<and> tbl (db s') k = map_option item_row (mget (cache s) k)
      else mget (cache s') k = mget (cache s) k \<and> tbl (db s') k = tbl (db s) k)"
  by (rule flush_durable [OF assms])

theorem flush_success_witness:
  "dom (mget (dirty (snd (flush ref_engine (\<lambda>xs. xs) (sample_dirty []))))) = {}"
proof -
  have "fst (flush ref_engine (\<lambda>xs. xs) (sample_dirty [])) = (2, None)" by code_simp
  then obtain s' where "flush ref_engine (\<lambda>xs. xs) (sample_dirty []) = ((2, None), s')"
    by (metis prod.collapse)
  from flush_success [OF ref.sql_engine_axioms _ _ this] this show ?thesis by simp
qed



end
