(* ===== verification/Store_Evict.thy ===== *)
theory Store_Evict
  imports Store_Core
begin

text \<open>
  The removals of \<open>store.go\<close>: the expiry sweep \<open>DeleteExpired\<close>, the size-based
  eviction \<open>EvictOldest\<close> with its two kinds of batches, and the incremental
  vacuum. Loops that range over the cache take the order they visit it in;
  \<open>rng run\<close> is the order of the purge in the given run of the loop.
\<close>

section \<open>The expiry sweep\<close>

definition purge_expired :: "gotime \<Rightarrow> (key \<times> entry) list \<Rightarrow> 'db store \<Rightarrow> 'db store" where
  "purge_expired now es s =
    fold (\<lambda>(k, e) s. if after now (expires_at e) then cache_drop k e s else s) es s"

text \<open>The half of \<open>DeleteExpired\<close> that works on the database: the probe, then the delete.\<close>

definition sweep_rows :: "'db sqlite \<Rightarrow> string \<Rightarrow> int \<Rightarrow> 'db store \<Rightarrow> (int \<times> store_error option) \<times> 'db store" where
  "sweep_rows E now_str limit s =
    (case sq_probe_before E now_str (db s) of
       (Inl x, d) \<Rightarrow> ((0, Some (ErrProbe x)), s\<lparr>db := d\<rparr>)
     | (Inr False, d) \<Rightarrow> ((0, None), s\<lparr>db := d\<rparr>)
     | (Inr True, d) \<Rightarrow>
         (case sq_exec E (if 0 < limit then DeleteBeforeLimit now_str limit else DeleteBefore now_str) d of
            (Inl x, d) \<Rightarrow> ((0, Some (ErrSweep x)), s\<lparr>db := d\<rparr>)
          | (Inr (Inl x), d) \<Rightarrow> ((0, Some (ErrSql x)), s\<lparr>db := d\<rparr>)
          | (Inr (Inr n), d) \<Rightarrow> ((n, None), s\<lparr>db := d\<rparr>)))"

definition delete_expired :: "'db sqlite \<Rightarrow> ((key \<times> entry) list \<Rightarrow> (key \<times> entry) list) \<Rightarrow> gotime \<Rightarrow> int
    \<Rightarrow> 'db store \<Rightarrow> (int \<times> store_error option) \<times> 'db store" where
  "delete_expired E rng now limit s =
    sweep_rows E (rfc3339 now) limit
      (if caching s then purge_expired now (rng (mentries (cache s))) s else s)"

section \<open>Evicting a batch of durable rows\<close>

definition max_delete_params :: nat where
  "max_delete_params = 500"

definition placeholders :: "nat \<Rightarrow> string" where
  "placeholders n = (let s = concat (replicate n ''?, '')
     in if has_suffix s '', '' then take (length s - 2) s else s)"

text \<open>The rows of the victim query, scanned until the first failure.\<close>

fun scan_keys :: "(sql_error + key) list \<Rightarrow> (sql_error, key list) res" where
  "scan_keys [] = Inr []"
| "scan_keys (Inl x # rs) = Inl x"
| "scan_keys (Inr k # rs) = (case scan_keys rs of Inl x \<Rightarrow> Inl x | Inr ks \<Rightarrow> Inr (k # ks))"

fun delete_chunks :: "'db sqlite \<Rightarrow> key list list \<Rightarrow> int \<Rightarrow> 'db \<Rightarrow> (int \<times> sql_error option) \<times> 'db" where
  "delete_chunks E [] deleted d = ((deleted, None), d)"
| "delete_chunks E (c # cs) deleted d =
     (case sq_exec E (DeleteKeys c) d of
        (Inl x, d) \<Rightarrow> ((deleted, Some x), d)
      | (Inr (Inl x), d) \<Rightarrow> ((deleted, Some x), d)
      | (Inr (Inr n), d) \<Rightarrow> delete_chunks E cs (deleted + n) d)"

definition drop_key :: "key \<Rightarrow> 'db store \<Rightarrow> 'db store" where
  "drop_key k s = (case mget (cache s) k of Some e \<Rightarrow> cache_drop k e s | None \<Rightarrow> s)"

definition delete_oldest_batch_cached :: "'db sqlite \<Rightarrow> int \<Rightarrow> 'db store
    \<Rightarrow> (int \<times> sql_error option) \<times> 'db store" where
  "delete_oldest_batch_cached E batch s =
    (case sq_select_oldest E batch (db s) of
       (Inl x, d) \<Rightarrow> ((0, Some x), s\<lparr>db := d\<rparr>)
     | (Inr r, d) \<Rightarrow>
         (let s = s\<lparr>db := d\<rparr>
          in case scan_keys (items r) of
               Inl x \<Rightarrow> ((0, Some x), s)
             | Inr keys \<Rightarrow>
                 (case (iter_err r, close_err r) of
                    (Some x, _) \<Rightarrow> ((0, Some x), s)
                  | (None, Some x) \<Rightarrow> ((0, Some x), s)
                  | (None, None) \<Rightarrow>
                      if keys = [] then ((0, None), s)
                      else case delete_chunks E (chunks max_delete_params keys) 0 (db s) of
                             ((deleted, Some x), d) \<Rightarrow> ((deleted, Some x), s\<lparr>db := d\<rparr>)
                           | ((deleted, None), d) \<Rightarrow> ((deleted, None), fold drop_key keys (s\<lparr>db := d\<rparr>)))))"

section \<open>Evicting a batch of volatile entries\<close>

definition volatile_victims :: "int \<Rightarrow> (key \<times> entry) list \<Rightarrow> (key \<times> entry) list" where
  "volatile_victims batch es =
    (let vs = sort_key (\<lambda>(k, e). ns (expires_at e)) (filter (\<lambda>(k, e). volatile e) es)
     in if int (length vs) > batch then take (nat batch) vs else vs)"

fun delete_shadows :: "'db sqlite \<Rightarrow> (key \<times> entry) list \<Rightarrow> 'db \<Rightarrow> sql_error option \<times> 'db" where
  "delete_shadows E [] d = (None, d)"
| "delete_shadows E ((k, e) # vs) d =
     (case sq_exec E (DeleteKeyUpTo k (rfc3339 (expires_at e))) d of
        (Inl x, d) \<Rightarrow> (Some x, d)
      | (Inr _, d) \<Rightarrow> delete_shadows E vs d)"

fun drop_victims :: "(key \<times> entry) list \<Rightarrow> int \<Rightarrow> 'db store \<Rightarrow> int \<times> 'db store" where
  "drop_victims [] removed s = (removed, s)"
| "drop_victims ((k, e) # vs) removed s =
     (case mget (cache s) k of
        Some cur \<Rightarrow>
          if volatile cur \<and> time_equal (expires_at cur) (expires_at e)
          then drop_victims vs (removed + 1) (cache_drop k cur s)
          else drop_victims vs removed s
      | None \<Rightarrow> drop_victims vs removed s)"

definition purge_volatile_batch :: "'db sqlite \<Rightarrow> ((key \<times> entry) list \<Rightarrow> (key \<times> entry) list) \<Rightarrow> int
    \<Rightarrow> 'db store \<Rightarrow> (sql_error, int) res \<times> 'db store" where
  "purge_volatile_batch E rng batch s =
    (let victims = volatile_victims batch (rng (mentries (cache s)))
     in if victims = [] then (Inr 0, s)
        else case delete_shadows E victims (db s) of
               (Some x, d) \<Rightarrow> (Inl x, s\<lparr>db := d\<rparr>)
             | (None, d) \<Rightarrow> (case drop_victims victims 0 (s\<lparr>db := d\<rparr>) of (n, s) \<Rightarrow> (Inr n, s)))"

section \<open>The eviction loop\<close>

text \<open>The first loop: volatile batches while the cache is over the limit.\<close>

fun purge_loop :: "'db sqlite \<Rightarrow> (nat \<Rightarrow> (key \<times> entry) list \<Rightarrow> (key \<times> entry) list) \<Rightarrow> int \<Rightarrow> int \<Rightarrow> nat
    \<Rightarrow> int \<Rightarrow> 'db store \<Rightarrow> (int \<times> store_error option) \<times> 'db store" where
  "purge_loop E rng limit batch 0 deleted s = ((deleted, None), s)"
| "purge_loop E rng limit batch (Suc runs) deleted s =
     (if cache_bytes_of s < limit then ((deleted, None), s)
      else case purge_volatile_batch E (rng runs) batch s of
             (Inl x, s) \<Rightarrow> ((deleted, Some (ErrEvictVolatile x)), s)
           | (Inr n, s) \<Rightarrow>
               if n = 0 then ((deleted, None), s)
               else purge_loop E rng limit batch runs (deleted + n) s)"

text \<open>One batch of the second loop: through both layers, or the single statement.\<close>

definition evict_batch :: "'db sqlite \<Rightarrow> int \<Rightarrow> 'db store \<Rightarrow> (sql_error, int) res \<times> 'db store" where
  "evict_batch E batch s =
    (if caching s then
       (case delete_oldest_batch_cached E batch s of
          ((n, Some x), s) \<Rightarrow> (Inl x, s)
        | ((n, None), s) \<Rightarrow> (Inr n, s))
     else
       (case sq_exec E (DeleteOldest batch) (db s) of
          (Inl x, d) \<Rightarrow> (Inl x, s\<lparr>db := d\<rparr>)
        | (Inr (Inl x), d) \<Rightarrow> (Inl x, s\<lparr>db := d\<rparr>)
        | (Inr (Inr n), d) \<Rightarrow> (Inr n, s\<lparr>db := d\<rparr>)))"

definition batch_bound :: "int \<Rightarrow> int \<Rightarrow> int" where
  "batch_bound batch cnt = (if cnt \<le> batch then cnt - 1 else batch)"

fun evict_loop :: "'db sqlite \<Rightarrow> int \<Rightarrow> int \<Rightarrow> nat \<Rightarrow> int \<Rightarrow> 'db store
    \<Rightarrow> (int \<times> store_error option) \<times> 'db store" where
  "evict_loop E limit batch 0 deleted s = ((deleted, None), s)"
| "evict_loop E limit batch (Suc runs) deleted s =
     (case usage E s of
        (Inl e, s) \<Rightarrow> ((deleted, Some (ErrEvictSize e)), s)
      | (Inr sz, s) \<Rightarrow>
          if sz < limit then ((deleted, None), s)
          else case row_count E s of
                 (Inl e, s) \<Rightarrow> ((deleted, Some e), s)
               | (Inr cnt, s) \<Rightarrow>
                   (let b = batch_bound batch cnt
                    in if b \<le> 0 then ((deleted, None), s)
                       else case evict_batch E b s of
                              (Inl x, s) \<Rightarrow> ((deleted, Some (ErrEvictBatch x)), s)
                            | (Inr n, s) \<Rightarrow>
                                if n = 0 then ((deleted, None), s)
                                else evict_loop E limit batch runs (deleted + n) s))"

definition evict_oldest :: "'db sqlite \<Rightarrow> (nat \<Rightarrow> (key \<times> entry) list \<Rightarrow> (key \<times> entry) list) \<Rightarrow> int \<Rightarrow> int \<Rightarrow> int
    \<Rightarrow> 'db store \<Rightarrow> (int \<times> store_error option) \<times> 'db store" where
  "evict_oldest E rng limit batch max_runs s =
    (if batch \<le> 0 \<or> max_runs \<le> 0 then ((0, Some ErrEvictArgs), s)
     else case (if caching s then purge_loop E rng limit batch (nat max_runs) 0 s else ((0, None), s)) of
            ((deleted, Some e), s) \<Rightarrow> ((deleted, Some e), s)
          | ((deleted, None), s) \<Rightarrow> evict_loop E limit batch (nat max_runs) deleted s)"

definition incremental_vacuum :: "'db sqlite \<Rightarrow> int \<Rightarrow> 'db store \<Rightarrow> store_error option \<times> 'db store" where
  "incremental_vacuum E n s =
    (case sq_exec E (IncrementalVacuumPages n) (db s) of
       (Inl x, d) \<Rightarrow> (Some (ErrVacuum x), s\<lparr>db := d\<rparr>)
     | (Inr _, d) \<Rightarrow> (None, s\<lparr>db := d\<rparr>))"

section \<open>The sweep purges every expired entry\<close>

lemma purge_expired_simps [simp]:
  "purge_expired now [] s = s"
  "purge_expired now ((k, e) # es) s =
    purge_expired now es (if after now (expires_at e) then cache_drop k e s else s)"
  by (simp_all add: purge_expired_def)

lemma purge_expired_frame [simp]:
  "db (purge_expired now es s) = db s" "dirty (purge_expired now es s) = dirty s"
  "mem_limit (purge_expired now es s) = mem_limit s" "caching (purge_expired now es s) = caching s"
  "background (purge_expired now es s) = background s"
proof (induction es arbitrary: s)
  case (Cons it es)
  obtain k e where it: "it = (k, e)" by (cases it)
  {
    case 1 show ?case by (simp add: it Cons.IH)
  next
    case 2 show ?case by (simp add: it Cons.IH)
  next
    case 3 show ?case by (simp add: it Cons.IH)
  next
    case 4 show ?case by (simp add: it Cons.IH)
  next
    case 5 show ?case by (simp add: it Cons.IH)
  }
qed simp_all

lemma purge_expired_get:
  "mget (cache (purge_expired now es s)) k =
    (if \<exists>e. (k, e) \<in> set es \<and> after now (expires_at e) then None else mget (cache s) k)"
  by (induction es arbitrary: s) auto

lemma purge_expired_wf [kvp_inv]:
  assumes "store_wf s" "\<forall>(k, e) \<in> set es. mget (cache s) k = Some e" "distinct (map fst es)"
  shows "store_wf (purge_expired now es s)"
  using assms
proof (induction es arbitrary: s)
  case (Cons it es)
  obtain k e where it: "it = (k, e)" by (cases it)
  define s1 where "s1 = (if after now (expires_at e) then cache_drop k e s else s)"
  have "store_wf s1" unfolding s1_def using Cons.prems by (auto simp: it intro: kvp_inv)
  moreover have "\<forall>(k, e) \<in> set es. mget (cache s1) k = Some e"
    unfolding s1_def using Cons.prems by (force simp: it)
  ultimately show ?case using Cons by (simp add: it s1_def)
qed simp

lemma sweep_rows_shell:
  "sweep_rows E x limit s = (r, s') \<Longrightarrow> same_shell s s' \<and> cache s' = cache s \<and> cache_bytes s' = cache_bytes s"
  by (auto simp: sweep_rows_def split: prod.splits sum.splits bool.splits)

lemma delete_expired_wf [kvp_inv]:
  assumes "delete_expired E rng now limit s = (r, s')" "store_wf s" "range_order rng"
  shows "store_wf s'"
proof -
  have "store_wf (purge_expired now (rng (mentries (cache s))) s)"
    using assms by (intro purge_expired_wf) (auto simp: range_order_set mget_entries range_order_distinct)
  with assms show ?thesis
    by (auto simp: delete_expired_def split: if_splits dest!: sweep_rows_shell simp: store_wf_cong)
qed

text \<open>The sweep purges the memory layer first; the database part leaves it alone.\<close>

lemma delete_expired_memory:
  assumes "delete_expired E rng now limit s = (r, s')" "caching s"
  shows "cache s' = cache (purge_expired now (rng (mentries (cache s))) s)"
  using assms sweep_rows_shell by (fastforce simp: delete_expired_def)

lemma delete_expired_cache:
  assumes "delete_expired E rng now limit s = (r, s')" "caching s" "range_order rng"
  shows "mget (cache s') k =
    (case mget (cache s) k of None \<Rightarrow> None | Some e \<Rightarrow> if after now (expires_at e) then None else Some e)"
proof -
  have "(k, e) \<in> set (rng (mentries (cache s))) \<longleftrightarrow> mget (cache s) k = Some e" for e
    using assms(3) by (simp add: range_order_set mget_entries)
  then show ?thesis
    unfolding delete_expired_memory [OF assms(1,2)] purge_expired_get by (simp split: option.split)
qed

lemma purge_expired_shell: "same_shell s (purge_expired now es s)"
  by (simp add: same_shell_def)

lemma delete_expired_shell: "delete_expired E rng now limit s = (r, s') \<Longrightarrow> same_shell s s'"
  using purge_expired_shell [of s]
  by (auto simp: delete_expired_def dest!: sweep_rows_shell split: if_splits intro: same_shell_trans)

section \<open>Dropping keys\<close>

lemma drop_key_frame [simp]:
  "db (drop_key k s) = db s" "dirty (drop_key k s) = dirty s" "mem_limit (drop_key k s) = mem_limit s"
  "caching (drop_key k s) = caching s" "background (drop_key k s) = background s"
  by (simp_all add: drop_key_def split: option.splits)

lemma drop_key_get: "mget (cache (drop_key k s)) = (mget (cache s))(k := None)"
  by (auto simp: drop_key_def fun_eq_iff split: option.splits)

lemma drop_key_wf [kvp_inv]: "store_wf s \<Longrightarrow> store_wf (drop_key k s)"
  by (auto simp: drop_key_def intro: kvp_inv split: option.splits)

lemma fold_drop_key_frame [simp]:
  "db (fold drop_key ks s) = db s" "dirty (fold drop_key ks s) = dirty s"
  "mem_limit (fold drop_key ks s) = mem_limit s" "caching (fold drop_key ks s) = caching s"
  "background (fold drop_key ks s) = background s"
  by (induction ks arbitrary: s) auto

lemma fold_drop_key_get:
  "mget (cache (fold drop_key ks s)) k = (if k \<in> set ks then None else mget (cache s) k)"
  by (induction ks arbitrary: s) (auto simp: drop_key_get)

lemma fold_drop_key_wf [kvp_inv]: "store_wf s \<Longrightarrow> store_wf (fold drop_key ks s)"
  by (induction ks arbitrary: s) (auto intro: kvp_inv)

lemma fold_drop_key_shell: "same_shell s (fold drop_key ks s)"
  by (simp add: same_shell_def)

lemma fold_drop_key_shrinks: "cache_shrinks s (fold drop_key ks s)"
  by (auto simp: cache_shrinks_def map_le_def fold_drop_key_get split: if_splits)

lemma delete_oldest_cached_shrinks:
  "delete_oldest_batch_cached E b s = (r, s') \<Longrightarrow> cache_shrinks s s'"
  using fold_drop_key_shrinks [of "s\<lparr>db := _\<rparr>"]
  by (auto simp: delete_oldest_batch_cached_def Let_def split: prod.splits sum.splits option.splits if_splits)

lemma delete_oldest_cached_shell:
  "delete_oldest_batch_cached E b s = (r, s') \<Longrightarrow> same_shell s s'"
  using fold_drop_key_shell [of "s\<lparr>db := _\<rparr>"]
  by (auto simp: delete_oldest_batch_cached_def Let_def split: prod.splits sum.splits option.splits if_splits)

lemma delete_oldest_cached_wf [kvp_inv]:
  "store_wf s \<Longrightarrow> store_wf (snd (delete_oldest_batch_cached E b s))"
  by (auto simp: delete_oldest_batch_cached_def Let_def split: prod.splits sum.splits option.splits
      intro: kvp_inv)

section \<open>Dropping volatile victims\<close>

lemma drop_victims_shell: "drop_victims vs n s = (m, s') \<Longrightarrow> same_shell s s' \<and> db s' = db s"
  by (induction vs n s rule: drop_victims.induct) (auto split: option.splits if_splits intro: same_shell_trans)

lemma drop_victims_shrinks: "drop_victims vs n s = (m, s') \<Longrightarrow> cache_shrinks s s'"
  by (induction vs n s rule: drop_victims.induct) (auto split: option.splits if_splits intro: cache_shrinks_trans)

lemma drop_victims_wf [kvp_inv]: "drop_victims vs n s = (m, s') \<Longrightarrow> store_wf s \<Longrightarrow> store_wf s'"
  by (induction vs n s rule: drop_victims.induct) (auto split: option.splits if_splits intro: kvp_inv)

lemma purge_volatile_shell: "purge_volatile_batch E rng b s = (r, s') \<Longrightarrow> same_shell s s'"
  by (auto simp: purge_volatile_batch_def Let_def split: prod.splits sum.splits option.splits if_splits
      dest: drop_victims_shell)

lemma purge_volatile_shrinks: "purge_volatile_batch E rng b s = (r, s') \<Longrightarrow> cache_shrinks s s'"
  by (auto simp: purge_volatile_batch_def Let_def split: prod.splits sum.splits option.splits if_splits
      dest: drop_victims_shrinks)

lemma purge_volatile_wf [kvp_inv]:
  "purge_volatile_batch E rng b s = (r, s') \<Longrightarrow> store_wf s \<Longrightarrow> store_wf s'"
  by (auto simp: purge_volatile_batch_def Let_def split: prod.splits sum.splits option.splits if_splits
      dest: drop_victims_wf)

section \<open>The loops\<close>

lemma purge_loop_shell: "purge_loop E rng limit b runs n s = (r, s') \<Longrightarrow> same_shell s s'"
proof (induction runs arbitrary: n s)
  case (Suc runs)
  obtain p s1 where p: "purge_volatile_batch E (rng runs) b s = (p, s1)"
    by (cases "purge_volatile_batch E (rng runs) b s")
  with Suc.prems Suc.IH purge_volatile_shell [OF p] show ?case
    by (auto split: sum.splits if_splits intro: same_shell_trans)
qed simp

lemma purge_loop_shrinks: "purge_loop E rng limit b runs n s = (r, s') \<Longrightarrow> cache_shrinks s s'"
proof (induction runs arbitrary: n s)
  case (Suc runs)
  obtain p s1 where p: "purge_volatile_batch E (rng runs) b s = (p, s1)"
    by (cases "purge_volatile_batch E (rng runs) b s")
  with Suc.prems Suc.IH purge_volatile_shrinks [OF p] show ?case
    by (auto split: sum.splits if_splits intro: cache_shrinks_trans)
qed simp

lemma purge_loop_wf [kvp_inv]:
  "purge_loop E rng limit b runs n s = (r, s') \<Longrightarrow> store_wf s \<Longrightarrow> store_wf s'"
proof (induction runs arbitrary: n s)
  case (Suc runs)
  obtain p s1 where p: "purge_volatile_batch E (rng runs) b s = (p, s1)"
    by (cases "purge_volatile_batch E (rng runs) b s")
  with Suc.prems Suc.IH purge_volatile_wf [OF p] show ?case
    by (auto split: sum.splits if_splits)
qed simp

lemma usage_shell: "usage E s = (r, s') \<Longrightarrow> same_shell s s' \<and> cache s' = cache s \<and> cache_bytes s' = cache_bytes s"
  by (auto simp: usage_def store_size_def split: prod.splits sum.splits if_splits)

lemma row_count_shell: "row_count E s = (r, s') \<Longrightarrow> same_shell s s' \<and> cache s' = cache s \<and> cache_bytes s' = cache_bytes s"
  by (auto simp: row_count_def split: prod.splits sum.splits if_splits)

lemma evict_batch_shell: "evict_batch E b s = (r, s') \<Longrightarrow> same_shell s s'"
  by (auto simp: evict_batch_def split: prod.splits sum.splits if_splits option.splits
      dest: delete_oldest_cached_shell)

lemma evict_batch_shrinks: "evict_batch E b s = (r, s') \<Longrightarrow> cache_shrinks s s'"
  by (auto simp: evict_batch_def split: prod.splits sum.splits if_splits option.splits
      dest: delete_oldest_cached_shrinks)

lemma evict_batch_wf [kvp_inv]: "evict_batch E b s = (r, s') \<Longrightarrow> store_wf s \<Longrightarrow> store_wf s'"
  using delete_oldest_cached_wf [of s E b]
  by (auto simp: evict_batch_def split: prod.splits sum.splits if_splits option.splits)

lemma usage_row_wf:
  "usage E s = (r, s') \<Longrightarrow> store_wf s \<Longrightarrow> store_wf s'" "row_count E s = (r', s') \<Longrightarrow> store_wf s \<Longrightarrow> store_wf s'"
  using usage_wf [of s E] row_count_wf [of s E] by simp_all

text \<open>
  One round of the second loop. It ends the loop with a result, or passes on with
  the number of rows it removed.
\<close>

definition evict_round :: "'db sqlite \<Rightarrow> int \<Rightarrow> int \<Rightarrow> 'db store \<Rightarrow> (store_error option + int) \<times> 'db store" where
  "evict_round E limit batch s =
    (case usage E s of
        (Inl e, s) \<Rightarrow> (Inl (Some (ErrEvictSize e)), s)
      | (Inr sz, s) \<Rightarrow>
          if sz < limit then (Inl None, s)
          else case row_count E s of
                 (Inl e, s) \<Rightarrow> (Inl (Some e), s)
               | (Inr cnt, s) \<Rightarrow>
                   if batch_bound batch cnt \<le> 0 then (Inl None, s)
                   else case evict_batch E (batch_bound batch cnt) s of
                          (Inl x, s) \<Rightarrow> (Inl (Some (ErrEvictBatch x)), s)
                        | (Inr n, s) \<Rightarrow> if n = 0 then (Inl None, s) else (Inr n, s))"

lemma evict_loop_round:
  "evict_loop E limit batch (Suc runs) deleted s =
    (case evict_round E limit batch s of
       (Inl r, s) \<Rightarrow> ((deleted, r), s)
     | (Inr n, s) \<Rightarrow> evict_loop E limit batch runs (deleted + n) s)"
  by (simp add: evict_round_def Let_def split: prod.splits sum.splits)

lemma evict_round_cases:
  assumes "evict_round E limit batch s = (q, s')"
  obtains (kept) "same_shell s s'" "cache s' = cache s" "cache_bytes s' = cache_bytes s" "isl q"
    | (batch) cnt s1 s2 r where "usage E s = (Inr cnt, s1)" "limit \<le> cnt" "row_count E s1 = (r, s2)"
        "\<exists>n. r = Inr n \<and> 0 < batch_bound batch n \<and> evict_batch E (batch_bound batch n) s2 =
          (case q of Inl e \<Rightarrow> (case e of Some (ErrEvictBatch x) \<Rightarrow> Inl x | _ \<Rightarrow> Inr 0) | Inr m \<Rightarrow> Inr m, s')"
proof -
  obtain u s1 where u: "usage E s = (u, s1)" by (cases "usage E s")
  obtain c s2 where c: "row_count E s1 = (c, s2)" by (cases "row_count E s1")
  note shells = usage_shell [OF u] row_count_shell [OF c]
  show ?thesis
  proof (cases "\<exists>sz n. u = Inr sz \<and> limit \<le> sz \<and> c = Inr n \<and> 0 < batch_bound batch n")
    case True
    then obtain sz n where *: "u = Inr sz" "limit \<le> sz" "c = Inr n" "0 < batch_bound batch n" by blast
    show ?thesis
      using assms u c * by (intro batch [of sz s1 c s2])
        (auto simp: evict_round_def split: prod.splits sum.splits if_splits)
  next
    case False
    then show ?thesis
      using assms u c shells by (intro kept)
        (auto simp: evict_round_def not_less not_le split: sum.splits if_splits intro: same_shell_trans)
  qed
qed

lemma evict_round_shell: "evict_round E limit batch s = (q, s') \<Longrightarrow> same_shell s s'"
  by (erule evict_round_cases)
    (auto dest!: usage_shell row_count_shell evict_batch_shell intro: same_shell_trans)

lemma evict_round_shrinks: "evict_round E limit batch s = (q, s') \<Longrightarrow> cache_shrinks s s'"
  by (erule evict_round_cases)
    (auto dest!: usage_shell row_count_shell evict_batch_shrinks intro: cache_shrinks_eq
      simp: cache_shrinks_def)

lemma evict_round_wf [kvp_inv]: "evict_round E limit batch s = (q, s') \<Longrightarrow> store_wf s \<Longrightarrow> store_wf s'"
  by (erule evict_round_cases) (auto simp: store_wf_cong dest: usage_row_wf evict_batch_wf)

lemma evict_loop_shell: "evict_loop E limit b runs n s = (r, s') \<Longrightarrow> same_shell s s'"
proof (induction runs arbitrary: n s)
  case (Suc runs)
  obtain q s1 where q: "evict_round E limit b s = (q, s1)" by (cases "evict_round E limit b s")
  with Suc.prems Suc.IH evict_round_shell [OF q] show ?case
    by (auto simp: evict_loop_round simp del: evict_loop.simps split: sum.splits intro: same_shell_trans)
qed simp

lemma evict_loop_shrinks: "evict_loop E limit b runs n s = (r, s') \<Longrightarrow> cache_shrinks s s'"
proof (induction runs arbitrary: n s)
  case (Suc runs)
  obtain q s1 where q: "evict_round E limit b s = (q, s1)" by (cases "evict_round E limit b s")
  with Suc.prems Suc.IH evict_round_shrinks [OF q] show ?case
    by (auto simp: evict_loop_round simp del: evict_loop.simps split: sum.splits intro: cache_shrinks_trans)
qed simp

lemma evict_loop_wf [kvp_inv]:
  "evict_loop E limit b runs n s = (r, s') \<Longrightarrow> store_wf s \<Longrightarrow> store_wf s'"
proof (induction runs arbitrary: n s)
  case (Suc runs)
  obtain q s1 where q: "evict_round E limit b s = (q, s1)" by (cases "evict_round E limit b s")
  with Suc.prems Suc.IH evict_round_wf [OF q] show ?case
    by (auto simp: evict_loop_round simp del: evict_loop.simps split: sum.splits)
qed simp

text \<open>The two loops of \<open>EvictOldest\<close>.\<close>

lemma evict_oldest_cases:
  assumes "evict_oldest E rng limit b m s = (r, s')"
  obtains (args) "b \<le> 0 \<or> m \<le> 0" "r = (0, Some ErrEvictArgs)" "s' = s"
    | (purge_failed) n e where "0 < b" "0 < m" "caching s" "purge_loop E rng limit b (nat m) 0 s = ((n, Some e), s')"
        "r = (n, Some e)"
    | (loops) n s1 where "0 < b" "0 < m" "evict_loop E limit b (nat m) n s1 = (r, s')"
        "if caching s then purge_loop E rng limit b (nat m) 0 s = ((n, None), s1) else n = 0 \<and> s1 = s"
proof (cases "b \<le> 0 \<or> m \<le> 0")
  case True
  with assms show ?thesis by (intro args) (auto simp: evict_oldest_def)
next
  case False
  then have pos: "0 < b" "0 < m" by simp_all
  obtain n e s1 where p: "(if caching s then purge_loop E rng limit b (nat m) 0 s else ((0, None), s)) = ((n, e), s1)"
    by (metis surj_pair)
  show ?thesis
  proof (cases e)
    case None
    with assms pos p show ?thesis
      by (intro loops [of n s1]) (auto simp: evict_oldest_def split: if_splits)
  next
    case (Some x)
    with assms pos p show ?thesis
      by (intro purge_failed [of n x]) (auto simp: evict_oldest_def split: if_splits)
  qed
qed

lemma evict_oldest_shell: "evict_oldest E rng limit b m s = (r, s') \<Longrightarrow> same_shell s s'"
  by (erule evict_oldest_cases)
    (auto dest!: purge_loop_shell evict_loop_shell split: if_splits intro: same_shell_trans)

lemma evict_oldest_shrinks: "evict_oldest E rng limit b m s = (r, s') \<Longrightarrow> cache_shrinks s s'"
  by (erule evict_oldest_cases)
    (auto dest!: purge_loop_shrinks evict_loop_shrinks split: if_splits intro: cache_shrinks_trans)

lemma evict_oldest_wf [kvp_inv]: "evict_oldest E rng limit b m s = (r, s') \<Longrightarrow> store_wf s \<Longrightarrow> store_wf s'"
  by (erule evict_oldest_cases) (auto dest: purge_loop_wf evict_loop_wf split: if_splits)

end
