(* ===== verification/Store_Evict_Laws.thy ===== *)
theory Store_Evict_Laws
  imports Store_Evict
begin

text \<open>
  What the removals do to the rows, for every engine that obeys the laws: the
  sweep deletes by text up to its limit, a chunked delete is one delete, a batch
  takes the oldest rows of both layers, the second loop of an eviction removes
  oldest first and never the last row, and the purge of volatile entries drops
  exactly the earliest and the rows under them.
\<close>

section \<open>Sets of oldest rows\<close>

text \<open>\<open>V\<close> is a set of rows none of which is later than a row outside it.\<close>

definition oldest_first :: "table \<Rightarrow> key set \<Rightarrow> bool" where
  "oldest_first t V \<longleftrightarrow> V \<subseteq> dom t \<and> (\<forall>k\<in>V. \<forall>k'\<in>dom t - V. exp_of t k \<le> exp_of t k')"

lemma oldest_first_empty [simp]: "oldest_first t {}"
  by (simp add: oldest_first_def)

lemma oldest_sel_first: "oldest_sel (\<lambda>k e. True) n t V \<Longrightarrow> oldest_first t V"
  by (simp add: oldest_sel_def oldest_first_def)

lemma exp_of_remove [simp]: "k \<notin> V \<Longrightarrow> exp_of (remove_keys V t) k = exp_of t k"
  by (simp add: exp_of_def remove_keys_apply)

lemma oldest_first_compose:
  assumes V: "oldest_first t V" and W: "oldest_first (remove_keys V t) W"
  shows "oldest_first t (V \<union> W)"
  unfolding oldest_first_def
proof (intro conjI ballI)
  show "V \<union> W \<subseteq> dom t" using V W by (auto simp: oldest_first_def)
next
  fix k k' assume k: "k \<in> V \<union> W" and k': "k' \<in> dom t - (V \<union> W)"
  show "exp_of t k \<le> exp_of t k'"
  proof (cases "k \<in> V")
    case True
    with V k' show ?thesis by (simp add: oldest_first_def)
  next
    case False
    with k have "k \<in> W" by simp
    with W k' have "exp_of (remove_keys V t) k \<le> exp_of (remove_keys V t) k'"
      by (simp add: oldest_first_def)
    with False k' show ?thesis by simp
  qed
qed

lemma oldest_sel_card_le:
  assumes "oldest_sel P n t V" "finite (dom t)" "0 \<le> n"
  shows "int (card V) \<le> n"
  using assms by (auto simp: oldest_sel_def sql_limit_def)

lemma removes_dom: "removes V t t' n \<Longrightarrow> V \<subseteq> dom t \<Longrightarrow> n = int (card V) \<and> dom t' = dom t - V"
  by (simp add: removes_def Int_absorb2)

section \<open>The batches\<close>

lemma drop_victims_ge: "drop_victims vs n s = (m, s') \<Longrightarrow> n \<le> m \<and> m \<le> n + int (length vs)"
  by (induction vs n s rule: drop_victims.induct) (fastforce split: option.splits if_splits)+

lemma volatile_victims_length: "0 \<le> b \<Longrightarrow> int (length (volatile_victims b es)) \<le> b"
  by (auto simp: volatile_victims_def Let_def)

lemma purge_volatile_count:
  "purge_volatile_batch E rng b s = (Inr n, s') \<Longrightarrow> 0 \<le> b \<Longrightarrow> 0 \<le> n \<and> n \<le> b"
  using volatile_victims_length [of b "rng (mentries (cache s))"]
  by (auto simp: purge_volatile_batch_def Let_def split: prod.splits sum.splits option.splits if_splits
      dest!: drop_victims_ge)

lemma purge_loop_count:
  assumes "purge_loop E rng limit b runs n s = ((m, r), s')" "0 \<le> b"
  shows "n \<le> m \<and> m \<le> n + b * int runs"
  using assms(1)
proof (induction runs arbitrary: n s)
  case (Suc runs)
  obtain p s1 where p: "purge_volatile_batch E (rng runs) b s = (p, s1)" by (metis surj_pair)
  show ?case
  proof (cases "cache_bytes_of s < limit \<or> isl p \<or> p = Inr 0")
    case True
    with Suc.prems p assms(2) show ?thesis by (auto simp: isl_def split: if_splits)
  next
    case False
    then obtain j where j: "p = Inr j" "j \<noteq> 0" by (cases p) auto
    with Suc.prems p False have "purge_loop E rng limit b runs (n + j) s1 = ((m, r), s')" by simp
    from Suc.IH [OF this] purge_volatile_count [of E "rng runs" b s j s1] p j assms(2)
    show ?thesis by (auto simp: algebra_simps)
  qed
qed simp

lemma scan_keys_ok: "scan_keys rs = Inr ks \<Longrightarrow> list_all (\<lambda>x. \<not> isl x) rs \<and> map projr rs = ks"
  by (induction rs arbitrary: ks rule: scan_keys.induct) (auto split: sum.splits)

lemma drop_keys_map: "mget (cache (fold drop_key ks s)) = mget (cache s) |` (- set ks)"
  by (auto simp: fun_eq_iff fold_drop_key_get restrict_map_def)

context sql_engine
begin

text \<open>Chunks of a duplicate-free list delete what one statement over the list deletes.\<close>

lemma delete_chunks_all:
  assumes "delete_chunks E cs n d = ((m, None), d')" "distinct (concat cs)"
  shows "removes (set (concat cs)) (tbl d) (tbl d') (m - n)"
  using assms
proof (induction cs arbitrary: n d)
  case Nil
  then show ?case by (simp add: removes_def)
next
  case (Cons c cs)
  obtain j d1 where c: "sq_exec E (DeleteKeys c) d = (Inr (Inr j), d1)"
    and rest: "delete_chunks E cs (n + j) d1 = ((m, None), d')"
    using Cons.prems(1) by (auto split: prod.splits sum.splits)
  from exec_ok [OF c] have del: "removes (set c) (tbl d) (tbl d1) j" by auto
  from Cons.IH [OF rest] Cons.prems(2)
  have rem: "removes (set (concat cs)) (tbl d1) (tbl d') (m - (n + j))" by simp
  have "m - n = int (card (set c \<inter> dom (tbl d))) + int (card (set (concat cs) \<inter> (dom (tbl d) - set c)))"
    using del rem by (simp add: removes_def)
  also have "\<dots> = int (card ((set c \<inter> dom (tbl d)) \<union> (set (concat cs) \<inter> (dom (tbl d) - set c))))"
    by (subst card_Un_disjoint) auto
  also have "(set c \<inter> dom (tbl d)) \<union> (set (concat cs) \<inter> (dom (tbl d) - set c))
      = set (concat (c # cs)) \<inter> dom (tbl d)"
    by auto
  finally show ?case
    using del rem by (simp add: removes_def Un_commute)
qed

text \<open>With errors, only listed keys are gone.\<close>

lemma delete_chunks_some:
  "delete_chunks E cs n d = (r, d') \<Longrightarrow> \<exists>V \<subseteq> set (concat cs). tbl d' = remove_keys V (tbl d)"
proof (induction cs arbitrary: n d)
  case Nil
  then show ?case by (intro exI [of _ "{}"]) simp
next
  case (Cons c cs)
  obtain q d1 where c: "sq_exec E (DeleteKeys c) d = (q, d1)" by (cases "sq_exec E (DeleteKeys c) d")
  then show ?case
  proof (cases rule: exec_result)
    case failed
    with Cons.prems c have "d' = d1" by simp
    with failed show ?thesis by (intro exI [of _ "{}"]) simp
  next
    case (succeeded q' j)
    then have t1: "tbl d1 = remove_keys (set c) (tbl d)" by (simp add: removes_def)
    show ?thesis
    proof (cases q')
      case (Inl x)
      with Cons.prems c succeeded have "d' = d1" by simp
      with t1 show ?thesis by (intro exI [of _ "set c"]) simp
    next
      case (Inr i)
      with Cons.prems c succeeded have "delete_chunks E cs (n + i) d1 = (r, d')" by simp
      from Cons.IH [OF this] obtain V where "V \<subseteq> set (concat cs)" "tbl d' = remove_keys V (tbl d1)" by blast
      with t1 show ?thesis by (intro exI [of _ "V \<union> set c"]) auto
    qed
  qed
qed

text \<open>A batch through both layers, when nothing failed.\<close>

lemma oldest_batch_cached:
  assumes "delete_oldest_batch_cached E b s = ((n, None), s')"
  shows "\<exists>V. oldest_sel (\<lambda>k e. True) b (tbl (db s)) V \<and> removes V (tbl (db s)) (tbl (db s')) n
    \<and> mget (cache s') = mget (cache s) |` (- V)"
proof -
  obtain ro d ks where sel: "sq_select_oldest E b (db s) = (Inr ro, d)"
    and sc: "scan_keys (items ro) = Inr ks" and errs: "iter_err ro = None" "close_err ro = None"
    and rest: "ks = [] \<and> n = 0 \<and> s' = s\<lparr>db := d\<rparr> \<or>
      (\<exists>d2. delete_chunks E (chunks max_delete_params ks) 0 d = ((n, None), d2)
        \<and> s' = fold drop_key ks (s\<lparr>db := d2\<rparr>))"
    using assms
    by (auto simp: delete_oldest_batch_cached_def Let_def split: prod.splits sum.splits option.splits if_splits)
  have cl: "clean ro" "delivered ro = ks"
    using scan_keys_ok [OF sc] errs by (auto simp: clean_def delivered_def)
  have dis: "distinct ks" and old: "oldest_sel (\<lambda>k e. True) b (tbl (db s)) (set ks)"
    using oldest_ok [OF sel cl(1)] cl(2) by simp_all
  have td: "tbl d = tbl (db s)" using oldest_pure [of b "db s"] sel by simp
  show ?thesis
    using rest
  proof (elim disjE conjE exE)
    assume "ks = []" "n = 0" "s' = s\<lparr>db := d\<rparr>"
    with old td show ?thesis
      by (intro exI [of _ "{}"]) (auto simp: removes_def)
  next
    fix d2 assume dc: "delete_chunks E (chunks max_delete_params ks) 0 d = ((n, None), d2)"
      and s': "s' = fold drop_key ks (s\<lparr>db := d2\<rparr>)"
    have cc: "concat (chunks max_delete_params ks) = ks"
      by (simp add: concat_chunks max_delete_params_def)
    have "removes (set ks) (tbl (db s)) (tbl d2) n"
      using delete_chunks_all [OF dc] dis cc td by simp
    with old show ?thesis
      unfolding s' by (intro exI [of _ "set ks"]) (simp add: drop_keys_map)
  qed
qed

text \<open>With an error, only rows of the oldest selection can be gone.\<close>

lemma oldest_batch_cached_some:
  assumes "delete_oldest_batch_cached E b s = (r, s')"
  shows "\<exists>V W. (oldest_sel (\<lambda>k e. True) b (tbl (db s)) W \<or> W = {}) \<and> V \<subseteq> W
    \<and> tbl (db s') = remove_keys V (tbl (db s))"
proof -
  obtain q d where sel: "sq_select_oldest E b (db s) = (q, d)" by (cases "sq_select_oldest E b (db s)")
  have td: "tbl d = tbl (db s)" using oldest_pure [of b "db s"] sel by simp
  show ?thesis
  proof (cases "\<exists>ro ks. q = Inr ro \<and> scan_keys (items ro) = Inr ks \<and> iter_err ro = None \<and> close_err ro = None \<and> ks \<noteq> []")
    case True
    then obtain ro ks where q: "q = Inr ro" "scan_keys (items ro) = Inr ks" "iter_err ro = None"
        "close_err ro = None" "ks \<noteq> []" by blast
    have cl: "clean ro" "delivered ro = ks"
      using scan_keys_ok [OF q(2)] q by (auto simp: clean_def delivered_def)
    obtain w d2 where dc: "delete_chunks E (chunks max_delete_params ks) 0 d = (w, d2)" by (metis surj_pair)
    have "db s' = d2" using assms sel q dc
      by (auto simp: delete_oldest_batch_cached_def split: prod.splits option.splits)
    moreover have "concat (chunks max_delete_params ks) = ks"
      by (simp add: concat_chunks max_delete_params_def)
    ultimately obtain V where "V \<subseteq> set ks" "tbl (db s') = remove_keys V (tbl (db s))"
      using delete_chunks_some [OF dc] td by auto
    then show ?thesis using oldest_ok [of b "db s" ro d] sel q cl by blast
  next
    case False
    with assms sel have "db s' = d"
      by (auto simp: delete_oldest_batch_cached_def Let_def split: sum.splits option.splits if_splits)
    with td show ?thesis by (intro exI [of _ "{}"]) auto
  qed
qed

lemma evict_batch_rows:
  assumes "evict_batch E b s = (Inr n, s')"
  shows "\<exists>V. oldest_sel (\<lambda>k e. True) b (tbl (db s)) V \<and> removes V (tbl (db s)) (tbl (db s')) n
    \<and> mget (cache s') = (if caching s then mget (cache s) |` (- V) else mget (cache s))"
proof (cases "caching s")
  case True
  with assms have "delete_oldest_batch_cached E b s = ((n, None), s')"
    by (auto simp: evict_batch_def split: prod.splits option.splits)
  from oldest_batch_cached [OF this] True show ?thesis by auto
next
  case False
  with assms obtain d where "sq_exec E (DeleteOldest b) (db s) = (Inr (Inr n), d)" "s' = s\<lparr>db := d\<rparr>"
    by (auto simp: evict_batch_def split: prod.splits sum.splits)
  with False show ?thesis using exec_ok [of "DeleteOldest b" "db s" "Inr n" d] by auto
qed

lemma evict_batch_some:
  assumes "evict_batch E b s = (r, s')"
  shows "\<exists>V W. (oldest_sel (\<lambda>k e. True) b (tbl (db s)) W \<or> W = {}) \<and> V \<subseteq> W
    \<and> tbl (db s') = remove_keys V (tbl (db s))"
proof (cases "caching s")
  case True
  obtain q s1 where q: "delete_oldest_batch_cached E b s = (q, s1)" by (metis surj_pair)
  with assms True have "s1 = s'" by (auto simp: evict_batch_def split: prod.splits option.splits)
  with oldest_batch_cached_some [of b s q s1] q show ?thesis by simp
next
  case False
  obtain q d where q: "sq_exec E (DeleteOldest b) (db s) = (q, d)" by (metis surj_pair)
  with assms False have d: "db s' = d" by (auto simp: evict_batch_def split: sum.splits)
  from q show ?thesis
  proof (cases rule: exec_result)
    case failed
    with d show ?thesis by (intro exI [of _ "{}"]) simp
  next
    case (succeeded q' n)
    then obtain V where "oldest_sel (\<lambda>k e. True) b (tbl (db s)) V" "removes V (tbl (db s)) (tbl d) n" by auto
    with d show ?thesis by (intro exI [of _ V]) (auto simp: removes_def)
  qed
qed

section \<open>The second loop\<close>

lemma usage_tbl: "usage E s = (r, s') \<Longrightarrow> tbl (db s') = tbl (db s)"
  using page_pure by (auto simp: usage_def store_size_def split: prod.splits sum.splits if_splits)
    (metis snd_conv)+

lemma row_count_tbl: "row_count E s = (r, s') \<Longrightarrow> tbl (db s') = tbl (db s)"
  using count_pure [of "db s"] by (auto simp: row_count_def split: prod.splits sum.splits)

lemma row_count_ok: "row_count E s = (Inr n, s') \<Longrightarrow> n = int (card (dom (tbl (db s))))"
  using count_ok by (auto simp: row_count_def split: prod.splits sum.splits)

text \<open>The bound of a round leaves a row over.\<close>

lemma batch_bound_less:
  assumes "oldest_sel (\<lambda>k e. True) (batch_bound b (int (card (dom (tbl d))))) (tbl d) V" "0 < batch_bound b (int (card (dom (tbl d))))"
  shows "dom (tbl d) - V \<noteq> {}" "int (card V) \<le> b"
proof -
  have fin: "finite (dom (tbl d))" by (rule tbl_finite)
  have V: "V \<subseteq> dom (tbl d)" using assms by (simp add: oldest_sel_def)
  have c: "int (card V) \<le> batch_bound b (int (card (dom (tbl d))))"
    using oldest_sel_card_le [OF assms(1) fin] assms(2) by simp
  then have "card V < card (dom (tbl d))" and "int (card V) \<le> b"
    by (auto simp: batch_bound_def split: if_splits)
  then show "dom (tbl d) - V \<noteq> {}" "int (card V) \<le> b"
    using card_mono [OF finite_subset [OF V fin], of "dom (tbl d)"] by auto
qed

text \<open>What a round removed, and what it tells the loop.\<close>

lemma round_rows:
  assumes "evict_round E limit b s = (q, s')"
  shows "\<exists>V. V \<subseteq> dom (tbl (db s)) \<and> tbl (db s') = remove_keys V (tbl (db s))
    \<and> (V = {} \<or> dom (tbl (db s)) - V \<noteq> {})
    \<and> (case q of Inr n \<Rightarrow> oldest_first (tbl (db s)) V \<and> n = int (card V) \<and> n \<le> b
        | Inl r \<Rightarrow> r = None \<longrightarrow> V = {})"
proof -
  obtain u s1 where u: "usage E s = (u, s1)" by (metis surj_pair)
  obtain c s2 where c: "row_count E s1 = (c, s2)" by (metis surj_pair)
  have t: "tbl (db s1) = tbl (db s)" "tbl (db s2) = tbl (db s)"
    using usage_tbl [OF u] row_count_tbl [OF c] by simp_all
  show ?thesis
  proof (cases "\<exists>sz n. u = Inr sz \<and> limit \<le> sz \<and> c = Inr n \<and> 0 < batch_bound b n")
    case False
    with assms u c t have "tbl (db s') = tbl (db s)" "isl q"
      by (auto simp: evict_round_def not_less not_le split: sum.splits if_splits)
    then show ?thesis by (intro exI [of _ "{}"]) (auto simp: isl_def)
  next
    case True
    then obtain sz n where *: "u = Inr sz" "limit \<le> sz" "c = Inr n" "0 < batch_bound b n" by blast
    have n: "n = int (card (dom (tbl (db s2))))" using row_count_ok [of s1 n s2] c * t by simp
    obtain e where eb: "evict_batch E (batch_bound b n) s2 = (e, s')"
      and q: "q = (case e of Inl x \<Rightarrow> Inl (Some (ErrEvictBatch x)) | Inr m \<Rightarrow> if m = 0 then Inl None else Inr m)"
      using assms u c * by (auto simp: evict_round_def not_less split: sum.splits prod.splits if_splits)
    show ?thesis
    proof (cases e)
      case (Inr m)
      obtain V where V: "oldest_sel (\<lambda>k e. True) (batch_bound b n) (tbl (db s2)) V"
        "removes V (tbl (db s2)) (tbl (db s')) m"
        using evict_batch_rows [of "batch_bound b n" s2 m s'] eb Inr by auto
      have sub: "V \<subseteq> dom (tbl (db s))" using V(1) t by (simp add: oldest_sel_def)
      have m: "m = int (card V)" using removes_dom [OF V(2)] sub t by simp
      have "finite V" using sub tbl_finite finite_subset by blast
      with m have "m = 0 \<Longrightarrow> V = {}" by simp
      then show ?thesis
        using batch_bound_less [of b "db s2" V] V * n sub m q Inr t oldest_sel_first [OF V(1)]
        by (intro exI [of _ V]) (simp add: removes_def)
    next
      case (Inl x)
      from evict_batch_some [OF eb]
      obtain V W where W: "oldest_sel (\<lambda>k e. True) (batch_bound b n) (tbl (db s2)) W \<or> W = {}" "V \<subseteq> W"
        "tbl (db s') = remove_keys V (tbl (db s2))"
        by (elim exE conjE) (rule that)
      have "W \<subseteq> dom (tbl (db s))" using W(1) by (elim disjE) (simp_all add: oldest_sel_def t)
      with W(2) have V: "V \<subseteq> dom (tbl (db s))" by (rule subset_trans)
      have "W = {} \<or> dom (tbl (db s)) - W \<noteq> {}"
        using batch_bound_less(1) [of b "db s2" W] W(1) *(4) by (simp only: n t) fast
      with W(2) have "V = {} \<or> dom (tbl (db s)) - V \<noteq> {}" by blast
      with V show ?thesis using W(3) q Inl t by (intro exI [of _ V]) simp
    qed
  qed
qed

lemma evict_loop_rows:
  assumes "evict_loop E limit b runs n s = ((m, r), s')" "0 \<le> b"
  shows "\<exists>V. V \<subseteq> dom (tbl (db s)) \<and> tbl (db s') = remove_keys V (tbl (db s))
    \<and> (dom (tbl (db s)) \<noteq> {} \<longrightarrow> dom (tbl (db s')) \<noteq> {})
    \<and> (r = None \<longrightarrow> oldest_first (tbl (db s)) V \<and> m = n + int (card V))
    \<and> n \<le> m \<and> m \<le> n + b * int runs"
  using assms(1)
proof (induction runs arbitrary: n s)
  case 0
  then show ?case by (intro exI [of _ "{}"]) simp
next
  case (Suc runs)
  obtain q s1 where q: "evict_round E limit b s = (q, s1)" by (metis surj_pair)
  from round_rows [OF this] obtain V where V: "V \<subseteq> dom (tbl (db s))"
    "tbl (db s1) = remove_keys V (tbl (db s))" "V = {} \<or> dom (tbl (db s)) - V \<noteq> {}"
    "case q of Inr n \<Rightarrow> oldest_first (tbl (db s)) V \<and> n = int (card V) \<and> n \<le> b | Inl r \<Rightarrow> r = None \<longrightarrow> V = {}"
    by blast
  have fin: "finite V" using V(1) tbl_finite finite_subset by blast
  show ?case
  proof (cases q)
    case (Inl e)
    with Suc.prems q have "s' = s1" "m = n" "r = e"
      by (simp_all add: evict_loop_round del: evict_loop.simps)
    with V Inl assms(2) show ?thesis by (intro exI [of _ V]) auto
  next
    case (Inr j)
    with Suc.prems q have "evict_loop E limit b runs (n + j) s1 = ((m, r), s')"
      by (simp add: evict_loop_round del: evict_loop.simps)
    from Suc.IH [OF this] obtain W where W: "W \<subseteq> dom (tbl (db s1))"
      "tbl (db s') = remove_keys W (tbl (db s1))" "dom (tbl (db s1)) \<noteq> {} \<longrightarrow> dom (tbl (db s')) \<noteq> {}"
      "r = None \<longrightarrow> oldest_first (tbl (db s1)) W \<and> m = n + j + int (card W)"
      "n + j \<le> m" "m \<le> n + j + b * int runs"
      by blast
    have "finite W" using W(1) tbl_finite finite_subset by blast
    then have "card (V \<union> W) = card V + card W"
      using W(1) V(2) fin by (intro card_Un_disjoint) auto
    show ?thesis
    proof (intro exI conjI impI)
      show "V \<union> W \<subseteq> dom (tbl (db s))" using V(1,2) W(1) by auto
      show "tbl (db s') = remove_keys (V \<union> W) (tbl (db s))" using V(2) W(2) by (simp add: Un_commute)
      show "dom (tbl (db s')) \<noteq> {}" if "dom (tbl (db s)) \<noteq> {}" using that V(2,3) W(3) by auto
      show "oldest_first (tbl (db s)) (V \<union> W)" if "r = None"
        using V(2,4) W(4) Inr that by (intro oldest_first_compose) simp_all
      show "m = n + int (card (V \<union> W))" if "r = None"
        using V(4) W(4) Inr that \<open>card (V \<union> W) = card V + card W\<close> by simp
      show "n \<le> m" using V(4) W(5) Inr by simp
      show "m \<le> n + b * int (Suc runs)" using V(4) W(6) Inr by (simp add: algebra_simps)
    qed
  qed
qed

text \<open>A round that ends the loop well has a reason to.\<close>

lemma round_done:
  assumes "evict_round E limit b s = (Inl None, s')" "0 < b" "caching s"
  shows "cache_bytes s' < limit \<or> card (dom (tbl (db s'))) \<le> 1"
proof -
  have u: "usage E s = (Inr (cache_bytes s), s)"
    using assms(3) by (simp add: usage_def cache_bytes_of_def)
  obtain c s2 where c: "row_count E s = (c, s2)" by (metis surj_pair)
  have t: "tbl (db s2) = tbl (db s)" using row_count_tbl [OF c] .
  show ?thesis
  proof (cases "cache_bytes s < limit")
    case True
    with assms u show ?thesis by (simp add: evict_round_def)
  next
    case False
    with assms u c obtain n where n: "c = Inr n" by (auto simp: evict_round_def split: sum.splits)
    with row_count_ok [of s n s2] c have cnt: "n = int (card (dom (tbl (db s))))" by simp
    show ?thesis
    proof (cases "0 < batch_bound b n")
      case nonpos: False
      with assms u c n False have "s' = s2" by (simp add: evict_round_def not_less)
      with nonpos cnt t \<open>0 < b\<close> show ?thesis by (auto simp: batch_bound_def not_less split: if_splits)
    next
      case pos: True
      have "evict_batch E (batch_bound b n) s2 = (Inr 0, s')"
        using assms u c n False pos by (auto simp: evict_round_def split: sum.splits prod.splits if_splits)
      from evict_batch_rows [OF this] obtain V where
        V: "oldest_sel (\<lambda>k e. True) (batch_bound b n) (tbl (db s2)) V" "removes V (tbl (db s2)) (tbl (db s')) 0"
        by blast
      have sub: "V \<subseteq> dom (tbl (db s2))" using V(1) by (simp add: oldest_sel_def)
      with removes_dom [OF V(2)] have "card V = 0" by simp
      with V(1) pos have "card (dom (tbl (db s2))) = 0" by (auto simp: oldest_sel_def sql_limit_def)
      with pos cnt t show ?thesis by (simp add: batch_bound_def split: if_splits)
    qed
  qed
qed

lemma evict_loop_done:
  assumes "evict_loop E limit b runs n s = ((m, None), s')" "0 < b" "caching s"
  shows "cache_bytes s' < limit \<or> card (dom (tbl (db s'))) \<le> 1 \<or> n + int runs \<le> m"
  using assms(1,3)
proof (induction runs arbitrary: n s)
  case (Suc runs)
  obtain q s1 where q: "evict_round E limit b s = (q, s1)" by (metis surj_pair)
  show ?case
  proof (cases q)
    case (Inl e)
    with Suc.prems q have "s' = s1" "e = None" by (simp_all add: evict_loop_round del: evict_loop.simps)
    then show ?thesis using round_done [of limit b s s1] q Inl Suc.prems assms(2) by auto
  next
    case (Inr j)
    with Suc.prems q have l: "evict_loop E limit b runs (n + j) s1 = ((m, None), s')"
      by (simp add: evict_loop_round del: evict_loop.simps)
    have "j \<noteq> 0" using q Inr
      by (auto simp: evict_round_def split: sum.splits prod.splits if_splits)
    moreover have "0 \<le> j" using round_rows [OF q] Inr by auto
    moreover have "caching s1"
      using same_shell_caching [OF evict_round_shell [OF q]] Suc.prems by simp
    ultimately show ?thesis using Suc.IH [OF l] by auto
  qed
qed simp

section \<open>The sweep\<close>

lemma oldest_sel_unlimited: "V = matched P (tbl d) \<Longrightarrow> oldest_sel P (- 1) (tbl d) V"
  by (simp add: oldest_sel_def sql_limit_def)

lemma delete_expired_rows:
  assumes "delete_expired E rng now limit s = ((n, r), s')"
  defines "x \<equiv> rfc3339 now"
  shows "\<exists>V. oldest_sel (\<lambda>k e. e < x) (if 0 < limit then limit else - 1) (tbl (db s)) V
      \<and> (tbl (db s') = remove_keys V (tbl (db s)) \<and> (r = None \<longrightarrow> n = int (card V))
        \<or> tbl (db s') = tbl (db s) \<and> r \<noteq> None)
      \<and> (r \<noteq> None \<longrightarrow> n = 0)
    \<or> matched (\<lambda>k e. e < x) (tbl (db s)) = {} \<and> tbl (db s') = tbl (db s) \<and> n = 0 \<and> r = None
    \<or> tbl (db s') = tbl (db s) \<and> n = 0 \<and> r \<noteq> None"
proof -
  define s1 where "s1 = (if caching s then purge_expired now (rng (mentries (cache s))) s else s)"
  have db1: "db s1 = db s" by (simp add: s1_def)
  have sw: "sweep_rows E x limit s1 = ((n, r), s')"
    using assms(1) by (simp add: delete_expired_def s1_def x_def)
  obtain p d where p: "sq_probe_before E x (db s) = (p, d)" by (metis surj_pair)
  have td: "tbl d = tbl (db s)" using probe_pure [of x "db s"] p by simp
  consider (fault) e where "p = Inl e" | (none) "p = Inr False" | (some) "p = Inr True"
    by (cases p) auto
  then show ?thesis
  proof cases
    case fault
    with sw p db1 td show ?thesis by (simp add: sweep_rows_def) auto
  next
    case none
    with probe_ok [of x "db s" False d] p have "matched (\<lambda>k e. e < x) (tbl (db s)) = {}" by simp
    with none sw p db1 td show ?thesis by (simp add: sweep_rows_def) auto
  next
    case some
    define st where "st = (if 0 < limit then DeleteBeforeLimit x limit else DeleteBefore x)"
    obtain q d2 where q: "sq_exec E st d = (q, d2)" by (metis surj_pair)
    have s': "db s' = d2" "n = (case q of Inr (Inr m) \<Rightarrow> m | _ \<Rightarrow> 0)" "r = None \<longleftrightarrow> (\<exists>m. q = Inr (Inr m))"
      using sw p some db1 q by (auto simp: sweep_rows_def st_def split: sum.splits)
    from q show ?thesis
    proof (cases rule: exec_result)
      case failed
      with s' td show ?thesis by auto
    next
      case (succeeded q' m)
      then obtain V where V: "oldest_sel (\<lambda>k e. e < x) (if 0 < limit then limit else - 1) (tbl (db s)) V"
        "removes V (tbl (db s)) (tbl d2) m"
        using oldest_sel_unlimited [OF refl] td by (auto simp: st_def split: if_splits)
      have "V \<subseteq> dom (tbl (db s))" using V(1) matched_subset [of _ "tbl (db s)"] by (auto simp: oldest_sel_def)
      with removes_dom [OF V(2)] have "m = int (card V)" by simp
      then show ?thesis using V s' succeeded by (auto simp: removes_def split: sum.splits)
    qed
  qed
qed

lemma delete_expired_shrinks:
  assumes "delete_expired E rng now limit s = ((n, r), s')"
  shows "\<exists>V \<subseteq> matched (\<lambda>k e. e < rfc3339 now) (tbl (db s)). tbl (db s') = remove_keys V (tbl (db s))"
proof -
  from delete_expired_rows [OF assms]
  consider (swept) V where "oldest_sel (\<lambda>k e. e < rfc3339 now) (if 0 < limit then limit else - 1) (tbl (db s)) V"
      "tbl (db s') = remove_keys V (tbl (db s))"
    | (kept) "tbl (db s') = tbl (db s)"
    by (elim disjE exE conjE) (erule (1) that(1) | erule that(2))+
  then show ?thesis
  proof cases
    case swept
    then show ?thesis by (intro exI [of _ V]) (simp add: oldest_sel_def)
  next
    case kept
    then show ?thesis by (intro exI [of _ "{}"]) simp
  qed
qed

lemma evict_oldest_db_rows:
  assumes "\<not> caching s" and "evict_oldest E rng limit batch max_runs s = ((n, r), s')"
  shows "\<exists>V \<subseteq> dom (tbl (db s)). tbl (db s') = remove_keys V (tbl (db s))
    \<and> (dom (tbl (db s)) \<noteq> {} \<longrightarrow> dom (tbl (db s')) \<noteq> {})
    \<and> (r = None \<longrightarrow> oldest_first (tbl (db s)) V \<and> n = int (card V))
    \<and> 0 \<le> n \<and> n \<le> max 0 batch * max 0 max_runs"
  using assms(2)
proof (cases rule: evict_oldest_cases)
  case args
  then show ?thesis by (intro exI [of _ "{}"]) auto
next
  case (loops n' s1)
  with assms(1) have "evict_loop E limit batch (nat max_runs) 0 s = ((n, r), s')" by simp
  from evict_loop_rows [OF this] loops show ?thesis by auto
qed (use assms(1) in simp)

end

section \<open>The purge of volatile entries, exactly\<close>

definition volatile_keys :: "'db store \<Rightarrow> key set" where
  "volatile_keys s = fst ` set (filter (\<lambda>(k, e). volatile e) (mentries (cache s)))"

definition entry_expiry :: "'db store \<Rightarrow> key \<Rightarrow> int" where
  "entry_expiry s k = (case mget (cache s) k of None \<Rightarrow> 0 | Some e \<Rightarrow> ns (expires_at e))"

text \<open>The rows a purge of the keys \<open>V\<close> deletes: not newer, as text, than the entry in memory.\<close>

definition shadowed :: "table \<Rightarrow> (key \<Rightarrow> entry option) \<Rightarrow> key set \<Rightarrow> key set" where
  "shadowed t c V = {k \<in> V. \<exists>v x e. t k = Some (v, x) \<and> c k = Some e \<and> x \<le> rfc3339 (expires_at e)}"

lemma volatile_keys_iff: "k \<in> volatile_keys s \<longleftrightarrow> (\<exists>e. mget (cache s) k = Some e \<and> volatile e)"
  by (auto simp: volatile_keys_def mget_entries image_iff)

lemma volatile_victims_take:
  "volatile_victims b es = take (nat b) (sort_key (\<lambda>(k, e). ns (expires_at e)) (filter (\<lambda>(k, e). volatile e) es))"
  by (auto simp: volatile_victims_def Let_def not_less)

lemma volatile_victims_exact:
  fixes s :: "'db store" and b :: int
  assumes "range_order rng"
  defines "vs \<equiv> volatile_victims b (rng (mentries (cache s)))"
  shows "distinct (map fst vs)" "(k, e) \<in> set vs \<Longrightarrow> mget (cache s) k = Some e \<and> volatile e"
    "length vs = min (nat b) (card (volatile_keys s))"
    "k \<in> fst ` set vs \<Longrightarrow> k' \<in> volatile_keys s - fst ` set vs \<Longrightarrow> entry_expiry s k \<le> entry_expiry s k'"
proof -
  define fs where "fs = filter (\<lambda>(k, e). volatile e) (rng (mentries (cache s)))"
  define rs where "rs = sort_key (\<lambda>(k, e). ns (expires_at e)) fs"
  have vs: "vs = take (nat b) rs" by (simp add: vs_def volatile_victims_take rs_def fs_def)
  have rs: "(k, e) \<in> set rs \<longleftrightarrow> mget (cache s) k = Some e \<and> volatile e" for k e
    using range_order_set [OF assms(1)] by (auto simp: rs_def fs_def mget_entries)
  have "distinct (map fst (rng (mentries (cache s))))"
    using range_order_distinct [OF assms(1), of fst] by simp
  then have "distinct (map fst fs)" unfolding fs_def by (rule distinct_map_filter)
  moreover have "mset (map fst rs) = mset (map fst fs)" by (simp add: rs_def)
  ultimately have dis: "distinct (map fst rs)" using mset_eq_imp_distinct_iff by blast
  then show "distinct (map fst vs)" unfolding vs by (metis distinct_take take_map)
  show "(k, e) \<in> set vs \<Longrightarrow> mget (cache s) k = Some e \<and> volatile e" for k e
    using rs unfolding vs by (blast dest: in_set_takeD)
  have keys: "set (map fst rs) = volatile_keys s"
    by (rule set_eqI) (simp only: volatile_keys_iff rs [symmetric], force)
  show "length vs = min (nat b) (card (volatile_keys s))"
    using distinct_card [OF dis] unfolding vs keys [symmetric] by simp
  have sorted: "sorted (map (\<lambda>(k, e). ns (expires_at e)) (take (nat b) rs)
      @ map (\<lambda>(k, e). ns (expires_at e)) (drop (nat b) rs))"
    by (simp add: rs_def flip: map_append)
  have expiry: "entry_expiry s k = ns (expires_at e)" if "(k, e) \<in> set rs" for k e
    using that by (simp add: rs entry_expiry_def)
  assume k: "k \<in> fst ` set vs" "k' \<in> volatile_keys s - fst ` set vs"
  obtain e where e: "(k, e) \<in> set (take (nat b) rs)" using k(1) vs by auto
  obtain e' where e': "(k', e') \<in> set rs" "(k', e') \<notin> set (take (nat b) rs)"
    using k(2) unfolding keys [symmetric] vs by force
  then have d: "(k', e') \<in> set (drop (nat b) rs)"
    by (metis Un_iff append_take_drop_id set_append)
  have "ns (expires_at e) \<le> ns (expires_at e')"
    using sorted_append [THEN iffD1, OF sorted] imageI [OF e, of "\<lambda>(k, e). ns (expires_at e)"]
      imageI [OF d, of "\<lambda>(k, e). ns (expires_at e)"] by (simp only: set_map prod.case)
  with expiry [OF in_set_takeD [OF e]] expiry [OF e'(1)]
  show "entry_expiry s k \<le> entry_expiry s k'" by simp
qed

lemma drop_victims_exact:
  assumes "drop_victims vs n s = (m, s')" "distinct (map fst vs)"
    "\<And>k e. (k, e) \<in> set vs \<Longrightarrow> mget (cache s) k = Some e \<and> volatile e"
  shows "m = n + int (length vs) \<and> mget (cache s') = mget (cache s) |` (- fst ` set vs)"
  using assms
proof (induction vs arbitrary: n s)
  case Nil
  then show ?case by simp
next
  case (Cons w vs)
  obtain k e where w: "w = (k, e)" by (cases w)
  have cur: "mget (cache s) k = Some e" "volatile e" using Cons.prems(3) [of k e] w by simp_all
  let ?s = "cache_drop k e s"
  have d: "drop_victims vs (n + 1) ?s = (m, s')" using Cons.prems(1) cur w by (simp add: time_equal_def)
  have dis: "distinct (map fst vs)" "k \<notin> fst ` set vs" using Cons.prems(2) w by simp_all
  have "mget (cache ?s) k' = Some e' \<and> volatile e'" if "(k', e') \<in> set vs" for k' e'
  proof -
    have "k' \<noteq> k" using dis(2) that by force
    with Cons.prems(3) [of k' e'] that show ?thesis by simp
  qed
  with Cons.IH [OF d dis(1)]
  have "m = n + 1 + int (length vs)" "mget (cache s') = mget (cache ?s) |` (- fst ` set vs)" by blast+
  then show ?case by (auto simp: w fun_eq_iff restrict_map_def)
qed

context sql_engine
begin

lemma delete_shadows_exact:
  assumes "delete_shadows E vs d = (r, d')" "\<And>k e. (k, e) \<in> set vs \<Longrightarrow> c k = Some e"
  shows "\<exists>V \<subseteq> shadowed (tbl d) c (fst ` set vs). tbl d' = remove_keys V (tbl d)
    \<and> (r = None \<longrightarrow> V = shadowed (tbl d) c (fst ` set vs))"
  using assms
proof (induction vs arbitrary: d)
  case Nil
  then show ?case by (auto simp: shadowed_def)
next
  case (Cons w vs)
  obtain k e where w: "w = (k, e)" by (cases w)
  with Cons.prems(2) have c: "c k = Some e" by simp
  obtain q d1 where q: "sq_exec E (DeleteKeyUpTo k (rfc3339 (expires_at e))) d = (q, d1)" by (metis surj_pair)
  from q show ?case
  proof (cases rule: exec_result)
    case failed
    with Cons.prems q w show ?thesis by (intro exI [of _ "{}"]) auto
  next
    case (succeeded q' n)
    let ?W = "shadowed (tbl d) c {k}"
    have "matched (\<lambda>k' x. k' = k \<and> x \<le> rfc3339 (expires_at e)) (tbl d) = ?W"
      by (auto simp: matched_def shadowed_def c)
    then have td: "tbl d1 = remove_keys ?W (tbl d)" using succeeded by (simp add: removes_def)
    have "delete_shadows E vs d1 = (r, d')" using Cons.prems(1) q w succeeded by simp
    from Cons.IH [OF this] Cons.prems(2) obtain V where V: "V \<subseteq> shadowed (tbl d1) c (fst ` set vs)"
      "tbl d' = remove_keys V (tbl d1)" "r = None \<longrightarrow> V = shadowed (tbl d1) c (fst ` set vs)"
      by auto
    have "shadowed (tbl d1) c (fst ` set vs) \<union> ?W = shadowed (tbl d) c (fst ` set (w # vs))"
      by (auto simp: td w shadowed_def remove_keys_apply)
    with V td show ?thesis by (intro exI [of _ "V \<union> ?W"]) auto
  qed
qed

lemma purge_batch_exact:
  assumes "purge_volatile_batch E rng b s = (r, s')" "range_order rng"
  defines "V \<equiv> fst ` set (volatile_victims b (rng (mentries (cache s))))"
  shows "\<exists>W \<subseteq> shadowed (tbl (db s)) (mget (cache s)) V. tbl (db s') = remove_keys W (tbl (db s))
    \<and> (case r of Inl x \<Rightarrow> mget (cache s') = mget (cache s)
       | Inr n \<Rightarrow> n = int (card V) \<and> mget (cache s') = mget (cache s) |` (- V)
           \<and> W = shadowed (tbl (db s)) (mget (cache s)) V)"
proof -
  let ?vs = "volatile_victims b (rng (mentries (cache s)))"
  note vs = volatile_victims_exact [OF assms(2), where s = s and b = b]
  have card: "card V = length ?vs" using distinct_card [OF vs(1)] by (simp add: V_def)
  obtain q d where d: "delete_shadows E ?vs (db s) = (q, d)" by (metis surj_pair)
  obtain W where W: "W \<subseteq> shadowed (tbl (db s)) (mget (cache s)) V" "tbl d = remove_keys W (tbl (db s))"
    "q = None \<longrightarrow> W = shadowed (tbl (db s)) (mget (cache s)) V"
    using delete_shadows_exact [OF d, of "mget (cache s)"] vs(2) unfolding V_def by blast
  show ?thesis
  proof (cases "?vs = []")
    case True
    with assms(1) show ?thesis
      by (intro exI [of _ "{}"]) (auto simp: purge_volatile_batch_def V_def shadowed_def restrict_map_def)
  next
    case ne: False
    show ?thesis
    proof (cases q)
      case (Some x)
      with assms(1) ne d W show ?thesis by (auto simp: purge_volatile_batch_def)
    next
      case None
      obtain n s1 where v: "drop_victims ?vs 0 (s\<lparr>db := d\<rparr>) = (n, s1)" by (metis surj_pair)
      with assms(1) ne d None have "r = Inr n" "s' = s1" by (simp_all add: purge_volatile_batch_def)
      with drop_victims_exact [OF v vs(1)] vs(2) drop_victims_shell [OF v] W None card
      show ?thesis by (auto simp: V_def)
    qed
  qed
qed

end

section \<open>Properties\<close>

text \<open>C13: In the mode without a memory layer \<open>EvictOldest\<close> removes rows oldest first
  (by the text of \<open>expires_at\<close>), reports how many it removed, removes at most
  \<open>batch * maxRuns\<close> of them and never the last row, whatever fails on the way.\<close>

theorem evict_oldest_rows:
  assumes "sql_engine E tbl pend" and "\<not> caching s"
    and "evict_oldest E rng limit batch max_runs s = ((n, r), s')"
  shows "\<exists>V \<subseteq> dom (tbl (db s)). tbl (db s') = remove_keys V (tbl (db s))
    \<and> (dom (tbl (db s)) \<noteq> {} \<longrightarrow> dom (tbl (db s')) \<noteq> {})
    \<and> (r = None \<longrightarrow> oldest_first (tbl (db s)) V \<and> n = int (card V))
    \<and> 0 \<le> n \<and> n \<le> max 0 batch * max 0 max_runs"
  by (rule sql_engine.evict_oldest_db_rows [OF assms])

text \<open>Three rows over the reference engine, with the given memory limit.\<close>

definition sample_rows :: "int \<Rightarrow> ref_db store" where
  "sample_rows limit =
     snd (put ref_engine utc (sample_time 0) ''c'' ''3'' (3 * second)
     (snd (put ref_engine utc (sample_time 0) ''a'' ''1'' (1 * second)
     (snd (put ref_engine utc (sample_time 0) ''b'' ''2'' (2 * second) (sample_store limit []))))))"

theorem evict_oldest_rows_witness:
  "oldest_first (ref_tbl (db (sample_rows 0))) {''a'', ''b''} \<or>
    (\<exists>V. oldest_first (ref_tbl (db (sample_rows 0))) V \<and> card V = 2)"
proof -
  have "fst (evict_oldest ref_engine (\<lambda>i xs. xs) 1 2 5 (sample_rows 0)) = (2, None)" by code_simp
  then obtain s' where "evict_oldest ref_engine (\<lambda>i xs. xs) 1 2 5 (sample_rows 0) = ((2, None), s')"
    by (metis prod.collapse)
  moreover have "\<not> caching (sample_rows 0)" by code_simp
  ultimately show ?thesis using evict_oldest_rows [OF ref.sql_engine_axioms] by fastforce
qed

lemma evict_cached_within:
  assumes "sql_engine E tbl pend" and "caching s"
    and "evict_oldest E rng limit batch max_runs s = ((n, None), s')" and "store_wf s"
  shows "cache_bytes s' = msum entry_size (cache s') \<and>
    (cache_bytes s' < limit \<or> card (dom (tbl (db s'))) \<le> 1 \<or> max_runs \<le> n)"
  using assms(3)
proof (cases rule: evict_oldest_cases)
  case (loops n' s1)
  with assms(2) have p: "purge_loop E rng limit batch (nat max_runs) 0 s = ((n', None), s1)" by simp
  have "store_wf s'" using evict_oldest_wf assms(3,4) by blast
  moreover have "caching s1" using same_shell_caching [OF purge_loop_shell [OF p]] assms(2) by simp
  moreover have "0 \<le> n'" using purge_loop_count [OF p] loops(1) by simp
  ultimately show ?thesis
    using sql_engine.evict_loop_done [OF assms(1) loops(3) loops(1)] loops(2) by (auto simp: store_wf_def)
qed simp_all

text \<open>After an eviction with a memory layer that reports no error the cache is below
  the limit, or at most one row is left, or as many rows as runs were removed.\<close>

theorem evict_oldest_cached_done:
  assumes "sql_engine E tbl pend" and "caching s"
    and "evict_oldest E rng limit batch max_runs s = ((n, None), s')" and "store_wf s"
  shows "cache_bytes s' = msum entry_size (cache s') \<and>
    (cache_bytes s' < limit \<or> card (dom (tbl (db s'))) \<le> 1 \<or> max_runs \<le> n)"
  by (rule evict_cached_within [OF assms])

theorem evict_oldest_cached_done_witness:
  "cache_bytes (snd (evict_oldest ref_engine (\<lambda>i xs. xs) 150 2 5 (sample_rows 1000))) < 150 \<or>
    card (dom (ref_tbl (db (snd (evict_oldest ref_engine (\<lambda>i xs. xs) 150 2 5 (sample_rows 1000)))))) \<le> 1"
proof -
  have "fst (evict_oldest ref_engine (\<lambda>i xs. xs) 150 2 5 (sample_rows 1000)) = (2, None)" by code_simp
  then obtain s' where s': "evict_oldest ref_engine (\<lambda>i xs. xs) 150 2 5 (sample_rows 1000) = ((2, None), s')"
    by (metis prod.collapse)
  have "caching (sample_rows 1000)" by code_simp
  moreover have "store_wf (sample_rows 1000)" unfolding sample_rows_def put_def by (intro put_wf) simp
  ultimately show ?thesis using evict_oldest_cached_done [OF ref.sql_engine_axioms _ s'] s' by auto
qed

text \<open>An eviction changes nothing when there is nothing to do: invalid arguments are
  reported as an error, and a cache below the limit ends it at once.\<close>

theorem evict_oldest_noop:
  "(batch \<le> 0 \<or> max_runs \<le> 0 \<longrightarrow> evict_oldest E rng limit batch max_runs s = ((0, Some ErrEvictArgs), s))
    \<and> (0 < batch \<and> 0 < max_runs \<and> caching s \<and> cache_bytes s < limit \<longrightarrow>
      evict_oldest E rng limit batch max_runs s = ((0, None), s))"
proof -
  have "evict_oldest E rng limit batch max_runs s = ((0, None), s)"
    if pos: "0 < batch" "0 < max_runs" "caching s" "cache_bytes s < limit"
  proof -
    obtain m where "nat max_runs = Suc m" using pos(2) by (cases "nat max_runs") auto
    then show ?thesis using pos by (simp add: evict_oldest_def cache_bytes_of_def usage_def)
  qed
  then show ?thesis by (auto simp: evict_oldest_def)
qed

theorem evict_oldest_noop_witness:
  "evict_oldest ref_engine (\<lambda>i xs. xs) 1000 2 0 (sample_store 1000 []) = ((0, Some ErrEvictArgs), sample_store 1000 [])"
  using evict_oldest_noop [of 2 0 ref_engine "\<lambda>i xs. xs" 1000 "sample_store 1000 []"] by simp

text \<open>C14: A sweep that succeeds has purged exactly the expired entries from memory and deleted
  oldest rows among those whose text is before the clock's: all of them without a limit,
  at most \<open>limit\<close> with one, as many as it reports. One that fails reports none, and no
  other row is ever touched.\<close>

theorem sweep_exact:
  assumes "sql_engine E tbl pend" and "range_order rng" and "caching s"
    and "delete_expired E rng now limit s = ((n, r), s')"
  shows "(\<forall>k. mget (cache s') k = (case mget (cache s) k of None \<Rightarrow> None
      | Some e \<Rightarrow> if after now (expires_at e) then None else Some e)) \<and>
    (\<exists>V. V \<subseteq> matched (\<lambda>k e. e < rfc3339 now) (tbl (db s)) \<and> tbl (db s') = remove_keys V (tbl (db s))
      \<and> (if r = None
         then n = int (card V) \<and> oldest_sel (\<lambda>k e. e < rfc3339 now) (if 0 < limit then limit else - 1) (tbl (db s)) V
         else n = 0))"
proof -
  let ?P = "\<lambda>k e. e < rfc3339 now" and ?m = "if 0 < limit then limit else - 1"
  have sub: "oldest_sel ?P ?m (tbl (db s)) V \<Longrightarrow> V \<subseteq> matched ?P (tbl (db s))" for V
    by (simp add: oldest_sel_def)
  have none: "matched ?P (tbl (db s)) = {} \<Longrightarrow> oldest_sel ?P ?m (tbl (db s)) {}"
    by (simp add: oldest_sel_def sql_limit_def)
  have "\<exists>V. V \<subseteq> matched ?P (tbl (db s)) \<and> tbl (db s') = remove_keys V (tbl (db s))
      \<and> (if r = None then n = int (card V) \<and> oldest_sel ?P ?m (tbl (db s)) V else n = 0)"
    using sql_engine.delete_expired_rows [OF assms(1,4)]
  proof (elim disjE exE conjE)
    fix V assume "oldest_sel ?P ?m (tbl (db s)) V" "r \<noteq> None \<longrightarrow> n = 0"
      "tbl (db s') = remove_keys V (tbl (db s))" "r = None \<longrightarrow> n = int (card V)"
    with sub show ?thesis by (intro exI [of _ V]) simp
  next
    fix V assume "r \<noteq> None" "r \<noteq> None \<longrightarrow> n = 0" "tbl (db s') = tbl (db s)"
    then show ?thesis by (intro exI [of _ "{}"]) (simp add: if_not_P)
  next
    assume "matched ?P (tbl (db s)) = {}" "tbl (db s') = tbl (db s)" "n = 0" "r = None"
    with none show ?thesis by (intro exI [of _ "{}"]) simp
  next
    assume "tbl (db s') = tbl (db s)" "n = 0" "r \<noteq> None"
    then show ?thesis by (intro exI [of _ "{}"]) (simp add: if_not_P)
  qed
  moreover have "\<forall>k. mget (cache s') k = (case mget (cache s) k of None \<Rightarrow> None
      | Some e \<Rightarrow> if after now (expires_at e) then None else Some e)"
    by (intro allI) (rule delete_expired_cache [OF assms(4,3,2)])
  ultimately show ?thesis by blast
qed

theorem sweep_exact_witness:
  "mget (cache (snd (delete_expired ref_engine (\<lambda>xs. xs) (sample_time 2) 1 (sample_rows 1000)))) ''a'' = None"
proof -
  have c: "caching (sample_rows 1000)" by code_simp
  have a: "map_option (after (sample_time 2) \<circ> expires_at) (mget (cache (sample_rows 1000)) ''a'') = Some True" by code_simp
  obtain n r s' where d: "delete_expired ref_engine (\<lambda>xs. xs) (sample_time 2) 1 (sample_rows 1000) = ((n, r), s')"
    by (metis prod.collapse)
  from sweep_exact [OF ref.sql_engine_axioms range_order_id(1) c d] a d show ?thesis
    by (auto split: option.splits if_splits)
qed

text \<open>One row, under a memory-mode write of the same key.\<close>

definition shadow_store :: "ref_db store" where
  "shadow_store = snd (put_with_mode ref_engine utc (sample_time 0) ''k'' ''new'' (5 * second) PutMemory
     (snd (put ref_engine utc (sample_time 0) ''k'' ''old'' second (sample_store 1000 []))))"

text \<open>C15: The purge of volatile entries, exactly. One batch picks as many volatile entries as
  the batch allows or as there are, earliest expiry first. When it reports success it
  counts the picked keys, drops exactly them from memory, and deletes of the durable rows
  exactly those under picked keys whose expiry text is not after the entry's; no row is
  spared for being the last, so a table whose rows all lie under picked entries is empty
  afterwards. When a statement fails, memory is as it was and only such rows are gone.
  The dirty set and the pending deletes are left alone either way.\<close>

theorem volatile_purge_exact:
  assumes "sql_engine E tbl pend" and "range_order rng" and "0 < batch"
    and "purge_volatile_batch E rng batch s = (r, s')"
  shows "\<exists>V W. V \<subseteq> volatile_keys s \<and> card V = min (nat batch) (card (volatile_keys s))
    \<and> (\<forall>k\<in>V. \<forall>k'\<in>volatile_keys s - V. entry_expiry s k \<le> entry_expiry s k')
    \<and> W \<subseteq> shadowed (tbl (db s)) (mget (cache s)) V \<and> tbl (db s') = remove_keys W (tbl (db s))
    \<and> (case r of Inl x \<Rightarrow> mget (cache s') = mget (cache s)
       | Inr n \<Rightarrow> n = int (card V) \<and> mget (cache s') = mget (cache s) |` (- V)
           \<and> W = shadowed (tbl (db s)) (mget (cache s)) V)
    \<and> dirty s' = dirty s \<and> background s' = background s"
proof -
  let ?vs = "volatile_victims batch (rng (mentries (cache s)))"
  note vs = volatile_victims_exact [OF assms(2), where s = s and b = batch]
  have "fst ` set ?vs \<subseteq> volatile_keys s" using vs(2) by (auto simp: volatile_keys_iff)
  moreover have "card (fst ` set ?vs) = min (nat batch) (card (volatile_keys s))"
    using distinct_card [OF vs(1)] vs(3) by simp
  moreover have "\<forall>k\<in>fst ` set ?vs. \<forall>k'\<in>volatile_keys s - fst ` set ?vs. entry_expiry s k \<le> entry_expiry s k'"
    using vs(4) by blast
  moreover have "dirty s' = dirty s \<and> background s' = background s"
    using same_shellD [OF purge_volatile_shell [OF assms(4)]] by simp
  ultimately show ?thesis using sql_engine.purge_batch_exact [OF assms(1,4,2)] by blast
qed

theorem volatile_purge_exact_witness:
  "dom (ref_tbl (db shadow_store)) = {''k''}
    \<and> dom (ref_tbl (db (snd (purge_volatile_batch ref_engine (\<lambda>xs. xs) 10 shadow_store)))) = {}"
proof -
  let ?p = "purge_volatile_batch ref_engine (\<lambda>xs. xs) 10 shadow_store"
  have s: "mkeys (rtab (db shadow_store)) = [''k'']" "volatile_keys shadow_store = {''k''}"
    "\<not> isl (fst ?p)" "ref_tbl (db shadow_store) ''k'' = Some (''old'', rfc3339 (sample_time 1))"
    "mget (cache shadow_store) ''k'' = Some \<lparr>val = ''new'', expires_at = sample_time 5, volatile = True\<rparr>"
    "rfc3339 (sample_time 1) \<le> rfc3339 (sample_time 5)" by code_simp+
  have d: "dom (ref_tbl (db shadow_store)) = {''k''}" using s(1) by (simp add: ref_tbl_def dom_mget)
  obtain n where n: "fst ?p = Inr n" using s(3) by (cases "fst ?p") simp_all
  then have "?p = (Inr n, snd ?p)" by (metis prod.collapse)
  from volatile_purge_exact [OF ref.sql_engine_axioms _ _ this] s(2)
  obtain V where V: "V \<subseteq> {''k''}" "card V = 1"
    "ref_tbl (db (snd ?p)) = remove_keys (shadowed (ref_tbl (db shadow_store)) (mget (cache shadow_store)) V) (ref_tbl (db shadow_store))"
    by auto
  then have "V = {''k''}" using subset_singletonD [OF V(1)] by auto
  then have "shadowed (ref_tbl (db shadow_store)) (mget (cache shadow_store)) V = {''k''}"
    using s(4-6) by (auto simp: shadowed_def)
  with V(3) d show ?thesis by simp
qed

end
