(* ===== verification/Time_Order.thy ===== *)
theory Time_Order
  imports Go_Time
begin

text \<open>
  SQLite compares \<open>expires_at\<close> as text, byte by byte (\<open>BINARY\<close> collation), while
  the program compares the same expiries as instants. This theory says when the
  two orders agree: on whole seconds at one offset they do
  (\<open>text_order_whole_seconds\<close>). With trimmed fractions, or across two offsets,
  they do not; the store theories show what follows from that.
\<close>

section \<open>Comparing fixed-width text\<close>

lemma list_less_append:
  fixes a b :: "'a::linorder list"
  assumes "length a = length b"
  shows "a @ x < b @ y \<longleftrightarrow> a < b \<or> a = b \<and> x < y"
  using assms
proof (induction a b rule: list_induct2)
  case (Cons p a q b)
  then show ?case by (auto simp: Cons_less_Cons)
qed simp

lemma digit_char_less:
  assumes "m < 10" "n < 10"
  shows "digit_char m < digit_char n \<longleftrightarrow> m < n" "digit_char m = digit_char n \<longleftrightarrow> m = n"
proof -
  have of: "of_char (digit_char k) = 48 + k" if "k < 10" for k :: nat
    using that by (simp add: digit_char_def of_char_of)
  show "digit_char m < digit_char n \<longleftrightarrow> m < n"
    unfolding less_char_def using of [OF assms(1)] of [OF assms(2)] by simp
  show "digit_char m = digit_char n \<longleftrightarrow> m = n"
    using of [OF assms(1)] of [OF assms(2)] by (metis add_left_cancel)
qed

lemma digit_char_mod: "digit_char (n mod 10) = digit_char n"
  by (simp add: digit_char_def)

lemma pad_eq: "m < 10 ^ w \<Longrightarrow> n < 10 ^ w \<Longrightarrow> pad w m = pad w n \<longleftrightarrow> m = n"
  by (metis num_pad)

lemma div_mod_less:
  fixes m n k :: nat
  assumes "0 < k"
  shows "m div k < n div k \<or> m div k = n div k \<and> m mod k < n mod k \<longleftrightarrow> m < n"
proof (cases "m div k = n div k")
  case True
  then have "m < n \<longleftrightarrow> m mod k < n mod k"
    by (metis div_mult_mod_eq nat_add_left_cancel_less)
  with True show ?thesis by simp
next
  case False
  have "m div k < n div k \<longleftrightarrow> m < n"
    using False by (metis div_le_mono leD leI le_neq_implies_less nless_le)
  then show ?thesis using False by simp
qed

lemma pad_less: "m < 10 ^ w \<Longrightarrow> n < 10 ^ w \<Longrightarrow> pad w m < pad w n \<longleftrightarrow> m < n"
proof (induction w arbitrary: m n)
  case (Suc w)
  have d: "m div 10 < 10 ^ w" "n div 10 < 10 ^ w"
    using Suc.prems by (simp_all add: div_less_iff_less_mult)
  have last: "digit_char m < digit_char n \<longleftrightarrow> m mod 10 < n mod 10"
    using digit_char_less [of "m mod 10" "n mod 10"] by (simp add: digit_char_mod)
  have "pad (Suc w) m < pad (Suc w) n
      \<longleftrightarrow> m div 10 < n div 10 \<or> m div 10 = n div 10 \<and> m mod 10 < n mod 10"
    using Suc.IH [OF d] pad_eq [OF d] last by (simp add: list_less_append)
  then show ?case by (simp only: div_mod_less)
qed simp

text \<open>One padded field and the rest of the text.\<close>

lemma pad_field_less:
  assumes "0 \<le> m" "m < 10 ^ w" "0 \<le> n" "n < 10 ^ w"
  shows "pad w (nat m) @ x < pad w (nat n) @ y \<longleftrightarrow> m < n \<or> m = n \<and> x < y"
proof -
  have b: "nat m < 10 ^ w" "nat n < 10 ^ w" using assms by (simp_all add: nat_less_iff)
  show ?thesis
    using pad_less [OF b] pad_eq [OF b] assms(1,3) by (simp add: list_less_append) linarith
qed

section \<open>Dates follow days\<close>

definition year_start :: "int \<Rightarrow> int" where
  "year_start y = (y div 400) * 146097 + (y mod 400) * 365 + (y mod 400) div 4 - (y mod 400) div 100"

lemma year_start_eq: "year_start y = 365 * y + y div 4 - y div 100 + y div 400"
proof -
  define e where "e = y div 400"
  define r where "r = y mod 400"
  have y: "y = e * 400 + r" and r: "0 \<le> r" "r < 400" unfolding e_def r_def by simp_all
  have "y div 4 = e * 100 + r div 4" "y div 100 = e * 4 + r div 100"
    unfolding y using div_mult_self3 [of 4 "e * 100" r] div_mult_self3 [of 100 "e * 4" r]
    by (simp_all add: algebra_simps)
  then show ?thesis
    unfolding year_start_def e_def [symmetric] r_def [symmetric] using y by simp
qed

lemma year_start_mono: "x < y \<Longrightarrow> year_start x + 365 \<le> year_start y"
proof -
  assume xy: "x < y"
  define a where "a = x div 4"
  define b where "b = y div 4"
  have ab: "a \<le> b" unfolding a_def b_def using xy by (simp add: zdiv_mono1)
  have "a - a div 25 \<le> b - b div 25"
    using ab div_bounds [of 25 a] div_bounds [of 25 b] by (cases "a div 25 = b div 25") linarith+
  moreover have "x div 100 = a div 25" "y div 100 = b div 25"
    unfolding a_def b_def using zdiv_zmult2_eq [of 25 x 4] zdiv_zmult2_eq [of 25 y 4] by simp_all
  moreover have "x div 400 \<le> y div 400" using xy by (simp add: zdiv_mono1)
  ultimately show ?thesis unfolding year_start_eq a_def b_def using xy by linarith
qed

lemma civil_of_days_less:
  assumes less: "u < v" and cu: "civil_of_days u = (y1, m1, d1)" and cv: "civil_of_days v = (y2, m2, d2)"
  shows "y1 < y2 \<or> y1 = y2 \<and> (m1 < m2 \<or> m1 = m2 \<and> d1 < d2)"
proof (rule civil_of_daysE [of u], rule civil_of_daysE [of v])
  fix e1 k1 o1 p1 e2 k2 o2 p2
  assume k1: "0 \<le> k1" "k1 < 400" and o1: "0 \<le> o1" "o1 \<le> 365"
    and u: "u + 719468 = e1 * 146097 + k1 * 365 + k1 div 4 - k1 div 100 + o1"
    and p1: "p1 = (5 * o1 + 2) div 153"
    and c1: "civil_of_days u = (if p1 < 10 then (e1 * 400 + k1, p1 + 3, o1 - (153 * p1 + 2) div 5 + 1)
      else (e1 * 400 + k1 + 1, p1 - 9, o1 - (153 * p1 + 2) div 5 + 1))"
  assume k2: "0 \<le> k2" "k2 < 400" and o2: "0 \<le> o2" "o2 \<le> 365"
    and v: "v + 719468 = e2 * 146097 + k2 * 365 + k2 div 4 - k2 div 100 + o2"
    and p2: "p2 = (5 * o2 + 2) div 153"
    and c2: "civil_of_days v = (if p2 < 10 then (e2 * 400 + k2, p2 + 3, o2 - (153 * p2 + 2) div 5 + 1)
      else (e2 * 400 + k2 + 1, p2 - 9, o2 - (153 * p2 + 2) div 5 + 1))"
  define Y1 where "Y1 = e1 * 400 + k1"
  define Y2 where "Y2 = e2 * 400 + k2"
  have s1: "u + 719468 = year_start Y1 + o1" and s2: "v + 719468 = year_start Y2 + o2"
    unfolding year_start_def Y1_def Y2_def using u v k1 k2 by simp_all
  have le: "Y1 \<le> Y2"
  proof (rule ccontr)
    assume "\<not> Y1 \<le> Y2"
    with year_start_mono [of Y2 Y1] s1 s2 o1 o2 less show False by linarith
  qed
  have mb: "0 \<le> p1" "p1 \<le> 11" "0 \<le> p2" "p2 \<le> 11"
    using month_bounds [OF o1, folded p1] month_bounds [OF o2, folded p2] by simp_all
  have same: "p1 \<le> p2" "p1 = p2 \<Longrightarrow> o1 < o2" if "Y1 = Y2"
    using that s1 s2 less p1 p2 by (simp_all add: zdiv_mono1)
  have eq1: "p1 < 10 \<Longrightarrow> y1 = Y1 \<and> m1 = p1 + 3" "\<not> p1 < 10 \<Longrightarrow> y1 = Y1 + 1 \<and> m1 = p1 - 9"
    "d1 = o1 - (153 * p1 + 2) div 5 + 1"
    using cu c1 by (simp_all add: Y1_def split: if_splits)
  have eq2: "p2 < 10 \<Longrightarrow> y2 = Y2 \<and> m2 = p2 + 3" "\<not> p2 < 10 \<Longrightarrow> y2 = Y2 + 1 \<and> m2 = p2 - 9"
    "d2 = o2 - (153 * p2 + 2) div 5 + 1"
    using cv c2 by (simp_all add: Y2_def split: if_splits)
  show ?thesis
  proof (cases "Y1 = Y2 \<and> p1 = p2")
    case True
    with eq1 eq2 same show ?thesis by (cases "p1 < 10") simp_all
  next
    case False
    with eq1(1,2) eq2(1,2) le mb same show ?thesis by (cases "p1 < 10"; cases "p2 < 10"; cases "Y1 = Y2") auto
  qed
qed

section \<open>The two orders on whole seconds\<close>

lemma clock_text_less:
  assumes "0 \<le> a" "a < 86400" "0 \<le> b" "b < (86400::int)" "a < b"
  shows "pad 2 (nat (a div 3600)) @ CHR '':'' # pad 2 (nat (a div 60 mod 60)) @ CHR '':'' # pad 2 (nat (a mod 60)) @ x
    < pad 2 (nat (b div 3600)) @ CHR '':'' # pad 2 (nat (b div 60 mod 60)) @ CHR '':'' # pad 2 (nat (b mod 60)) @ x"
proof -
  define h m c h' m' c' where d: "h = a div 3600" "m = a div 60 mod 60" "c = a mod 60"
    "h' = b div 3600" "m' = b div 60 mod 60" "c' = b mod 60"
  have bounds: "0 \<le> h" "h < 10 ^ 2" "0 \<le> h'" "h' < 10 ^ 2" "0 \<le> m" "m < 60" "0 \<le> m'" "m' < 60"
    "0 \<le> c" "c < 60" "0 \<le> c'" "c' < 60"
    unfolding d using assms by auto
  have b2: "m < 10 ^ 2" "m' < 10 ^ 2" "c < 10 ^ 2" "c' < 10 ^ 2" using bounds by auto
  have "h * 3600 + m * 60 + c = a" "h' * 3600 + m' * 60 + c' = b" unfolding d by (rule hour_min_sec)+
  then have "h < h' \<or> h = h' \<and> (m < m' \<or> m = m' \<and> c < c')" using assms(5) bounds by linarith
  then show ?thesis
    unfolding d [symmetric]
    by (simp only: pad_field_less [OF bounds(1-4)] pad_field_less [OF bounds(5) b2(1) bounds(7) b2(2)]
        pad_field_less [OF bounds(9) b2(3) bounds(11) b2(4)] Cons_less_Cons) auto
qed

lemma date_text_less:
  assumes "civil_of_days i = (y, m, d)" "civil_of_days j = (y', m', d')"
    and "0 \<le> y" "y < 10000" "0 \<le> y'" "y' < 10000" and "i < j \<or> i = j \<and> x < x'"
  shows "pad 4 (nat y) @ CHR ''-'' # pad 2 (nat m) @ CHR ''-'' # pad 2 (nat d) @ CHR ''T'' # x
    < pad 4 (nat y') @ CHR ''-'' # pad 2 (nat m') @ CHR ''-'' # pad 2 (nat d') @ CHR ''T'' # x'"
proof -
  note b = civil_of_days_bounds [OF assms(1)] civil_of_days_bounds [OF assms(2)]
  have f: "0 \<le> m" "m < 10 ^ 2" "0 \<le> m'" "m' < 10 ^ 2" "0 \<le> d" "d < 10 ^ 2" "0 \<le> d'" "d' < 10 ^ 2"
    "y < 10 ^ 4" "y' < 10 ^ 4" using b assms by simp_all
  have "y < y' \<or> y = y' \<and> (m < m' \<or> m = m' \<and> (d < d' \<or> d = d' \<and> x < x'))"
    using assms(7) civil_of_days_less [of i j, OF _ assms(1,2)] assms(1,2) by auto
  then show ?thesis
    by (simp only: pad_field_less [OF assms(3) f(9) assms(5) f(10)] pad_field_less [OF f(1-4)]
        pad_field_less [OF f(5-8)] Cons_less_Cons) auto
qed

lemma text_order_step:
  assumes w: "writable t" "writable u" and off: "off t = off u"
    and whole: "ns t mod second = 0" "ns u mod second = 0" and less: "ns t < ns u"
  shows "rfc3339 t < rfc3339 u"
proof -
  define s where "s = local_secs t"
  define s' where "s' = local_secs u"
  have "ns t = ns t div second * second" "ns u = ns u div second * second"
    using whole by (simp_all add: minus_mod_eq_div_mult [symmetric])
  then have ss: "s < s'"
    using less off unfolding s_def s'_def local_secs_def
      second_def by linarith
  obtain y m d where c: "civil_of_days (s div 86400) = (y, m, d)" by (cases "civil_of_days (s div 86400)")
  obtain y' m' d' where c': "civil_of_days (s' div 86400) = (y', m', d')" by (cases "civil_of_days (s' div 86400)")
  have yb: "0 \<le> y" "y < 10000" "0 \<le> y'" "y' < 10000"
    using w c c' by (simp_all add: writable_def s_def s'_def)
  have sod: "0 \<le> x mod 86400" "x mod 86400 < 86400" for x :: int by simp_all
  have "s div 86400 < s' div 86400 \<or> s div 86400 = s' div 86400 \<and> s mod 86400 < s' mod 86400"
    using ss zdiv_mono1 [of s s' 86400] div_mult_mod_eq [of s 86400] div_mult_mod_eq [of s' 86400] by linarith
  note split = this
  show ?thesis
    unfolding rfc3339_def Let_def s_def [symmetric] s'_def [symmetric] c c' prod.case
    by (simp add: whole off frac_text_def)
      (rule date_text_less [OF c c' yb], use split clock_text_less [OF sod sod] in blast)
qed

text \<open>On whole seconds at one offset the text order is the time order.\<close>

lemma text_order_whole_seconds:
  assumes "writable t" "writable u" "off t = off u" "ns t mod second = 0" "ns u mod second = 0"
  shows "rfc3339 t < rfc3339 u \<longleftrightarrow> ns t < ns u"
proof (cases "ns t" "ns u" rule: linorder_cases)
  case equal
  with assms(3) have "t = u" by (cases t; cases u) simp
  then show ?thesis by (simp only: order_less_irrefl)
next
  case less
  from less text_order_step [OF assms less] show ?thesis by (simp only: simp_thms)
next
  case greater
  from text_order_step [OF assms(2,1) assms(3) [symmetric] assms(5,4) greater]
  have "\<not> rfc3339 t < rfc3339 u" by (rule order_less_not_sym)
  with greater show ?thesis by (simp only: order_less_not_sym simp_thms)
qed

text \<open>
  In UTC a fraction sorts before the whole second it belongs to: \<open>.\<close> is less than \<open>Z\<close>.
\<close>

lemma text_order_fraction:
  assumes "off t = 0" "off u = 0" "ns u mod second = 0" "ns u < ns t" "ns t < ns u + second"
  shows "rfc3339 t < rfc3339 u"
proof -
  obtain q where q: "ns u = second * q" using assms(3) by (metis mod_0_imp_dvd dvdE)
  define f where "f = ns t - ns u"
  have "ns t = f + second * q" "0 \<le> f" "f < second" using assms(4,5) q by (simp_all add: f_def)
  moreover have "0 < second" by (simp add: second_def)
  ultimately have d: "ns t div second = ns u div second" "ns t mod second = f"
    by (simp_all only: q) (simp_all add: second_def)
  then have l: "local_secs t = local_secs u" by (simp add: local_secs_def assms(1,2))
  have ft: "frac_text (nat (ns t mod second)) = CHR ''.'' # trim_zeros (pad 9 (nat (ns t mod second)))"
    using assms(4) d(2) by (simp add: frac_text_def f_def)
  have z: "frac_text (nat (ns u mod second)) = []" by (simp add: frac_text_def assms(3))
  have "CHR ''.'' < CHR ''Z''" by code_simp
  then show ?thesis
    unfolding rfc3339_def Let_def l ft z
    by (simp add: list_less_append zone_text_def assms(1,2) Cons_less_Cons split: prod.split)
qed

end
