(* ===== verification/Store_Spec.thy ===== *)
theory Store_Spec
  imports Store_Flush Store_Evict_Laws Time_Order
begin

text \<open>
  What the store promises its callers: a map from keys to values with an expiry,
  in which a lookup finds what was last put and not yet expired, and which only
  expiry and eviction shrink. \<open>op\<close> and \<open>reply\<close> are the calls and their results,
  \<open>step\<close> dispatches a call to the model, \<open>spec_ok\<close> is the contract between a
  call, its reply and the map before and after. The refinement is proved for a
  store with a memory layer (whatever the database does) and for a store without
  one (over a lawful engine).
\<close>

section \<open>Calls\<close>

type_synonym entries_order = "(key \<times> entry) list \<Rightarrow> (key \<times> entry) list"

datatype op =
    OpPut zone gotime key bytes duration put_mode
  | OpGet gotime key
  | OpSweep entries_order gotime int
  | OpEvict "nat \<Rightarrow> entries_order" int int int
  | OpFlush "key list \<Rightarrow> key list"
  | OpBackground

datatype reply =
    RPut "store_error option"
  | RGet get_result "store_error option"
  | RCount int "store_error option"
  | RNone

fun step :: "'db sqlite \<Rightarrow> op \<Rightarrow> 'db store \<Rightarrow> reply \<times> 'db store" where
  "step E (OpPut z now k v ttl mode) s = (case put_with_mode E z now k v ttl mode s of (e, s) \<Rightarrow> (RPut e, s))"
| "step E (OpGet now k) s = (case get E now k s of ((r, e), s) \<Rightarrow> (RGet r e, s))"
| "step E (OpSweep rng now limit) s = (case delete_expired E rng now limit s of ((n, e), s) \<Rightarrow> (RCount n e, s))"
| "step E (OpEvict rng limit batch runs) s =
     (case evict_oldest E rng limit batch runs s of ((n, e), s) \<Rightarrow> (RCount n e, s))"
| "step E (OpFlush rng) s = (case flush E rng s of ((n, e), s) \<Rightarrow> (RCount n e, s))"
| "step E OpBackground s = (RNone, run_background E s)"

fun run :: "'db sqlite \<Rightarrow> op list \<Rightarrow> 'db store \<Rightarrow> reply list \<times> 'db store" where
  "run E [] s = ([], s)"
| "run E (c # cs) s = (case step E c s of (r, s) \<Rightarrow> (case run E cs s of (rs, s) \<Rightarrow> (r # rs, s)))"

text \<open>The orders in which a call ranges over the maps visit each element once.\<close>

fun orders_ok :: "op \<Rightarrow> bool" where
  "orders_ok (OpSweep rng now limit) \<longleftrightarrow> range_order rng"
| "orders_ok (OpEvict rng limit batch runs) \<longleftrightarrow> (\<forall>i. range_order (rng i))"
| "orders_ok (OpFlush rng) \<longleftrightarrow> range_order rng"
| "orders_ok _ \<longleftrightarrow> True"

section \<open>The contract\<close>

type_synonym ttl_map = "key \<rightharpoonup> bytes \<times> gotime"

definition live :: "gotime \<Rightarrow> ttl_map \<Rightarrow> key \<rightharpoonup> bytes" where
  "live now m k = (case m k of None \<Rightarrow> None | Some (v, t) \<Rightarrow> if after now t then None else Some v)"

text \<open>
  \<open>spec_ok\<close> fixes the reply of a lookup and the map after each call. A failed
  write or lookup changes nothing; a sweep keeps exactly the live entries or, when
  it fails or is bounded, at least those; an eviction only forgets.
\<close>

fun spec_ok :: "op \<Rightarrow> reply \<Rightarrow> ttl_map \<Rightarrow> ttl_map \<Rightarrow> bool" where
  "spec_ok (OpPut z now k v ttl mode) (RPut e) m m' \<longleftrightarrow>
     m' = (if e = None then m(k \<mapsto> (v, time_add z now ttl)) else m)"
| "spec_ok (OpGet now k) (RGet r e) m m' \<longleftrightarrow>
     (if e \<noteq> None then m' = m
      else case m k of
        None \<Rightarrow> r = no_result \<and> m' = m
      | Some (v, t) \<Rightarrow>
          if after now t then found r \<and> expired r \<and> m' = m(k := None)
          else r = \<lparr>found = True, expired = False, result_value = v\<rparr> \<and> m' = m)"
| "spec_ok (OpSweep rng now limit) (RCount n e) m m' \<longleftrightarrow> m' \<subseteq>\<^sub>m m \<and> live now m' = live now m"
| "spec_ok (OpEvict rng limit batch runs) (RCount n e) m m' \<longleftrightarrow> m' \<subseteq>\<^sub>m m"
| "spec_ok (OpFlush rng) (RCount n e) m m' \<longleftrightarrow> m' = m"
| "spec_ok OpBackground RNone m m' \<longleftrightarrow> m' = m"
| "spec_ok _ _ m m' \<longleftrightarrow> False"

text \<open>A run of calls under the contract.\<close>

inductive spec_run :: "op list \<Rightarrow> reply list \<Rightarrow> ttl_map \<Rightarrow> ttl_map \<Rightarrow> bool" where
  spec_run_done: "spec_run [] [] m m"
| spec_run_call: "spec_ok c r m m1 \<Longrightarrow> spec_run cs rs m1 m' \<Longrightarrow> spec_run (c # cs) (r # rs) m m'"

inductive_cases spec_run_NilE: "spec_run [] rs m m'"
inductive_cases spec_run_ConsE: "spec_run (c # cs) rs m m'"

section \<open>What the contract says about a lookup\<close>

text \<open>The writes of a run, in order: what an ideal map that never forgets would hold.\<close>

fun writes :: "op list \<Rightarrow> reply list \<Rightarrow> ttl_map \<Rightarrow> ttl_map" where
  "writes (OpPut z now k v ttl mode # cs) (RPut None # rs) m = writes cs rs (m(k \<mapsto> (v, time_add z now ttl)))"
| "writes (_ # cs) (_ # rs) m = writes cs rs m"
| "writes _ _ m = m"

fun call_time :: "op \<Rightarrow> gotime option" where
  "call_time (OpPut z now k v ttl mode) = Some now"
| "call_time (OpGet now k) = Some now"
| "call_time (OpSweep rng now limit) = Some now"
| "call_time _ = None"

definition no_later :: "gotime \<Rightarrow> op \<Rightarrow> bool" where
  "no_later now c \<longleftrightarrow> (\<forall>t. call_time c = Some t \<longrightarrow> \<not> after t now)"

fun is_evict :: "op \<Rightarrow> bool" where
  "is_evict (OpEvict rng limit batch runs) = True"
| "is_evict _ = False"

lemma live_later:
  assumes "live t m = live t m'" "\<not> after t now" "m' \<subseteq>\<^sub>m m"
  shows "live now m = live now m'"
proof
  fix k
  have "live t m k = live t m' k" using assms(1) by simp
  moreover have "m' k = None \<or> m' k = m k" using assms(3) by (metis map_le_def domIff)
  ultimately show "live now m k = live now m' k"
    using assms(2) by (auto simp: live_def after_def split: option.splits if_splits)
qed

lemma live_upd: "live now m = live now m' \<Longrightarrow> live now (m(k \<mapsto> e)) = live now (m'(k \<mapsto> e))"
  by (auto simp: live_def fun_eq_iff)

lemma writes_live:
  "live now m = live now m' \<Longrightarrow> live now (writes cs rs m) = live now (writes cs rs m')"
proof (induction cs rs m arbitrary: m' rule: writes.induct)
  case (1 z t k v ttl mode cs rs m)
  show ?case unfolding writes.simps by (rule "1.IH") (rule live_upd [OF "1.prems"])
qed simp_all

lemma live_forget:
  "m k = Some (v, u) \<Longrightarrow> after t u \<Longrightarrow> \<not> after t now \<Longrightarrow> live now (m(k := None)) = live now m"
  by (auto simp: live_def after_def fun_eq_iff)

lemma spec_call_live:
  assumes "spec_ok c r m m'" "\<not> is_evict c" "no_later now c"
  shows "live now m' = live now (writes [c] [r] m)"
  using assms
proof (induction c r m m' rule: spec_ok.induct)
  case (1 z t k v ttl mode e m m')
  then show ?case by (cases e) auto
next
  case (2 t k r e m m')
  then show ?case
    by (auto simp: no_later_def live_forget split: if_splits option.splits)
next
  case (3 rng t limit n e m m')
  then show ?case using live_later [of t m m' now] by (simp add: no_later_def)
qed simp_all

lemma writes_Cons: "writes (c # cs) (r # rs) m = writes cs rs (writes [c] [r] m)"
  by (cases c; cases r; (cases "(case r of RPut e \<Rightarrow> e | _ \<Rightarrow> None)")?) simp_all

lemma spec_run_live:
  assumes "spec_run cs rs m m'" "list_all (\<lambda>c. \<not> is_evict c \<and> no_later now c) cs"
  shows "live now m' = live now (writes cs rs m)"
  using assms
proof (induction rule: spec_run.induct)
  case (spec_run_call c r m m1 cs rs m')
  then have "live now m' = live now (writes cs rs m1)" by simp
  also have "\<dots> = live now (writes cs rs (writes [c] [r] m))"
    using spec_run_call by (intro writes_live spec_call_live) simp_all
  finally show ?case by (simp only: writes_Cons [of c cs r rs])
qed simp

text \<open>With evictions a run may forget entries, but never shows another value.\<close>

lemma live_mono: "m' \<subseteq>\<^sub>m m \<Longrightarrow> live now m' \<subseteq>\<^sub>m live now m"
  by (auto simp: map_le_def live_def dom_def split: option.splits)

lemma live_upd_mono: "live now m' \<subseteq>\<^sub>m live now m \<Longrightarrow> live now (m'(k \<mapsto> e)) \<subseteq>\<^sub>m live now (m(k \<mapsto> e))"
  by (auto simp: map_le_def live_def dom_def)

lemma writes_mono:
  "live now m' \<subseteq>\<^sub>m live now m \<Longrightarrow> live now (writes cs rs m') \<subseteq>\<^sub>m live now (writes cs rs m)"
proof (induction cs rs m arbitrary: m' rule: writes.induct)
  case (1 z t k v ttl mode cs rs m)
  show ?case unfolding writes.simps by (rule "1.IH") (rule live_upd_mono [OF "1.prems"])
qed simp_all

lemma spec_call_forgets:
  assumes "spec_ok c r m m'" "no_later now c"
  shows "live now m' \<subseteq>\<^sub>m live now (writes [c] [r] m)"
proof (cases "is_evict c")
  case True
  with assms(1) live_mono show ?thesis by (cases c; cases r) auto
next
  case False
  with assms spec_call_live show ?thesis by simp
qed

lemma spec_run_forgets:
  assumes "spec_run cs rs m m'" "list_all (no_later now) cs"
  shows "live now m' \<subseteq>\<^sub>m live now (writes cs rs m)"
  using assms
proof (induction rule: spec_run.induct)
  case (spec_run_call c r m m1 cs rs m')
  then have "live now m' \<subseteq>\<^sub>m live now (writes cs rs m1)" by simp
  also have "\<dots> \<subseteq>\<^sub>m live now (writes cs rs (writes [c] [r] m))"
    using spec_run_call by (intro writes_mono spec_call_forgets) simp_all
  finally show ?case by (simp only: writes_Cons [of c cs r rs])
qed simp

section \<open>The memory layer keeps the contract\<close>

definition abs_cache :: "'db store \<Rightarrow> ttl_map" where
  "abs_cache s k = map_option (\<lambda>e. (val e, expires_at e)) (mget (cache s) k)"

lemma abs_cache_eq: "cache s' = cache s \<Longrightarrow> abs_cache s' = abs_cache s"
  by (simp add: abs_cache_def fun_eq_iff)

lemma abs_cache_shrinks: "cache_shrinks s s' \<Longrightarrow> abs_cache s' \<subseteq>\<^sub>m abs_cache s"
  unfolding cache_shrinks_def map_le_def by (auto simp: abs_cache_def dom_def)

lemma abs_cache_simps [simp]:
  "abs_cache (cache_put k v t vol s) = (abs_cache s)(k \<mapsto> (v, t))"
  "abs_cache (cache_drop k e s) = (abs_cache s)(k := None)"
  "abs_cache (mark_dirty k s) = abs_cache s" "abs_cache (clear_dirty k s) = abs_cache s"
  "abs_cache (s\<lparr>db := d\<rparr>) = abs_cache s" "abs_cache (s\<lparr>background := b\<rparr>) = abs_cache s"
  by (auto simp: abs_cache_def fun_eq_iff)

lemma abs_cache_settles:
  assumes "cache_settles s s'"
  shows "abs_cache s' = abs_cache s"
proof
  fix k
  have "rel_option entry_settles (mget (cache s) k) (mget (cache s') k)"
    using assms by (simp add: cache_settles_def)
  then show "abs_cache s' k = abs_cache s k"
    by (cases rule: option.rel_cases) (auto simp: abs_cache_def entry_settles_def)
qed

lemma put_cached_abs:
  assumes "put_with_mode E z now k v ttl mode s = (e, s')" "caching s"
  shows "abs_cache s' = (if e = None then (abs_cache s)(k \<mapsto> (v, time_add z now ttl)) else abs_cache s)"
  using assms
  by (auto simp: put_with_mode_def Let_def split: put_mode.splits prod.splits sum.splits)

lemma get_cached_abs:
  assumes "get E now k s = ((r, e), s')" "caching s"
  shows "e = None \<and> spec_ok (OpGet now k) (RGet r e) (abs_cache s) (abs_cache s')"
  using assms
  by (auto simp: get_def get_cached_def Let_def no_result_def time_equal_def
      abs_cache_def [of s k] split: option.splits if_splits)

lemma sweep_cached_abs:
  assumes "delete_expired E rng now limit s = (r, s')" "caching s" "range_order rng"
  shows "abs_cache s' \<subseteq>\<^sub>m abs_cache s \<and> live now (abs_cache s') = live now (abs_cache s)"
  by (auto simp: abs_cache_def live_def map_le_def fun_eq_iff delete_expired_cache [OF assms]
      split: option.splits if_splits)

lemma step_cached_ok:
  assumes "step E c s = (r, s')" "caching s" "orders_ok c"
  shows "spec_ok c r (abs_cache s) (abs_cache s')"
proof (cases c)
  case (OpPut z now k v ttl mode)
  with assms show ?thesis by (auto dest: put_cached_abs split: prod.splits)
next
  case (OpGet now k)
  obtain g e s1 where g: "get E now k s = ((g, e), s1)" by (metis surj_pair)
  with assms(1) OpGet have "r = RGet g e" "s' = s1" by simp_all
  then show ?thesis using get_cached_abs [OF g assms(2)] OpGet by blast
next
  case (OpSweep rng now limit)
  with assms show ?thesis by (auto dest: sweep_cached_abs split: prod.splits)
next
  case (OpEvict rng limit batch runs)
  with assms show ?thesis by (auto dest!: evict_oldest_shrinks abs_cache_shrinks split: prod.splits)
next
  case (OpFlush rng)
  with assms abs_cache_settles [OF flush_settles [of s E rng]] show ?thesis by (auto split: prod.splits)
next
  case OpBackground
  with assms show ?thesis
    by (auto simp: run_background_def split: list.splits)
qed

section \<open>The database keeps the contract\<close>

text \<open>
  Without a memory layer the rows are the map. The sweep compares texts, so the
  times that occur must be ones whose texts are ordered as the instants are:
  \<open>faithful\<close> (\<open>text_order_whole_seconds\<close> gives such a set for every zone offset).
\<close>

definition faithful :: "gotime set \<Rightarrow> bool" where
  "faithful T \<longleftrightarrow> (\<forall>t\<in>T. writable t \<and> (\<forall>u\<in>T. rfc3339 t < rfc3339 u \<longleftrightarrow> ns t < ns u))"

lemma faithful_whole_seconds: "faithful {t. writable t \<and> off t = z \<and> ns t mod second = 0}"
  by (simp add: faithful_def text_order_whole_seconds)

definition rows_in :: "gotime set \<Rightarrow> table \<Rightarrow> bool" where
  "rows_in T t \<longleftrightarrow> (\<forall>k v x. t k = Some (v, x) \<longrightarrow> (\<exists>u\<in>T. x = rfc3339 u))"

fun times_in :: "gotime set \<Rightarrow> op \<Rightarrow> bool" where
  "times_in T (OpPut z now k v ttl mode) \<longleftrightarrow> time_add z now ttl \<in> T"
| "times_in T (OpSweep rng now limit) \<longleftrightarrow> now \<in> T"
| "times_in T _ \<longleftrightarrow> True"

definition rows_abs :: "table \<Rightarrow> ttl_map" where
  "rows_abs t k = (case t k of None \<Rightarrow> None | Some (v, x) \<Rightarrow> map_option (Pair v) (parse_rfc3339 x))"

lemma rows_in_remove: "rows_in T t \<Longrightarrow> rows_in T (remove_keys V t)"
  by (simp add: rows_in_def remove_keys_apply)

lemma rows_in_put: "rows_in T t \<Longrightarrow> u \<in> T \<Longrightarrow> rows_in T (t(k \<mapsto> (v, rfc3339 u)))"
  by (auto simp: rows_in_def)

lemma rows_abs_put: "writable u \<Longrightarrow> rows_abs (t(k \<mapsto> (v, rfc3339 u))) = (rows_abs t)(k \<mapsto> (v, u))"
  by (auto simp: rows_abs_def fun_eq_iff parse_format)

lemma rows_abs_remove: "rows_abs (remove_keys V t) = (\<lambda>k. if k \<in> V then None else rows_abs t k)"
  by (auto simp: rows_abs_def fun_eq_iff remove_keys_apply)

lemma rows_abs_remove1: "rows_abs (remove_keys {k} t) = (rows_abs t)(k := None)"
  by (auto simp: rows_abs_remove fun_eq_iff)

lemma rows_abs_shrinks: "rows_abs (remove_keys V t) \<subseteq>\<^sub>m rows_abs t"
  by (auto simp: rows_abs_remove map_le_def split: if_splits)

lemma rows_abs_row:
  assumes "rows_in T t" "faithful T" "t k = Some (v, x)"
  obtains u where "u \<in> T" "x = rfc3339 u" "parse_rfc3339 x = Some u" "rows_abs t k = Some (v, u)"
proof -
  obtain u where u: "u \<in> T" "x = rfc3339 u" using assms(1,3) unfolding rows_in_def by blast
  with assms(2) have "writable u" by (simp add: faithful_def)
  with u assms(3) show ?thesis by (intro that [of u]) (simp_all add: rows_abs_def parse_format)
qed

lemma rows_abs_None: "t k = None \<Longrightarrow> rows_abs t k = None"
  by (simp add: rows_abs_def)

text \<open>Rows the sweep selects by text have expired.\<close>

lemma swept_expired:
  assumes "rows_in T t" "faithful T" "now \<in> T" "V \<subseteq> matched (\<lambda>k e. e < rfc3339 now) t"
  shows "live now (rows_abs (remove_keys V t)) = live now (rows_abs t)"
proof
  fix k
  show "live now (rows_abs (remove_keys V t)) k = live now (rows_abs t) k"
  proof (cases "k \<in> V")
    case True
    with assms(4) obtain v x where row: "t k = Some (v, x)" and x: "x < rfc3339 now"
      by (auto simp: matched_def)
    obtain u where "u \<in> T" "x = rfc3339 u" "rows_abs t k = Some (v, u)"
      using rows_abs_row [OF assms(1,2) row] by metis
    with x assms(2,3) have "after now u" by (auto simp: faithful_def after_def)
    with \<open>rows_abs t k = Some (v, u)\<close> True show ?thesis by (simp add: live_def rows_abs_remove)
  qed (simp add: live_def rows_abs_remove)
qed

context sql_engine
begin

lemma put_db_abs:
  assumes "put_with_mode E z now k v ttl mode s = (e, s')" "\<not> caching s"
  shows "tbl (db s') = (if e = None then (tbl (db s))(k \<mapsto> (v, rfc3339 (time_add z now ttl))) else tbl (db s))"
proof -
  have p: "put_with_mode E z now k v ttl PutSync s = (e, s')"
    using assms by (cases "mode = PutSync") (simp_all add: put_with_mode_def)
  obtain q d where q: "sq_exec E (Upsert k v (rfc3339 (time_add z now ttl))) (db s) = (q, d)" by (metis surj_pair)
  then show ?thesis
    by (cases rule: exec_result) (use p assms(2) q in \<open>auto simp: put_with_mode_def Let_def\<close>)
qed

lemma get_db_abs:
  assumes "get E now k s = ((r, e), s')" "\<not> caching s" "rows_in T (tbl (db s))" "faithful T"
  shows "spec_ok (OpGet now k) (RGet r e) (rows_abs (tbl (db s))) (rows_abs (tbl (db s')))
    \<and> rows_in T (tbl (db s'))"
proof -
  have g: "get_db E now k s = ((r, e), s')" using assms(1,2) by (simp add: get_def)
  obtain q d where q: "sq_select_key E k (db s) = (q, d)" by (metis surj_pair)
  have td: "tbl d = tbl (db s)" using select_key_pure [of k "db s"] q by simp
  consider (fault) x where "q = Inl x" | (none) "q = Inr None" | (row) v x where "q = Inr (Some (v, x))"
    by (cases q) (auto split: option.splits, metis option.exhaust surj_pair)
  then show ?thesis
  proof cases
    case fault
    with g q td assms(3) show ?thesis by (auto simp: get_db_def)
  next
    case none
    with select_key_ok [of k "db s" None d] q have "tbl (db s) k = None" by simp
    with none g q td assms(3) show ?thesis by (auto simp: get_db_def rows_abs_None)
  next
    case row
    with select_key_ok [of k "db s" "Some (v, x)" d] q have "tbl (db s) k = Some (v, x)" by simp
    then obtain u where u: "parse_rfc3339 x = Some u" "rows_abs (tbl (db s)) k = Some (v, u)"
      using rows_abs_row [OF assms(3,4)] by metis
    obtain q2 d2 where q2: "sq_exec E (DeleteKey k) d = (q2, d2)" by (metis surj_pair)
    from q2 show ?thesis
    proof (cases rule: exec_result)
      case failed
      with row g q u q2 td assms(3) show ?thesis
        by (auto simp: get_db_def Let_def no_result_def split: if_splits)
    next
      case (succeeded q' n)
      then have "tbl d2 = remove_keys {k} (tbl (db s))" using td by (simp add: removes_def)
      then have "rows_abs (tbl d2) = (rows_abs (tbl (db s)))(k := None)" "rows_in T (tbl d2)"
        using assms(3) by (simp_all add: rows_abs_remove1 rows_in_remove)
      with row g q u q2 td assms(3) succeeded show ?thesis
        by (auto simp: get_db_def Let_def no_result_def split: if_splits)
    qed
  qed
qed

lemma step_db_ok:
  assumes "step E c s = (r, s')" "\<not> caching s" "background s = []"
    and "rows_in T (tbl (db s))" "faithful T" "times_in T c"
  shows "spec_ok c r (rows_abs (tbl (db s))) (rows_abs (tbl (db s'))) \<and> rows_in T (tbl (db s'))"
proof (cases c)
  case (OpPut z now k v ttl mode)
  then obtain e where "put_with_mode E z now k v ttl mode s = (e, s')" "r = RPut e"
    using assms(1) by (auto split: prod.splits)
  with put_db_abs assms OpPut show ?thesis
    by (auto simp: faithful_def rows_abs_put intro: rows_in_put)
next
  case (OpGet now k)
  obtain g e s1 where g: "get E now k s = ((g, e), s1)" by (metis surj_pair)
  with assms(1) OpGet have "r = RGet g e" "s' = s1" by simp_all
  with get_db_abs [OF g assms(2,4,5)] show ?thesis by (simp only: OpGet)
next
  case (OpSweep rng now limit)
  then obtain n e where "delete_expired E rng now limit s = ((n, e), s')" "r = RCount n e"
    using assms(1) by (auto split: prod.splits)
  with delete_expired_shrinks assms OpSweep show ?thesis
    by (metis spec_ok.simps(3) swept_expired rows_abs_shrinks rows_in_remove times_in.simps(2))
next
  case (OpEvict rng limit batch runs)
  then obtain n e where "evict_oldest E rng limit batch runs s = ((n, e), s')" "r = RCount n e"
    using assms(1) by (auto split: prod.splits)
  with evict_oldest_db_rows [OF assms(2)] assms OpEvict show ?thesis
    by (metis spec_ok.simps(4) rows_abs_shrinks rows_in_remove)
next
  case (OpFlush rng)
  with assms show ?thesis by (auto simp: flush_def)
next
  case OpBackground
  with assms show ?thesis by (auto simp: run_background_def)
qed

end

section \<open>Properties\<close>

text \<open>A row that expires a nanosecond after a whole second.\<close>

definition nano_store :: "ref_db store" where
  "nano_store = snd (put ref_engine utc (sample_time 0) ''k'' ''v'' 5000000001 (sample_store 0 []))"

context sql_engine
begin

lemma get_db_row:
  assumes "get E now k s = ((g, None), s1)" "\<not> caching s"
  shows "tbl (db s) k = None \<Longrightarrow> g = no_result"
    "tbl (db s) k = Some (v, rfc3339 t) \<Longrightarrow> writable t \<Longrightarrow>
      g = \<lparr>found = True, expired = after now t, result_value = v\<rparr>"
proof -
  obtain q d where q: "sq_select_key E k (db s) = (q, d)" by (metis surj_pair)
  have g: "get_db E now k s = ((g, None), s1)" using assms by (simp add: get_def)
  then obtain row where row: "q = Inr row" using q by (cases q) (auto simp: get_db_def)
  with select_key_ok [of k "db s" row d] q have "row = tbl (db s) k" by simp
  note r = q row this
  show "g = no_result" if "tbl (db s) k = None"
    using g r that by (simp add: get_db_def)
  show "g = \<lparr>found = True, expired = after now t, result_value = v\<rparr>"
    if "tbl (db s) k = Some (v, rfc3339 t)" "writable t"
    using g r that
    by (auto simp: get_db_def parse_format Let_def no_result_def split: if_splits prod.splits sum.splits)
qed

lemma sweep_takes_fraction:
  assumes "delete_expired E rng now limit s = ((n, None), s')" and "limit \<le> 0"
    and "tbl (db s) k = Some (v, rfc3339 t)"
    and "off t = 0" "off now = 0" "ns now mod second = 0" "ns now < ns t" "ns t < ns now + second"
  shows "tbl (db s') k = None"
proof -
  have "k \<in> matched (\<lambda>k e. e < rfc3339 now) (tbl (db s))"
    using assms(3) text_order_fraction [OF assms(4-8)] by (simp add: matched_def)
  moreover have "V = matched P (tbl (db s))" if "oldest_sel P (- 1) (tbl (db s)) V" for P V
    using that finite_subset [OF matched_subset tbl_finite [of "db s"]]
    by (intro card_subset_eq) (simp_all add: oldest_sel_def sql_limit_def)
  ultimately show ?thesis
    using delete_expired_rows [OF assms(1)] assms(2) by (auto simp: remove_keys_apply)
qed

end

text \<open>C16: The sweep compares expiry texts, and with trimmed fractions the text order is not the
  time order. Without a memory layer, with both times in UTC, a sweep without a limit at a
  whole second that reports success deletes every row whose expiry lies within the next
  second: a lookup at that time before the sweep, when it reports no error, finds the row
  and its value, not expired; a lookup at any time after the sweep, when it reports no
  error, finds nothing.\<close>

theorem sweep_deletes_live_row:
  assumes "sql_engine E tbl pend" and "\<not> caching s"
    and "tbl (db s) k = Some (v, rfc3339 t)" and "writable t"
    and "off t = 0" and "off now = 0" and "ns now mod second = 0"
    and "ns now < ns t" and "ns t < ns now + second"
    and "delete_expired E rng now limit s = ((n, None), s')" and "limit \<le> 0"
    and "get E now k s = ((before_sweep, None), s1)" and "get E later k s' = ((after_sweep, None), s2)"
  shows "before_sweep = \<lparr>found = True, expired = False, result_value = v\<rparr> \<and> after_sweep = no_result"
proof
  have "\<not> caching s'" using assms(2) same_shell_caching [OF delete_expired_shell [OF assms(10)]] by simp
  with sql_engine.get_db_row(1) [OF assms(1,13)]
    sql_engine.sweep_takes_fraction [OF assms(1,10,11,3,5-9)]
  show "after_sweep = no_result" by simp
  show "before_sweep = \<lparr>found = True, expired = False, result_value = v\<rparr>"
    using sql_engine.get_db_row(2) [OF assms(1,12,2,3,4)] assms(8) by (simp add: after_def)
qed

theorem sweep_deletes_live_row_witness:
  "fst (fst (get ref_engine (sample_time 5) ''k'' nano_store)) = \<lparr>found = True, expired = False, result_value = ''v''\<rparr>
    \<and> fst (fst (get ref_engine (sample_time 5) ''k''
        (snd (delete_expired ref_engine id (sample_time 5) 0 nano_store)))) = no_result"
proof -
  have row: "ref_tbl (db nano_store) ''k'' = Some (''v'', rfc3339 (time_add utc (sample_time 0) 5000000001))"
    "snd (fst (delete_expired ref_engine id (sample_time 5) 0 nano_store)) = None"
    "snd (fst (get ref_engine (sample_time 5) ''k'' nano_store)) = None"
    "snd (fst (get ref_engine (sample_time 5) ''k''
      (snd (delete_expired ref_engine id (sample_time 5) 0 nano_store)))) = None" by code_simp+
  have time: "writable (time_add utc (sample_time 0) 5000000001)"
    "off (time_add utc (sample_time 0) 5000000001) = 0" "off (sample_time 5) = 0"
    "ns (sample_time 5) mod second = 0" "ns (sample_time 5) < ns (time_add utc (sample_time 0) 5000000001)"
    "ns (time_add utc (sample_time 0) 5000000001) < ns (sample_time 5) + second"
    "\<not> caching nano_store" by code_simp+
  obtain n s' where d: "delete_expired ref_engine id (sample_time 5) 0 nano_store = ((n, None), s')"
    using row(2) by (metis surj_pair fst_conv snd_conv)
  obtain g1 s1 where g1: "get ref_engine (sample_time 5) ''k'' nano_store = ((g1, None), s1)"
    using row(3) by (metis surj_pair fst_conv snd_conv)
  obtain g2 s2 where g2: "get ref_engine (sample_time 5) ''k'' s' = ((g2, None), s2)"
    using row(4) d by (metis surj_pair fst_conv snd_conv)
  show ?thesis
    using sweep_deletes_live_row [OF ref.sql_engine_axioms time(7) row(1) time(1-6) d order_refl g1 g2]
    by (simp add: d g1 g2)
qed

end
