(* ===== verification/Store_Runs.thy ===== *)
theory Store_Runs
  imports Store_Spec
begin

text \<open>
  Runs of store calls: the invariants that hold in every state a run reaches, and
  the contract of \<open>Store_Spec\<close> along whole runs. \<open>reach E s\<close> are the states some
  sequence of calls leads to from \<open>s\<close>.
\<close>

section \<open>What no call changes\<close>

lemma put_shell:
  "put_with_mode E z now k v ttl mode s = (e, s') \<Longrightarrow> mem_limit s' = mem_limit s \<and> background s' = background s"
  by (auto simp: put_with_mode_def Let_def split: put_mode.splits prod.splits sum.splits if_splits)

lemma get_shell:
  "get E now k s = (r, s') \<Longrightarrow> mem_limit s' = mem_limit s \<and> dirty s' = dirty s
    \<and> (\<not> caching s \<longrightarrow> background s' = background s)"
  by (auto simp: get_def get_cached_def get_db_def Let_def time_equal_def
      split: prod.splits sum.splits option.splits if_splits)

lemma flush_shell: "flush E rng s = (r, s') \<Longrightarrow> mem_limit s' = mem_limit s \<and> background s' = background s
    \<and> cache_bytes s' = cache_bytes s"
proof -
  assume f: "flush E rng s = (r, s')"
  show ?thesis
  proof (cases "\<not> caching s \<or> rng (mkeys (dirty s)) = []")
    case True
    with f show ?thesis by (auto simp: flush_def take_dirty_def split: if_splits)
  next
    case False
    let ?s = "s\<lparr>dirty := mempty\<rparr>"
    from False f have "flush_chunks E (chunks flush_batch_size (flush_batch (rng (mkeys (dirty s))) ?s)) 0 ?s = (r, s')"
      by (simp add: flush_def take_dirty_def)
    from flush_chunks_frameD [OF this] show ?thesis by simp
  qed
qed

lemma background_shell: "mem_limit (run_background E s) = mem_limit s" "dirty (run_background E s) = dirty s"
  "cache (run_background E s) = cache s" "cache_bytes (run_background E s) = cache_bytes s"
  "background s = [] \<Longrightarrow> run_background E s = s"
  by (simp_all add: run_background_def split: list.splits)

lemma step_mem_limit: "step E c s = (r, s') \<Longrightarrow> mem_limit s' = mem_limit s"
  by (cases c) (auto dest!: put_shell get_shell flush_shell delete_expired_shell evict_oldest_shell
      simp: same_shell_def background_shell split: prod.splits)

lemma step_caching: "step E c s = (r, s') \<Longrightarrow> caching s' = caching s"
  by (simp add: caching_def step_mem_limit)

lemma step_background:
  "step E c s = (r, s') \<Longrightarrow> \<not> caching s \<Longrightarrow> background s = [] \<Longrightarrow> background s' = []"
  by (cases c) (auto dest!: put_shell get_shell flush_shell delete_expired_shell evict_oldest_shell
      simp: same_shell_def background_shell split: prod.splits)

lemma call_wf:
  "put_with_mode E z now k v ttl mode s = (e, s') \<Longrightarrow> store_wf s \<Longrightarrow> store_wf s'"
  "get E now k s = (g, s') \<Longrightarrow> store_wf s \<Longrightarrow> store_wf s'"
  "flush E rng s = (f, s') \<Longrightarrow> store_wf s \<Longrightarrow> store_wf s'"
  using put_wf [of s E z now k v ttl mode] get_wf [of s E now k] flush_wf [of s E rng] by simp_all

text \<open>The byte counter stays exact under every call.\<close>

lemma step_wf [kvp_inv]: "step E c s = (r, s') \<Longrightarrow> store_wf s \<Longrightarrow> orders_ok c \<Longrightarrow> store_wf s'"
  by (cases c) (auto dest: call_wf delete_expired_wf evict_oldest_wf run_background_wf split: prod.splits)

section \<open>The contract along a run\<close>

definition abs_store :: "('db \<Rightarrow> table) \<Rightarrow> 'db store \<Rightarrow> ttl_map" where
  "abs_store tbl s = (if caching s then abs_cache s else rows_abs (tbl (db s)))"

text \<open>
  Where the contract holds: always with a memory layer; without one, as long as the
  times written are ones the text orders as instants.
\<close>

definition in_contract :: "gotime set \<Rightarrow> ('db \<Rightarrow> table) \<Rightarrow> 'db store \<Rightarrow> bool" where
  "in_contract T tbl s \<longleftrightarrow> caching s \<or> background s = [] \<and> rows_in T (tbl (db s)) \<and> faithful T"

context sql_engine
begin

lemma step_ok:
  assumes "step E c s = (r, s')" "in_contract T tbl s" "orders_ok c" "caching s \<or> times_in T c"
  shows "spec_ok c r (abs_store tbl s) (abs_store tbl s') \<and> in_contract T tbl s'"
proof (cases "caching s")
  case True
  with step_cached_ok [OF assms(1)] assms(3) step_caching [OF assms(1)] show ?thesis
    by (simp add: abs_store_def in_contract_def)
next
  case False
  with assms have "background s = []" "rows_in T (tbl (db s))" "faithful T" "times_in T c"
    by (simp_all add: in_contract_def)
  with step_db_ok [OF assms(1)] False step_caching [OF assms(1)] step_background [OF assms(1)] show ?thesis
    by (simp add: abs_store_def in_contract_def)
qed

lemma run_ok:
  assumes "run E cs s = (rs, s')" "in_contract T tbl s" "list_all orders_ok cs"
    "caching s \<or> list_all (times_in T) cs"
  shows "spec_run cs rs (abs_store tbl s) (abs_store tbl s') \<and> in_contract T tbl s' \<and> caching s' = caching s"
  using assms
proof (induction cs arbitrary: s rs)
  case Nil
  then show ?case by (auto intro: spec_run_done)
next
  case (Cons c cs)
  obtain r s1 where r: "step E c s = (r, s1)" by (metis surj_pair)
  obtain rs1 where rs: "run E cs s1 = (rs1, s')" "rs = r # rs1"
    using Cons.prems(1) r by (auto split: prod.splits)
  have ok: "spec_ok c r (abs_store tbl s) (abs_store tbl s1)" "in_contract T tbl s1"
    using step_ok [OF r Cons.prems(2)] Cons.prems(3,4) by auto
  have "caching s1 = caching s" using step_caching [OF r] .
  with Cons.IH [OF rs(1) ok(2)] Cons.prems(3,4) ok(1) rs(2) show ?case
    by (auto intro: spec_run_call)
qed

lemma live_run:
  assumes "run E cs s = (rs, s')" "in_contract T tbl s" "list_all orders_ok cs"
    "caching s \<or> list_all (times_in T) cs" "list_all (no_later now) cs"
  shows "live now (abs_store tbl s') \<subseteq>\<^sub>m live now (writes cs rs (abs_store tbl s))"
    "list_all (\<lambda>c. \<not> is_evict c) cs \<Longrightarrow>
      live now (abs_store tbl s') = live now (writes cs rs (abs_store tbl s))"
  using run_ok [OF assms(1-4)] assms(5) spec_run_forgets [of cs rs] spec_run_live [of cs rs]
  by (auto simp: list_all_iff)

lemma get_found:
  assumes "get E now k s = ((g, None), s')" "in_contract T tbl s"
  shows "found g \<and> \<not> expired g \<and> live now (abs_store tbl s) k = Some (result_value g)
    \<or> (\<not> found g \<or> expired g) \<and> live now (abs_store tbl s) k = None"
proof -
  have "step E (OpGet now k) s = (RGet g None, s')" using assms(1) by simp
  from step_ok [OF this assms(2)] show ?thesis
    by (auto simp: live_def no_result_def split: option.splits if_splits)
qed

end

section \<open>Properties\<close>

definition sample_calls :: "op list" where
  "sample_calls = [OpPut utc (sample_time 0) ''k'' ''v'' (10 * second) PutAsync,
     OpFlush (\<lambda>xs. xs), OpPut utc (sample_time 1) ''k'' ''w'' (10 * second) PutSync,
     OpSweep (\<lambda>xs. xs) (sample_time 2) 0]"

text \<open>C2: After any run of store calls, in every commit mode, a lookup that reports no error
  answers with the value of the last successful write of its key when that has not
  expired, or with nothing; and with exactly that (nothing only when nothing was written or
  it has expired) when no call of the run was an eviction. No call of the run may have
  read a later clock than the lookup. With a memory layer nothing else is assumed; without
  one the expiries in the rows, the expiries written and the times of the sweeps must be
  times whose texts are ordered as the times are, since sweeps compare the texts.\<close>

theorem lookup_after_run:
  assumes "sql_engine E tbl pend" and "in_contract T tbl s" and "list_all orders_ok cs"
    and "caching s \<or> list_all (times_in T) cs" and "list_all (no_later now) cs"
    and "run E cs s = (rs, s1)" and "get E now k s1 = ((g, None), s2)"
  shows "let answer = (if found g \<and> \<not> expired g then Some (result_value g) else None);
             written = live now (writes cs rs (abs_store tbl s)) k
         in (answer = written \<or> answer = None) \<and> (list_all (\<lambda>c. \<not> is_evict c) cs \<longrightarrow> answer = written)"
proof -
  note live = sql_engine.live_run [OF assms(1,6,2,3,4,5)]
  have "live now (abs_store tbl s1) k = live now (writes cs rs (abs_store tbl s)) k
    \<or> live now (abs_store tbl s1) k = None"
    using live(1) unfolding map_le_def by (metis domIff)
  moreover have "in_contract T tbl s1" using sql_engine.run_ok [OF assms(1,6,2,3,4)] by simp
  note sql_engine.get_found [OF assms(1,7) this]
  then have "(if found g \<and> \<not> expired g then Some (result_value g) else None) = live now (abs_store tbl s1) k"
    by auto
  ultimately show ?thesis using live(2) unfolding Let_def by auto
qed

theorem lookup_after_run_witness:
  "live (sample_time 5) (writes sample_calls (fst (run ref_engine sample_calls (sample_store 1000 [])))
     (abs_store ref_tbl (sample_store 1000 []))) ''k'' = Some ''w''"
proof -
  let ?s1 = "snd (run ref_engine sample_calls (sample_store 1000 []))"
  have g: "fst (get ref_engine (sample_time 5) ''k'' ?s1)
    = (\<lparr>found = True, expired = False, result_value = ''w''\<rparr>, None)"
    by code_simp
  obtain s2 where s2: "get ref_engine (sample_time 5) ''k'' ?s1
    = ((\<lparr>found = True, expired = False, result_value = ''w''\<rparr>, None), s2)"
    using g by (metis prod.collapse)
  have ok: "list_all orders_ok sample_calls"
    "list_all (no_later (sample_time 5)) sample_calls" "list_all (\<lambda>c. \<not> is_evict c) sample_calls"
    by (simp_all add: sample_calls_def no_later_def after_def sample_time_def second_def)
  have "in_contract {} ref_tbl (sample_store 1000 [])" by (simp add: in_contract_def)
  from lookup_after_run [OF ref.sql_engine_axioms this ok(1) _ ok(2) surjective_pairing s2] ok(3)
  show ?thesis by simp
qed

end
