(* ===== verification/Store_Mirror.thy ===== *)
theory Store_Mirror
  imports Store_Runs
begin

text \<open>
  The memory layer against the rows. \<open>Open\<close> loads exactly the live rows; then
  every entry that is not volatile is the row of its key (\<open>mirrored\<close>), through all
  calls, as long as time moves on, lifetimes are positive, the times are ones the
  text orders as instants and no eviction batch fails. So what a call made durable
  is there again after a crash and a restart.
\<close>

section \<open>Loading\<close>

lemma load_rows_items:
  "load_rows now its s = Inr s' \<Longrightarrow> its = map Inr (map projr its)"
  by (induction now its s rule: load_rows.induct) (auto simp: Let_def split: option.splits if_splits)

text \<open>The rows that are loaded, as entries.\<close>

definition loaded :: "gotime \<Rightarrow> row list \<Rightarrow> (key \<times> entry) list" where
  "loaded now rs = List.map_filter (\<lambda>(k, v, x). case parse_rfc3339 x of None \<Rightarrow> None
     | Some t \<Rightarrow> if after now t then None else Some (k, \<lparr>val = v, expires_at = t, volatile = False\<rparr>)) rs"

lemma loaded_simps [simp]:
  "loaded now [] = []"
  "loaded now ((k, v, x) # rs) = (case parse_rfc3339 x of None \<Rightarrow> loaded now rs
     | Some t \<Rightarrow> if after now t then loaded now rs
       else (k, \<lparr>val = v, expires_at = t, volatile = False\<rparr>) # loaded now rs)"
  by (simp_all add: loaded_def map_filter_simps split: option.split)

lemma keys_loaded: "fst ` set (loaded now rs) \<subseteq> fst ` set rs"
proof (induction rs)
  case (Cons r rs)
  obtain k v x where "r = (k, v, x)" by (cases r)
  with Cons show ?case by (cases "parse_rfc3339 x") (auto split: if_splits)
qed simp

lemma clean_items: "items r = map Inr rs \<Longrightarrow> iter_err r = None \<Longrightarrow> clean r \<and> delivered r = rs"
  by (simp add: clean_def delivered_def list_all_iff o_def)

lemma load_cacheE:
  assumes "load_cache E now s = Inr s'"
  obtains ra d where "sq_select_all E (db s) = (Inr ra, d)"
    "load_rows now (items ra) (s\<lparr>db := d\<rparr>) = Inr s'" "iter_err ra = None"
  using assms by (auto simp: load_cache_def split: prod.splits sum.splits option.splits)

lemma load_rows_frame:
  "load_rows now (map Inr rs) s = Inr s' \<Longrightarrow> same_shell s s' \<and> db s' = db s"
  by (induction rs arbitrary: s) (auto simp: Let_def same_shell_def split: option.splits if_splits)

lemma load_rows_parsed:
  "load_rows now (map Inr rs) s = Inr s' \<Longrightarrow> (k, v, x) \<in> set rs \<Longrightarrow> parse_rfc3339 x \<noteq> None"
  by (induction rs arbitrary: s) (auto simp: Let_def split: option.splits if_splits)

lemma load_rows_cache:
  assumes "load_rows now (map Inr rs) s = Inr s'" "distinct (map fst rs)"
    "\<forall>k\<in>set (map fst rs). mget (cache s) k = None"
  shows "mget (cache s') = mget (cache s) ++ map_of (loaded now rs)
    \<and> cache_bytes s' = cache_bytes s + alist_sum entry_size (loaded now rs)
    \<and> (cache_bytes s = msum entry_size (cache s) \<longrightarrow> cache_bytes s' = msum entry_size (cache s'))"
  using assms
proof (induction rs arbitrary: s)
  case (Cons r rs)
  obtain k v x where r: "r = (k, v, x)" by (cases r)
  then obtain t where t: "parse_rfc3339 x = Some t"
    using Cons.prems(1) by (auto split: option.splits)
  show ?case
  proof (cases "after now t")
    case True
    then have ld: "loaded now ((k, v, x) # rs) = loaded now rs"
      and l: "load_rows now (map Inr rs) s = Inr s'"
      using Cons.prems(1) r t by simp_all
    show ?thesis unfolding r ld by (rule Cons.IH [OF l]) (use Cons.prems(2,3) in simp_all)
  next
    case False
    define e where "e = \<lparr>val = v, expires_at = t, volatile = False\<rparr>"
    define s1 where "s1 = s\<lparr>cache := mput k e (cache s), cache_bytes := cache_bytes s + entry_size k e\<rparr>"
    have l: "load_rows now (map Inr rs) s1 = Inr s'"
      using Cons.prems(1) r t False by (simp add: Let_def s1_def e_def)
    have free: "\<forall>k\<in>set (map fst rs). mget (cache s1) k = None" "k \<notin> set (map fst rs)"
      using Cons.prems(2,3) r by (auto simp: s1_def)
    have none: "map_of (loaded now rs) k = None"
      using free(2) keys_loaded [of now rs] by (auto simp: map_of_eq_None_iff)
    have s1_simps: "cache_bytes s1 = cache_bytes s + entry_size k e" by (simp add: s1_def)
    have wf: "cache_bytes s = msum entry_size (cache s) \<longrightarrow> cache_bytes s1 = msum entry_size (cache s1)"
      using Cons.prems(3) r by (simp add: s1_def msum_update)
    have ld: "loaded now ((k, v, x) # rs) = (k, e) # loaded now rs"
      using t False by (simp add: e_def)
    have "mget (cache s) ++ map_of ((k, e) # loaded now rs) = mget (cache s1) ++ map_of (loaded now rs)"
      using none by (auto simp: s1_def map_add_def fun_eq_iff split: option.splits)
    then show ?thesis
      using Cons.IH [OF l _ free(1)] Cons.prems(2) wf unfolding r ld
      by (simp only: s1_simps map_of.simps fst_conv snd_conv alist_sum_Cons list.map distinct.simps) auto
  qed
qed simp

lemma map_of_loaded:
  "distinct (map fst rs) \<Longrightarrow> map_of (loaded now rs) k =
    (case map_of rs k of None \<Rightarrow> None | Some (v, x) \<Rightarrow>
      (case parse_rfc3339 x of None \<Rightarrow> None
       | Some t \<Rightarrow> if after now t then None else Some \<lparr>val = v, expires_at = t, volatile = False\<rparr>))"
proof (induction rs)
  case (Cons r rs)
  obtain k' v x where r: "r = (k', v, x)" by (cases r)
  with Cons have "k' \<notin> set (map fst rs)" by auto
  then have "map_of rs k' = None" by (simp add: map_of_eq_None_iff)
  with Cons r show ?case by (auto split: option.splits)
qed simp

section \<open>Opening\<close>

context sql_engine
begin

lemma run_pragmas_tbl: "run_pragmas E ps s = (e, s') \<Longrightarrow> tbl (db s') = tbl (db s) \<and> (\<exists>d. s' = s\<lparr>db := d\<rparr>)"
proof (induction ps arbitrary: s)
  case Nil
  then show ?case by (auto intro: exI [of _ "db s"])
next
  case (Cons p ps)
  obtain q d where q: "sq_exec E (Pragma p) (db s) = (q, d)" by (metis surj_pair)
  then have td: "tbl d = tbl (db s)" by (cases rule: exec_result) auto
  show ?case
  proof (cases q)
    case (Inl x)
    with Cons.prems q td show ?thesis by auto
  next
    case (Inr n)
    with Cons.prems q have "run_pragmas E ps (s\<lparr>db := d\<rparr>) = (e, s')" by simp
    from Cons.IH [OF this] td show ?thesis by auto
  qed
qed

lemma migrate_tbl:
  assumes "migrate E s = (e, s')"
  shows "tbl (db s') = tbl (db s) \<and> (\<exists>d. s' = s\<lparr>db := d\<rparr>)"
proof -
  obtain p s1 where p: "run_pragmas E pragmas s = (p, s1)" by (metis surj_pair)
  obtain q d where q: "sq_exec E CreateSchema (db s1) = (q, d)" by (metis surj_pair)
  then have "tbl d = tbl (db s1)" by (cases rule: exec_result) auto
  with run_pragmas_tbl [OF p] p q assms show ?thesis
    by (auto simp: migrate_def split: option.splits sum.splits)
qed

lemma open_rows:
  assumes "open_store E opened now path limit = Inr s"
  obtains d where "opened = Inr d" "tbl (db s) = tbl d" "mem_limit s = limit" "dirty s = mempty"
    "background s = []" "store_wf s"
    "caching s \<Longrightarrow> (\<forall>k v x. tbl d k = Some (v, x) \<longrightarrow> parse_rfc3339 x \<noteq> None) \<and>
      (\<forall>k. mget (cache s) k = (case rows_abs (tbl d) k of None \<Rightarrow> None
       | Some (v, t) \<Rightarrow> if after now t then None else Some \<lparr>val = v, expires_at = t, volatile = False\<rparr>))"
    "\<not> caching s \<Longrightarrow> cache s = mempty"
proof -
  obtain d where d: "opened = Inr d" using assms by (auto simp: open_store_def split: sum.splits if_splits)
  define s0 where "s0 = \<lparr>db = d, cache = mempty, cache_bytes = 0, mem_limit = limit, dirty = mempty, background = []\<rparr>"
  obtain e s1 where m: "migrate E s0 = (e, s1)" by (metis surj_pair)
  with assms d have e: "e = None" and
    r: "(if 0 < limit then load_cache E now s1 else Inr s1) = Inr s"
    by (auto simp: open_store_def Let_def s0_def split: option.splits if_splits)
  obtain d1 where s1: "s1 = s0\<lparr>db := d1\<rparr>" "tbl d1 = tbl d"
    using migrate_tbl [OF m] by (auto simp: s0_def)
  show ?thesis
  proof (cases "0 < limit")
    case False
    with r have "s = s1" by simp
    with False s1 d show ?thesis
      by (intro that [of d]) (simp_all add: s0_def store_wf_def caching_def)
  next
    case True
    with r have "load_cache E now s1 = Inr s" by simp
    then obtain ra d2 where "sq_select_all E (db s1) = (Inr ra, d2)"
      and l: "load_rows now (items ra) (s1\<lparr>db := d2\<rparr>) = Inr s" and ie: "iter_err ra = None"
      by (rule load_cacheE)
    with s1 have sel: "sq_select_all E d1 = (Inr ra, d2)" by simp
    define rs where "rs = map projr (items ra)"
    have its: "items ra = map Inr rs" using load_rows_items [OF l] by (simp add: rs_def)
    have cl: "clean ra" "delivered ra = rs"
      using clean_items [OF its ie] by simp_all
    have rows: "distinct (map fst rs)" "map_of rs = tbl d"
      using select_all_ok [OF sel cl(1)] cl(2) s1 by simp_all
    have td: "tbl d2 = tbl d" using select_all_pure [of d1] sel s1 by simp
    from l its have l': "load_rows now (map Inr rs) (s1\<lparr>db := d2\<rparr>) = Inr s" by simp
    have fr: "same_shell s1 s" "db s = d2" using load_rows_frame [OF l'] by simp_all
    have c: "mget (cache s) = map_of (loaded now rs)" "cache_bytes s = msum entry_size (cache s)"
      using load_rows_cache [OF l' rows(1)] by (simp_all add: s1 s0_def)
    have parsed: "\<forall>k v x. tbl d k = Some (v, x) \<longrightarrow> parse_rfc3339 x \<noteq> None"
      using load_rows_parsed [OF l'] rows(2) map_of_SomeD by metis
    have cache: "mget (cache s) k = (case rows_abs (tbl d) k of None \<Rightarrow> None
       | Some (v, t) \<Rightarrow> if after now t then None else Some \<lparr>val = v, expires_at = t, volatile = False\<rparr>)" for k
      unfolding c(1) map_of_loaded [OF rows(1)] rows(2) rows_abs_def
      by (auto split: option.splits)
    have s1': "mem_limit s1 = limit" "dirty s1 = mempty" "background s1 = []" by (simp_all add: s1 s0_def)
    have shell: "mem_limit s = limit" "dirty s = mempty" "background s = []"
      using same_shellD [OF fr(1)] s1' by simp_all
    have wf: "store_wf s" using c(2) True shell(1) by (simp add: store_wf_def caching_def)
    show ?thesis
    proof (rule that [OF d _ shell wf])
      show "tbl (db s) = tbl d" using fr(2) td by simp
      show "caching s \<Longrightarrow> (\<forall>k v x. tbl d k = Some (v, x) \<longrightarrow> parse_rfc3339 x \<noteq> None) \<and>
        (\<forall>k. mget (cache s) k = (case rows_abs (tbl d) k of None \<Rightarrow> None
         | Some (v, t) \<Rightarrow> if after now t then None else Some \<lparr>val = v, expires_at = t, volatile = False\<rparr>))"
        using parsed cache by blast
      show "\<not> caching s \<Longrightarrow> cache s = mempty" using True shell(1) by (simp add: caching_def)
    qed
  qed
qed

text \<open>An unexpired row is in memory after opening with a memory layer.\<close>

lemma reopened_entry:
  assumes "open_store E (Inr d) now path limit = Inr s" "0 < limit"
    "tbl d k = Some (item_row e)" "writable (expires_at e)" "\<not> after now (expires_at e)"
  shows "mget (cache s) k = Some (e\<lparr>volatile := False\<rparr>)"
proof -
  have "rows_abs (tbl d) k = Some (val e, expires_at e)"
    using assms(3,4) by (simp add: rows_abs_def item_row_def parse_format)
  moreover have "mem_limit s = limit" by (rule open_rows [OF assms(1)]; assumption)
  then have "caching s" using assms(2) by (simp add: caching_def)
  have "mget (cache s) k = (case rows_abs (tbl d) k of None \<Rightarrow> None
       | Some (v, t) \<Rightarrow> if after now t then None else Some \<lparr>val = v, expires_at = t, volatile = False\<rparr>)"
    using \<open>caching s\<close> by - (rule open_rows [OF assms(1)], simp)
  ultimately show ?thesis using assms(5) by (cases e) simp
qed

text \<open>Opening shows the live rows, in both modes.\<close>

lemma open_live:
  assumes "open_store E opened now path limit = Inr s" "opened = Inr d"
  shows "live now (abs_store tbl s) = live now (rows_abs (tbl d))"
  using assms(1)
proof (rule open_rows)
  fix d' assume *: "opened = Inr d'" "tbl (db s) = tbl d'"
    "caching s \<Longrightarrow> (\<forall>k v x. tbl d' k = Some (v, x) \<longrightarrow> parse_rfc3339 x \<noteq> None) \<and>
      (\<forall>k. mget (cache s) k = (case rows_abs (tbl d') k of None \<Rightarrow> None
       | Some (v, t) \<Rightarrow> if after now t then None else Some \<lparr>val = v, expires_at = t, volatile = False\<rparr>))"
  with assms(2) have d: "tbl (db s) = tbl d" "d' = d" by simp_all
  show ?thesis
  proof (cases "caching s")
    case True
    from conjunct2 [OF *(3) [OF True]] show ?thesis unfolding abs_store_def d(2)
      by (auto simp: True live_def fun_eq_iff abs_cache_def split: option.splits)
  next
    case False
    then show ?thesis by (simp add: abs_store_def d)
  qed
qed

text \<open>A write through to the database leaves its row there.\<close>

lemma put_sync_row:
  assumes "put_with_mode E z now k v ttl mode s = (None, s')" "mode = PutSync \<or> \<not> caching s"
  shows "tbl (db s') k = Some (v, rfc3339 (time_add z now ttl))"
proof -
  have p: "put_with_mode E z now k v ttl PutSync s = (None, s')"
    using assms by (cases "mode = PutSync") (simp_all add: put_with_mode_def)
  obtain q d where q: "sq_exec E (Upsert k v (rfc3339 (time_add z now ttl))) (db s) = (q, d)" by (metis surj_pair)
  then show ?thesis
    by (cases rule: exec_result) (use p q in \<open>auto simp: put_with_mode_def Let_def split: if_splits\<close>)
qed

text \<open>A row without a memory layer, or the entry it was loaded into, as a lookup sees it.\<close>

lemma reopened_row:
  assumes "open_store E (Inr d) now path limit = Inr s" "tbl d k = Some (v, rfc3339 t)" "writable t"
  shows "0 < limit \<Longrightarrow> mget (cache s) k = (if after now t then None
      else Some \<lparr>val = v, expires_at = t, volatile = False\<rparr>)"
    "\<not> 0 < limit \<Longrightarrow> tbl (db s) k = Some (v, rfc3339 t)" "caching s \<longleftrightarrow> 0 < limit"
proof -
  have st: "tbl (db s) = tbl d" "mem_limit s = limit" using open_rows [OF assms(1)] by (metis sum.inject(2))+
  then show c: "caching s \<longleftrightarrow> 0 < limit" by (simp add: caching_def)
  show "tbl (db s) k = Some (v, rfc3339 t)" using st assms(2) by simp
  have "rows_abs (tbl d) k = Some (v, t)" using assms(2,3) by (simp add: rows_abs_def parse_format)
  moreover have "mget (cache s) k = (case rows_abs (tbl d) k of None \<Rightarrow> None
       | Some (v, t) \<Rightarrow> if after now t then None else Some \<lparr>val = v, expires_at = t, volatile = False\<rparr>)" if "0 < limit"
    using that c by - (rule open_rows [OF assms(1)], simp)
  ultimately show "0 < limit \<Longrightarrow> mget (cache s) k = (if after now t then None
      else Some \<lparr>val = v, expires_at = t, volatile = False\<rparr>)" by simp
qed

lemma get_reopened:
  assumes "open_store E (Inr d) now path limit = Inr s" "tbl d k = Some (v, rfc3339 t)" "writable t"
    "get E later k s = ((g, None), s')" "\<not> after now later"
  shows "(if found g \<and> \<not> expired g then Some (result_value g) else None) = (if after later t then None else Some v)"
proof (cases "0 < limit")
  case False
  with get_db_row(2) [OF assms(4)] reopened_row [OF assms(1-3)] assms(3) show ?thesis by auto
next
  case True
  note row = reopened_row [OF assms(1-3)]
  then have "live later (abs_store tbl s) k = (if after later t then None else Some v)"
    using True assms(5) by (auto simp: abs_store_def abs_cache_def live_def after_def)
  moreover have "in_contract {} tbl s" using row(3) True by (simp add: in_contract_def)
  note get_found [OF assms(4) this]
  then have "(if found g \<and> \<not> expired g then Some (result_value g) else None) = live later (abs_store tbl s) k"
    by auto
  ultimately show ?thesis by (simp only:)
qed

end

section \<open>The memory layer mirrors the rows\<close>

text \<open>An entry that is not volatile is the row of its key.\<close>

definition mirrored :: "table \<Rightarrow> 'db store \<Rightarrow> bool" where
  "mirrored t s \<longleftrightarrow> (\<forall>k e. mget (cache s) k = Some e \<and> \<not> volatile e \<longrightarrow> t k = Some (item_row e))"

text \<open>
  The deletes that lookups left behind name expiries earlier than anything since
  written under their keys, so they cannot hit a newer row.
\<close>

definition stale_deletes :: "gotime set \<Rightarrow> int \<Rightarrow> 'db store \<Rightarrow> bool" where
  "stale_deletes T clock s \<longleftrightarrow> (\<forall>st\<in>set (background s). \<exists>k t. st = DeleteKeyAt k (rfc3339 t)
     \<and> t \<in> T \<and> ns t < clock \<and> (\<forall>e. mget (cache s) k = Some e \<longrightarrow> ns t < ns (expires_at e)))"

definition expiries_in :: "gotime set \<Rightarrow> 'db store \<Rightarrow> bool" where
  "expiries_in T s \<longleftrightarrow> (\<forall>k e. mget (cache s) k = Some e \<longrightarrow> expires_at e \<in> T)"

definition mirror_inv :: "gotime set \<Rightarrow> int \<Rightarrow> table \<Rightarrow> 'db store \<Rightarrow> bool" where
  "mirror_inv T clock t s \<longleftrightarrow> caching s \<and> faithful T \<and> mirrored t s \<and> expiries_in T s \<and> stale_deletes T clock s"

text \<open>A call at a time not before the last one, with a positive lifetime.\<close>

fun timely :: "gotime set \<Rightarrow> int \<Rightarrow> op \<Rightarrow> bool" where
  "timely T clock (OpPut z now k v ttl mode) \<longleftrightarrow> clock \<le> ns now \<and> 0 < ttl \<and> time_add z now ttl \<in> T"
| "timely T clock (OpGet now k) \<longleftrightarrow> clock \<le> ns now"
| "timely T clock (OpSweep rng now limit) \<longleftrightarrow> clock \<le> ns now \<and> now \<in> T"
| "timely T clock _ \<longleftrightarrow> True"

definition clock_after :: "int \<Rightarrow> op \<Rightarrow> int" where
  "clock_after clock c = (case call_time c of None \<Rightarrow> clock | Some t \<Rightarrow> ns t)"

text \<open>The one failure that separates the layers: a chunk of an eviction batch.\<close>

fun batch_failed :: "reply \<Rightarrow> bool" where
  "batch_failed (RCount n (Some (ErrEvictBatch x))) = True"
| "batch_failed _ = False"

lemma mirroredD: "mirrored t s \<Longrightarrow> mget (cache s) k = Some e \<Longrightarrow> \<not> volatile e \<Longrightarrow> t k = Some (item_row e)"
  by (simp add: mirrored_def)

lemma mirror_inv_row:
  assumes "mirror_inv T clock t s" "mget (cache s) k = Some e"
  shows "writable (expires_at e)" "\<not> volatile e \<Longrightarrow> t k = Some (item_row e)"
  using assms by (auto simp: mirror_inv_def expiries_in_def faithful_def mirrored_def)

lemma mirrored_db [simp]: "mirrored t (s\<lparr>db := d\<rparr>) = mirrored t s" "mirrored t (s\<lparr>background := b\<rparr>) = mirrored t s"
  "mirrored t (mark_dirty k s) = mirrored t s" "mirrored t (clear_dirty k s) = mirrored t s"
  by (simp_all add: mirrored_def)

lemma mirrored_shrinks: "mirrored t s \<Longrightarrow> cache_shrinks s s' \<Longrightarrow> mirrored t s'"
  by (auto simp: mirrored_def cache_shrinks_def map_le_def) (metis domI)

lemma mirrored_remove:
  assumes "mirrored t s" "cache_shrinks s s'" "\<And>k e. mget (cache s') k = Some e \<Longrightarrow> \<not> volatile e \<Longrightarrow> k \<notin> V"
  shows "mirrored (remove_keys V t) s'"
  using mirrored_shrinks [OF assms(1,2)] assms(3) by (simp add: mirrored_def remove_keys_apply)

lemma expiries_shrinks: "expiries_in T s \<Longrightarrow> cache_shrinks s s' \<Longrightarrow> expiries_in T s'"
  by (auto simp: expiries_in_def cache_shrinks_def map_le_def) (metis domI)

lemma stale_shrinks:
  assumes "stale_deletes T c s" "cache_shrinks s s'" "background s' = background s" "c \<le> c'"
  shows "stale_deletes T c' s'"
  unfolding stale_deletes_def
proof
  fix st assume "st \<in> set (background s')"
  with assms(1,3) obtain k w where w: "st = DeleteKeyAt k (rfc3339 w)" "w \<in> T" "ns w < c"
    "\<forall>e. mget (cache s) k = Some e \<longrightarrow> ns w < ns (expires_at e)"
    unfolding stale_deletes_def by auto
  have "mget (cache s') k = Some e \<Longrightarrow> mget (cache s) k = Some e" for e
    using assms(2) unfolding cache_shrinks_def map_le_def by (metis domI)
  with w assms(4) show "\<exists>k w. st = DeleteKeyAt k (rfc3339 w) \<and> w \<in> T \<and> ns w < c'
      \<and> (\<forall>e. mget (cache s') k = Some e \<longrightarrow> ns w < ns (expires_at e))"
    by (intro exI [of _ k] exI [of _ w]) simp
qed

lemma mirror_invD:
  assumes "mirror_inv T clock t s"
  shows "caching s" "faithful T" "mirrored t s" "expiries_in T s" "stale_deletes T clock s"
  using assms by (simp_all add: mirror_inv_def)

lemma mirror_removal:
  assumes "mirror_inv T clock t s" "cache_shrinks s s'" "same_shell s s'" "clock \<le> clock'"
    "\<And>k e. mget (cache s') k = Some e \<Longrightarrow> \<not> volatile e \<Longrightarrow> k \<notin> V"
  shows "mirror_inv T clock' (remove_keys V t) s'"
proof -
  note inv = mirror_invD [OF assms(1)]
  have "caching s'" using inv(1) same_shell_caching [OF assms(3)] by simp
  moreover have "stale_deletes T clock' s'"
    by (rule stale_shrinks [OF inv(5) assms(2) same_shellD(3) [OF assms(3)] assms(4)])
  ultimately show ?thesis
    using inv(2) mirrored_remove [OF inv(3) assms(2,5)] expiries_shrinks [OF inv(4) assms(2)]
    by (simp add: mirror_inv_def)
qed

lemma mirror_keep:
  assumes "mirror_inv T clock t s" "cache_shrinks s s'" "same_shell s s'" "clock \<le> clock'"
  shows "mirror_inv T clock' t s'"
  using mirror_removal [OF assms, of "{}"] by simp

text \<open>A write: the new entry is newer than every delete left behind for its key.\<close>

lemma mirror_write:
  assumes "mirror_inv T clock t s" "clock \<le> n" "u \<in> T" "n < ns u"
    "t' = t \<and> vol \<or> t' = t(k \<mapsto> (v, rfc3339 u))"
  shows "mirror_inv T n t' (cache_put k v u vol s)"
proof -
  note inv = mirror_invD [OF assms(1)]
  have "mirrored t' (cache_put k v u vol s)"
    using inv(3) assms(5) by (auto simp: mirrored_def item_row_def)
  moreover have "expiries_in T (cache_put k v u vol s)"
    using inv(4) assms(3) by (simp add: expiries_in_def)
  moreover have "stale_deletes T n (cache_put k v u vol s)"
    unfolding stale_deletes_def
  proof
    fix st assume "st \<in> set (background (cache_put k v u vol s))"
    then have "st \<in> set (background s)" by simp
    with inv(5) obtain k' w where w: "st = DeleteKeyAt k' (rfc3339 w)" "w \<in> T" "ns w < clock"
      "\<forall>e. mget (cache s) k' = Some e \<longrightarrow> ns w < ns (expires_at e)"
      unfolding stale_deletes_def by blast
    with assms(2,4) show "\<exists>k' w. st = DeleteKeyAt k' (rfc3339 w) \<and> w \<in> T \<and> ns w < n
        \<and> (\<forall>e. mget (cache (cache_put k v u vol s)) k' = Some e \<longrightarrow> ns w < ns (expires_at e))"
      by (intro exI [of _ k'] exI [of _ w]) simp
  qed
  ultimately show ?thesis using inv(1,2) by (simp add: mirror_inv_def)
qed

lemma mirror_inv_db [simp]: "mirror_inv T c t (s\<lparr>db := d\<rparr>) = mirror_inv T c t s"
  "mirror_inv T c t (mark_dirty k s) = mirror_inv T c t s" "mirror_inv T c t (clear_dirty k s) = mirror_inv T c t s"
  by (simp_all add: mirror_inv_def mirrored_def expiries_in_def stale_deletes_def)

lemma mirror_later: "mirror_inv T c t s \<Longrightarrow> c \<le> c' \<Longrightarrow> mirror_inv T c' t s"
  by (rule mirror_keep) (auto intro: cache_shrinks_intros)

text \<open>A lookup that finds an expired entry drops it and leaves a delete behind.\<close>

lemma mirror_lookup:
  assumes "get E now k s = (g, s')" "mirror_inv T clock t s" "clock \<le> ns now"
  shows "mirror_inv T (ns now) t s' \<and> db s' = db s"
proof -
  note inv = mirror_invD [OF assms(2)]
  have g: "get_cached now k s = (g, s')" using assms(1) inv(1) by (simp add: get_def)
  show ?thesis
  proof (cases "s' = s")
    case True
    with mirror_later [OF assms(2,3)] show ?thesis by simp
  next
    case False
    with g obtain e where e: "mget (cache s) k = Some e" "after now (expires_at e)"
      and s': "s' = (cache_drop k e s)\<lparr>background := background s @ [DeleteKeyAt k (rfc3339 (expires_at e))]\<rparr>"
      by (auto simp: get_cached_def Let_def time_equal_def split: option.splits if_splits)
    have m: "mirror_inv T (ns now) t (cache_drop k e s)"
      using mirror_keep [OF assms(2) _ _ assms(3)] by auto
    note inv' = mirror_invD [OF m]
    have "expires_at e \<in> T" using inv(4) e(1) by (simp add: expiries_in_def)
    with e(2) inv'(5) have "stale_deletes T (ns now) s'"
      unfolding s' by (auto simp: stale_deletes_def after_def)
    with inv'(1-4) s' show ?thesis by (simp add: mirror_inv_def expiries_in_def)
  qed
qed

context sql_engine
begin

lemma mirror_background:
  assumes "mirror_inv T clock (tbl (db s)) s"
  shows "mirror_inv T clock (tbl (db (run_background E s))) (run_background E s)"
proof (cases "background s")
  case Nil
  with assms show ?thesis by (simp add: run_background_def)
next
  case (Cons st sts)
  note inv = mirror_invD [OF assms]
  obtain k u where u: "st = DeleteKeyAt k (rfc3339 u)" "u \<in> T"
    "\<forall>e. mget (cache s) k = Some e \<longrightarrow> ns u < ns (expires_at e)"
    using inv(5) Cons unfolding stale_deletes_def by auto
  obtain q d where q: "sq_exec E st (db s) = (q, d)" by (metis surj_pair)
  have r: "run_background E s = s\<lparr>db := d, background := sts\<rparr>"
    using Cons q by (simp add: run_background_def)
  have st: "stale_deletes T clock (s\<lparr>background := sts\<rparr>)"
    using inv(5) Cons by (auto simp: stale_deletes_def)
  have "mirrored (tbl d) s"
    using q
  proof (cases rule: exec_result)
    case failed
    with inv(3) show ?thesis by simp
  next
    case (succeeded q' n)
    let ?V = "matched (\<lambda>k' e. k' = k \<and> e = rfc3339 u) (tbl (db s))"
    have td: "tbl d = remove_keys ?V (tbl (db s))" using succeeded u(1) by (simp add: removes_def)
    show ?thesis unfolding td
    proof (rule mirrored_remove [OF inv(3)])
      fix k' e assume e: "mget (cache s) k' = Some e" "\<not> volatile e"
      show "k' \<notin> ?V"
      proof
        assume "k' \<in> ?V"
        with mirroredD [OF inv(3) e] have k': "k' = k" "rfc3339 (expires_at e) = rfc3339 u"
          by (auto simp: matched_def item_row_def)
        have "expires_at e \<in> T" using inv(4) e(1) by (simp add: expiries_in_def)
        with k' u e(1) inv(2) show False unfolding faithful_def by (metis order_less_irrefl)
      qed
    qed simp
  qed
  with inv st show ?thesis unfolding r by (simp add: mirror_inv_def expiries_in_def stale_deletes_def)
qed

lemma mirror_put:
  assumes "put_with_mode E z now k v ttl mode s = (e, s')" "mirror_inv T clock (tbl (db s)) s"
    "clock \<le> ns now" "0 < ttl" "time_add z now ttl \<in> T"
  shows "mirror_inv T (ns now) (tbl (db s')) s'"
proof -
  have c: "caching s" using assms(2) by (rule mirror_invD)
  have w: "mirror_inv T (ns now) t' (cache_put k v (time_add z now ttl) vol (s\<lparr>db := d\<rparr>))"
    if "t' = tbl (db s) \<and> vol \<or> t' = (tbl (db s))(k \<mapsto> (v, rfc3339 (time_add z now ttl)))" for t' vol d
    using mirror_write [of T clock "tbl (db s)" "s\<lparr>db := d\<rparr>", OF _ assms(3,5) _ that] assms(2,4) by simp
  have w': "mirror_inv T (ns now) (tbl (db s)) (cache_put k v (time_add z now ttl) True s)"
    using mirror_write [OF assms(2,3,5)] assms(4) by simp
  note later = mirror_later [OF assms(2,3)]
  obtain q d where q: "sq_exec E (Upsert k v (rfc3339 (time_add z now ttl))) (db s) = (q, d)" by (metis surj_pair)
  show ?thesis
  proof (cases mode)
    case PutSync
    from q show ?thesis
    proof (cases rule: exec_result)
      case failed
      with assms(1) PutSync q later show ?thesis by (auto simp: put_with_mode_def Let_def)
    next
      case (succeeded q' n)
      then have td: "tbl d = (tbl (db s))(k \<mapsto> (v, rfc3339 (time_add z now ttl)))" by simp
      have s': "s' = clear_dirty k (cache_put k v (time_add z now ttl) False (s\<lparr>db := d\<rparr>))"
        using assms(1) PutSync q succeeded c by (auto simp: put_with_mode_def Let_def)
      have "mirror_inv T (ns now) (tbl d) (cache_put k v (time_add z now ttl) False (s\<lparr>db := d\<rparr>))"
        using w td by simp
      with s' show ?thesis by simp
    qed
  qed (use assms(1) c w' later in \<open>auto simp: put_with_mode_def Let_def\<close>)
qed

lemma mirror_sweep:
  assumes "delete_expired E rng now limit s = (r, s')" "mirror_inv T clock (tbl (db s)) s"
    "clock \<le> ns now" "now \<in> T" "range_order rng"
  shows "mirror_inv T (ns now) (tbl (db s')) s'"
proof -
  note inv = mirror_invD [OF assms(2)]
  obtain n e where r: "r = (n, e)" by (cases r)
  note c' = delete_expired_cache [OF assms(1) inv(1) assms(5)]
  obtain V where V: "V \<subseteq> matched (\<lambda>k e. e < rfc3339 now) (tbl (db s))" "tbl (db s') = remove_keys V (tbl (db s))"
    using delete_expired_shrinks [OF assms(1) [unfolded r]] by (elim exE conjE) (rule that)
  have sh: "cache_shrinks s s'"
    by (auto simp: cache_shrinks_def map_le_def dom_def c' split: option.splits if_splits)
  show ?thesis unfolding V(2)
  proof (rule mirror_removal [OF assms(2) sh delete_expired_shell [OF assms(1)] assms(3)])
    fix k e assume "mget (cache s') k = Some e" "\<not> volatile e"
    then have e: "mget (cache s) k = Some e" "\<not> after now (expires_at e)" "\<not> volatile e"
      by (auto simp: c' split: option.splits if_splits)
    have "expires_at e \<in> T" using inv(4) e(1) by (simp add: expiries_in_def)
    with e(2) inv(2) assms(4) have "\<not> rfc3339 (expires_at e) < rfc3339 now"
      by (simp add: faithful_def after_def)
    with mirroredD [OF inv(3) e(1,3)] V(1) show "k \<notin> V" by (auto simp: matched_def item_row_def)
  qed
qed

lemma delete_shadows_rows:
  "delete_shadows E vs d = (r, d') \<Longrightarrow> \<exists>V \<subseteq> fst ` set vs. tbl d' = remove_keys V (tbl d)"
proof (induction vs arbitrary: d)
  case Nil
  then show ?case by (intro exI [of _ "{}"]) simp
next
  case (Cons v vs)
  obtain k e where v: "v = (k, e)" by (cases v)
  obtain q d1 where q: "sq_exec E (DeleteKeyUpTo k (rfc3339 (expires_at e))) d = (q, d1)" by (metis surj_pair)
  then have t1: "\<exists>V \<subseteq> {k}. tbl d1 = remove_keys V (tbl d)"
  proof (cases rule: exec_result)
    case failed
    then show ?thesis by (intro exI [of _ "{}"]) simp
  next
    case succeeded
    let ?V = "matched (\<lambda>k' x. k' = k \<and> x \<le> rfc3339 (expires_at e)) (tbl d)"
    have "tbl d1 = remove_keys ?V (tbl d)" using succeeded by (simp add: removes_def)
    moreover have "?V \<subseteq> {k}" unfolding matched_def by blast
    ultimately show ?thesis by (intro exI [of _ ?V] conjI)
  qed
  show ?case
  proof (cases q)
    case (Inl x)
    with Cons.prems q v have "d' = d1" by simp
    with t1 v show ?thesis by (simp del: remove_keys_simps) blast
  next
    case (Inr n)
    with Cons.prems q v have "delete_shadows E vs d1 = (r, d')" by simp
    from Cons.IH [OF this] t1 obtain V W where "V \<subseteq> {k}" "W \<subseteq> fst ` set vs"
      "tbl d' = remove_keys (W \<union> V) (tbl d)" by auto
    with v show ?thesis by (intro exI [of _ "W \<union> V"]) auto
  qed
qed

lemma volatile_victims_set:
  assumes "(k, e) \<in> set (volatile_victims b es)"
  shows "(k, e) \<in> set es \<and> volatile e"
  using assms by (auto simp: volatile_victims_def Let_def split: if_splits dest: in_set_takeD)

lemma mirror_purge_batch:
  assumes "purge_volatile_batch E rng b s = (r, s')" "mirror_inv T clock (tbl (db s)) s" "range_order rng"
  shows "mirror_inv T clock (tbl (db s')) s'"
proof -
  define vs where "vs = volatile_victims b (rng (mentries (cache s)))"
  have vol: "(k, e) \<in> set vs \<Longrightarrow> mget (cache s) k = Some e \<and> volatile e" for k e
    using volatile_victims_set [of k e b "rng (mentries (cache s))"] range_order_set [OF assms(3)]
    by (simp add: vs_def mget_entries)
  obtain q d where d: "delete_shadows E vs (db s) = (q, d)" by (metis surj_pair)
  obtain V where V: "V \<subseteq> fst ` set vs" "tbl d = remove_keys V (tbl (db s))"
    using delete_shadows_rows [OF d] by blast
  note sh = purge_volatile_shrinks [OF assms(1)] purge_volatile_shell [OF assms(1)]
  show ?thesis
  proof (cases "vs = []")
    case True
    with assms(1,2) show ?thesis by (simp add: purge_volatile_batch_def vs_def)
  next
    case False
    have "db s' = d"
      using assms(1) d False
      by (auto simp: purge_volatile_batch_def vs_def [symmetric] split: option.splits prod.splits
          dest: drop_victims_shell)
    moreover have "mirror_inv T clock (remove_keys V (tbl (db s))) s'"
    proof (rule mirror_removal [OF assms(2) sh order_refl])
      fix k e assume e: "mget (cache s') k = Some e" "\<not> volatile e"
      then have "mget (cache s) k = Some e" using sh(1) unfolding cache_shrinks_def map_le_def by (metis domI)
      with e(2) vol V(1) show "k \<notin> V" by force
    qed
    ultimately show ?thesis using V(2) by simp
  qed
qed

lemma mirror_purge_loop:
  assumes "purge_loop E rng limit b runs n s = (r, s')" "mirror_inv T clock (tbl (db s)) s"
    "\<forall>i. range_order (rng i)"
  shows "mirror_inv T clock (tbl (db s')) s'"
  using assms(1,2)
proof (induction runs arbitrary: n s)
  case (Suc runs)
  obtain p s1 where p: "purge_volatile_batch E (rng runs) b s = (p, s1)" by (metis surj_pair)
  have "mirror_inv T clock (tbl (db s1)) s1"
    using mirror_purge_batch [OF p Suc.prems(2)] assms(3) by simp
  with Suc p show ?case by (auto split: sum.splits if_splits)
qed simp

lemma mirror_round:
  assumes "evict_round E limit b s = (q, s')" "mirror_inv T clock (tbl (db s)) s"
    "\<nexists>x. q = Inl (Some (ErrEvictBatch x))"
  shows "mirror_inv T clock (tbl (db s')) s'"
proof -
  obtain u s1 where u: "usage E s = (u, s1)" by (metis surj_pair)
  obtain c s2 where c: "row_count E s1 = (c, s2)" by (metis surj_pair)
  note t = usage_tbl [OF u] row_count_tbl [OF c]
  note sh = usage_shell [OF u] row_count_shell [OF c]
  have m1: "mirror_inv T clock (tbl (db s1)) s1"
    using mirror_keep [OF assms(2) cache_shrinks_eq _ order_refl] sh(1) t(1) by simp
  have m2: "mirror_inv T clock (tbl (db s2)) s2"
    using mirror_keep [OF m1 cache_shrinks_eq _ order_refl] sh(2) t(2) by simp
  consider (stop) "s' = s1 \<or> s' = s2" | (batch) m n where "evict_batch E m s2 = (Inr n, s')"
    using assms(1,3) u c by (auto simp: evict_round_def split: sum.splits prod.splits if_splits)
  then show ?thesis
  proof cases
    case stop
    with m1 m2 show ?thesis by auto
  next
    case batch
    from evict_batch_rows [OF batch] obtain V where V: "tbl (db s') = remove_keys V (tbl (db s2))"
      "mget (cache s') = (if caching s2 then mget (cache s2) |` (- V) else mget (cache s2))"
      by (auto simp: removes_def)
    have "k \<notin> V" if "mget (cache s') k = Some e" for k e
      using that V(2) mirror_invD(1) [OF m2] by (simp add: restrict_map_def split: if_splits)
    with V(1) show ?thesis
      using mirror_removal [OF m2 evict_batch_shrinks [OF batch] evict_batch_shell [OF batch] order_refl] by simp
  qed
qed

lemma mirror_evict_loop:
  assumes "evict_loop E limit b runs n s = ((m, e), s')" "mirror_inv T clock (tbl (db s)) s"
    "\<nexists>x. e = Some (ErrEvictBatch x)"
  shows "mirror_inv T clock (tbl (db s')) s'"
  using assms(1,2)
proof (induction runs arbitrary: n s)
  case (Suc runs)
  obtain q s1 where q: "evict_round E limit b s = (q, s1)" by (metis surj_pair)
  have r: "(case q of Inl r \<Rightarrow> ((n, r), s1) | Inr j \<Rightarrow> evict_loop E limit b runs (n + j) s1) = ((m, e), s')"
    using Suc.prems(1) q by (simp add: evict_loop_round del: evict_loop.simps)
  have "mirror_inv T clock (tbl (db s1)) s1"
    using mirror_round [OF q Suc.prems(2)] r assms(3) by (cases q) auto
  with r Suc.IH show ?case by (cases q) auto
qed simp

lemma mirror_evict:
  assumes "evict_oldest E rng limit b runs s = ((m, e), s')" "mirror_inv T clock (tbl (db s)) s"
    "\<nexists>x. e = Some (ErrEvictBatch x)" "\<forall>i. range_order (rng i)"
  shows "mirror_inv T clock (tbl (db s')) s'"
  using assms(1)
proof (cases rule: evict_oldest_cases)
  case (loops n s1)
  with mirror_invD(1) [OF assms(2)] have "mirror_inv T clock (tbl (db s1)) s1"
    using mirror_purge_loop [OF _ assms(2,4)] by auto
  from mirror_evict_loop [OF loops(3) this assms(3)] show ?thesis .
qed (use assms mirror_purge_loop in auto)

text \<open>The items of a flush are the entries in memory, up to the volatile mark.\<close>

definition items_current :: "flush_item list \<Rightarrow> 'db store \<Rightarrow> bool" where
  "items_current its s \<longleftrightarrow> (\<forall>(k, e)\<in>set its. \<exists>e'. mget (cache s) k = Some e' \<and> item_row e' = item_row e)"

lemma items_current_settles:
  assumes "items_current its s" "cache_settles s s'"
  shows "items_current its s'"
  unfolding items_current_def
proof (clarify)
  fix k e assume "(k, e) \<in> set its"
  with assms(1) obtain e1 where "mget (cache s) k = Some e1" "item_row e1 = item_row e"
    by (auto simp: items_current_def)
  moreover have "rel_option entry_settles (mget (cache s) k) (mget (cache s') k)"
    using assms(2) by (simp add: cache_settles_def)
  ultimately show "\<exists>e'. mget (cache s') k = Some e' \<and> item_row e' = item_row e"
    by (auto simp: option_rel_Some1 entry_settles_def item_row_def)
qed

lemma mirror_settles:
  assumes "mirror_inv T clock t s" "cache_settles s s'" "background s' = background s" "caching s' = caching s"
    "mirrored t' s'"
  shows "mirror_inv T clock t' s'"
proof -
  note inv = mirror_invD [OF assms(1)]
  have older: "mget (cache s') k = Some e' \<Longrightarrow> \<exists>e. mget (cache s) k = Some e \<and> expires_at e = expires_at e'" for k e'
    using assms(2) [unfolded cache_settles_def, rule_format, of k]
    by (auto simp: option_rel_Some2 entry_settles_def)
  have "expiries_in T s'" using inv(4) older unfolding expiries_in_def by metis
  moreover have "stale_deletes T clock s'"
    using inv(5) older unfolding stale_deletes_def assms(3) by metis
  ultimately show ?thesis using inv(1,2) assms(4,5) by (simp add: mirror_inv_def)
qed

lemma flush_chunk_mirrored:
  assumes c: "flush_chunk E c s = (r, s')" and "distinct (map fst c)" "items_current c s" "mirrored (tbl (db s)) s"
  shows "mirrored (tbl (db s')) s'"
  unfolding mirrored_def
proof (intro allI impI)
  fix k e assume e: "mget (cache s') k = Some e \<and> \<not> volatile e"
  note tb = flush_chunk_tbl [OF c] and ca = flush_chunk_cache [OF c assms(2), of k]
  show "tbl (db s') k = Some (item_row e)"
  proof (cases "r = None \<and> k \<in> fst ` set c")
    case False
    then have "r \<noteq> None \<or> map_of c k = None" by (auto simp: map_of_eq_None_iff)
    with ca e have "mget (cache s) k = Some e" by (elim disjE) simp_all
    with mirroredD [OF assms(4)] e have "tbl (db s) k = Some (item_row e)" by simp
    then show ?thesis using False tb by (cases "r = None") (simp_all add: write_items_other)
  next
    case True
    then obtain i where i: "(k, i) \<in> set c" by auto
    with assms(3) obtain e1 where e1: "mget (cache s) k = Some e1" "item_row e1 = item_row i"
      by (auto simp: items_current_def)
    have m: "map_of c k = Some i" using i assms(2) by (simp add: map_of_eq_Some_iff)
    have "item_row e = item_row e1"
      using ca e True m e1 by (auto simp: item_row_def split: if_splits)
    with e1 m True tb show ?thesis by (simp add: write_items_apply [OF assms(2)])
  qed
qed

lemma mirror_flush_chunks:
  assumes "flush_chunks E cs n s = (r, s')" "\<forall>c\<in>set cs. distinct (map fst c)"
    "items_current (concat cs) s" "mirror_inv T clock (tbl (db s)) s"
  shows "mirror_inv T clock (tbl (db s')) s'"
  using assms
proof (induction cs arbitrary: n s)
  case (Cons c cs)
  obtain q s1 where q: "flush_chunk E c s = (q, s1)" by (metis surj_pair)
  have cur: "items_current c s" "items_current (concat cs) s"
    using Cons.prems(3) by (auto simp: items_current_def)
  have set1: "cache_settles s s1" using flush_chunk_settles [of s E c] q by simp
  have "mirrored (tbl (db s1)) s1"
    using flush_chunk_mirrored [OF q _ cur(1)] Cons.prems(2) mirror_invD [OF Cons.prems(4)] by simp
  with mirror_settles [OF Cons.prems(4) set1] flush_chunk_frameD [OF q]
  have "mirror_inv T clock (tbl (db s1)) s1" by simp
  with Cons q items_current_settles [OF cur(2) set1] show ?case
    by (auto split: option.splits)
qed simp

lemma mirror_flush:
  assumes "flush E rng s = (r, s')" "mirror_inv T clock (tbl (db s)) s" "range_order rng"
  shows "mirror_inv T clock (tbl (db s')) s'"
proof (cases "rng (mkeys (dirty s)) = []")
  case True
  with assms mirror_invD(1) [OF assms(2)] show ?thesis
    by (auto simp: flush_def take_dirty_def mirror_inv_def mirrored_def expiries_in_def stale_deletes_def)
next
  case False
  define s0 where "s0 = s\<lparr>dirty := mempty\<rparr>"
  define b where "b = flush_batch (rng (mkeys (dirty s))) s0"
  have f: "flush_chunks E (chunks flush_batch_size b) 0 s0 = (r, s')"
    using assms(1) False mirror_invD(1) [OF assms(2)] by (simp add: flush_def take_dirty_def b_def s0_def)
  have "distinct (rng (mkeys (dirty s)))"
    using range_order_distinct [OF assms(3), of "\<lambda>x. x"] by simp
  then have "distinct (map fst b)" unfolding b_def by (rule distinct_flush_batch)
  then have "\<forall>c\<in>set (chunks flush_batch_size b). distinct (map fst c)"
    using distinct_chunks [of flush_batch_size fst b] by (simp add: flush_batch_size_def)
  moreover have "concat (chunks flush_batch_size b) = b"
    by (simp add: concat_chunks flush_batch_size_def)
  moreover have "items_current b s0"
    by (auto simp: items_current_def b_def set_flush_batch)
  moreover have "mirror_inv T clock (tbl (db s0)) s0"
    using assms(2) by (simp add: s0_def mirror_inv_def mirrored_def expiries_in_def stale_deletes_def)
  ultimately show ?thesis using mirror_flush_chunks [OF f] by simp
qed

lemma mirror_step:
  assumes "step E c s = (r, s')" "mirror_inv T clock (tbl (db s)) s" "timely T clock c" "orders_ok c"
    "\<not> batch_failed r"
  shows "mirror_inv T (clock_after clock c) (tbl (db s')) s'"
proof (cases c)
  case (OpPut z now k v ttl mode)
  with assms mirror_put show ?thesis by (auto simp: clock_after_def split: prod.splits)
next
  case (OpGet now k)
  obtain g where g: "get E now k s = (g, s')" using assms(1) OpGet by (auto split: prod.splits)
  with mirror_lookup [OF g assms(2)] assms(3) OpGet show ?thesis by (simp add: clock_after_def)
next
  case (OpSweep rng now limit)
  with assms mirror_sweep show ?thesis by (auto simp: clock_after_def split: prod.splits)
next
  case (OpEvict rng limit batch runs)
  obtain n e where n: "evict_oldest E rng limit batch runs s = ((n, e), s')" "r = RCount n e"
    using assms(1) OpEvict by (auto split: prod.splits)
  have "\<nexists>x. e = Some (ErrEvictBatch x)" using assms(5) n(2) by auto
  with mirror_evict [OF n(1) assms(2)] assms(4) OpEvict show ?thesis by (simp add: clock_after_def)
next
  case (OpFlush rng)
  with assms mirror_flush show ?thesis by (auto simp: clock_after_def split: prod.splits)
next
  case OpBackground
  with assms mirror_background show ?thesis by (auto simp: clock_after_def)
qed

end

fun timely_run :: "gotime set \<Rightarrow> int \<Rightarrow> op list \<Rightarrow> bool" where
  "timely_run T clock [] \<longleftrightarrow> True"
| "timely_run T clock (c # cs) \<longleftrightarrow> timely T clock c \<and> timely_run T (clock_after clock c) cs"

definition last_clock :: "int \<Rightarrow> op list \<Rightarrow> int" where
  "last_clock clock cs = fold (\<lambda>c t. clock_after t c) cs clock"

context sql_engine
begin

lemma mirror_run:
  assumes "run E cs s = (rs, s')" "mirror_inv T clock (tbl (db s)) s" "timely_run T clock cs"
    "list_all orders_ok cs" "list_all (\<lambda>r. \<not> batch_failed r) rs"
  shows "mirror_inv T (last_clock clock cs) (tbl (db s')) s'"
  using assms
proof (induction cs arbitrary: s rs clock)
  case Nil
  then show ?case by (simp add: last_clock_def)
next
  case (Cons c cs)
  obtain r s1 where r: "step E c s = (r, s1)" by (metis surj_pair)
  obtain rs1 where rs: "run E cs s1 = (rs1, s')" "rs = r # rs1"
    using Cons.prems(1) r by (auto split: prod.splits)
  have "mirror_inv T (clock_after clock c) (tbl (db s1)) s1"
    using mirror_step [OF r Cons.prems(2)] Cons.prems rs by simp
  from Cons.IH [OF rs(1) this] Cons.prems rs show ?case by (simp add: last_clock_def)
qed

text \<open>A store that was just opened with a memory layer mirrors its rows.\<close>

lemma mirror_open:
  assumes "open_store E (Inr d) now path limit = Inr s" "0 < limit" "faithful T" "rows_in T (tbl d)"
  shows "mirror_inv T clock (tbl (db s)) s"
proof -
  have st: "tbl (db s) = tbl d" "mem_limit s = limit" "background s = []"
    using open_rows [OF assms(1)] by (metis sum.inject(2))+
  then have c: "caching s" using assms(2) by (simp add: caching_def)
  have "mget (cache s) k = (case rows_abs (tbl d) k of None \<Rightarrow> None
       | Some (v, t) \<Rightarrow> if after now t then None else Some \<lparr>val = v, expires_at = t, volatile = False\<rparr>)" for k
    using c by - (rule open_rows [OF assms(1)], simp)
  note cache = this
  have "tbl d k = Some (item_row e) \<and> expires_at e \<in> T" if e: "mget (cache s) k = Some e" for k e
  proof -
    obtain v x where row: "tbl d k = Some (v, x)"
      using e cache [of k] by (cases "tbl d k") (auto simp: rows_abs_None)
    obtain u where "u \<in> T" "x = rfc3339 u" "rows_abs (tbl d) k = Some (v, u)"
      using rows_abs_row [OF assms(4,3) row] by metis
    with e row cache [of k] show ?thesis by (auto simp: item_row_def split: if_splits)
  qed
  with c st assms(3) show ?thesis
    by (simp add: mirror_inv_def mirrored_def expiries_in_def stale_deletes_def)
qed

end

section \<open>The invariant of every reachable state\<close>

lemma dirty_volatileD: "dirty_volatile s \<Longrightarrow> k \<in> dom (mget (dirty s)) \<Longrightarrow> mget (cache s) k = Some e \<Longrightarrow> volatile e"
  unfolding dirty_volatile_def by blast

lemma dirty_volatileI:
  "(\<And>k e. k \<in> dom (mget (dirty s)) \<Longrightarrow> mget (cache s) k = Some e \<Longrightarrow> volatile e) \<Longrightarrow> dirty_volatile s"
  unfolding dirty_volatile_def by blast

lemma dirty_volatile_ops [simp]:
  "dirty_volatile (s\<lparr>db := d\<rparr>) = dirty_volatile s" "dirty_volatile (s\<lparr>background := b\<rparr>) = dirty_volatile s"
  "dirty_volatile s \<Longrightarrow> dirty_volatile (clear_dirty k (cache_put k v t vol s))"
  "dirty_volatile s \<Longrightarrow> dirty_volatile (mark_dirty k (cache_put k v t True s))"
  by (simp_all add: dirty_volatile_def)

lemma put_dirty_volatile:
  "put_with_mode E z now k v ttl mode s = (e, s') \<Longrightarrow> dirty_volatile s \<Longrightarrow> dirty_volatile s'"
  by (auto simp: put_with_mode_def Let_def split: put_mode.splits prod.splits sum.splits if_splits)

lemma dirty_volatile_shrinks:
  assumes "dirty_volatile s" "cache_shrinks s s'" "dirty s' = dirty s"
  shows "dirty_volatile s'"
proof -
  have "mget (cache s') k = Some e \<Longrightarrow> mget (cache s) k = Some e" for k e
    using assms(2) unfolding cache_shrinks_def map_le_def by (metis domI)
  with assms(1,3) show ?thesis by (intro dirty_volatileI) (auto dest: dirty_volatileD)
qed

lemma get_shrinks: "get E now k s = (r, s') \<Longrightarrow> cache_shrinks s s'"
  by (auto simp: get_def get_cached_def get_db_def Let_def time_equal_def cache_shrinks_def map_le_def
      split: prod.splits sum.splits option.splits if_splits)

lemma sweep_shrinks:
  assumes "delete_expired E rng now limit s = (r, s')" "range_order rng"
  shows "cache_shrinks s s'"
proof (cases "caching s")
  case True
  then show ?thesis
    by (auto simp: cache_shrinks_def map_le_def dom_def delete_expired_cache [OF assms(1) True assms(2)]
        split: option.splits if_splits)
next
  case False
  with assms(1) sweep_rows_shell show ?thesis by (fastforce simp: delete_expired_def cache_shrinks_def)
qed

text \<open>The counter is exact and what is dirty is not yet durable.\<close>

definition store_inv :: "'db store \<Rightarrow> bool" where
  "store_inv s \<longleftrightarrow> store_wf s \<and> dirty_volatile s"

lemma step_inv:
  assumes "step E c s = (r, s')" "store_inv s" "orders_ok c"
  shows "store_inv s'"
proof -
  have "store_wf s'" using step_wf [OF assms(1)] assms(2,3) by (simp add: store_inv_def)
  moreover have "dirty_volatile s'"
  proof (cases c)
    case (OpPut z now k v ttl mode)
    with assms put_dirty_volatile show ?thesis by (auto simp: store_inv_def split: prod.splits)
  next
    case (OpGet now k)
    then obtain g where g: "get E now k s = (g, s')" using assms(1) by (auto split: prod.splits)
    with dirty_volatile_shrinks get_shrinks get_shell assms(2) show ?thesis by (metis store_inv_def)
  next
    case (OpSweep rng now limit)
    then obtain g where g: "delete_expired E rng now limit s = (g, s')" using assms(1) by (auto split: prod.splits)
    with dirty_volatile_shrinks sweep_shrinks delete_expired_shell same_shellD(2) assms(2,3) OpSweep
    show ?thesis by (metis orders_ok.simps(1) store_inv_def)
  next
    case (OpEvict rng limit batch runs)
    then obtain g where g: "evict_oldest E rng limit batch runs s = (g, s')" using assms(1) by (auto split: prod.splits)
    with dirty_volatile_shrinks evict_oldest_shrinks evict_oldest_shell same_shellD(2) assms(2)
    show ?thesis by (metis store_inv_def)
  next
    case (OpFlush rng)
    with assms flush_dirty_volatile show ?thesis by (auto simp: store_inv_def split: prod.splits)
  next
    case OpBackground
    with assms show ?thesis by (auto simp: store_inv_def run_background_def split: list.splits)
  qed
  ultimately show ?thesis by (simp add: store_inv_def)
qed

lemma run_inv: "run E cs s = (rs, s') \<Longrightarrow> store_inv s \<Longrightarrow> list_all orders_ok cs \<Longrightarrow> store_inv s'"
proof (induction cs arbitrary: s rs)
  case (Cons c cs)
  obtain r s1 where r: "step E c s = (r, s1)" by (metis surj_pair)
  with Cons.prems obtain rs1 where rs: "run E cs s1 = (rs1, s')" by (auto split: prod.splits)
  show ?case using Cons.IH [OF rs] step_inv [OF r] Cons.prems by simp
qed simp

section \<open>Properties\<close>

text \<open>C4: From \<open>Open\<close> on, whatever is called and whatever the database does, the byte counter
  of the memory layer is exactly the sum of the resident entries' sizes (so never
  negative), and every dirty key still in memory is marked volatile.\<close>

theorem reachable_inv:
  assumes "sql_engine E tbl pend" and "open_store E opened now path limit = Inr s"
    and "run E cs s = (rs, s')" and "list_all orders_ok cs"
  shows "cache_bytes s' = msum entry_size (cache s') \<and> 0 \<le> cache_bytes s' \<and> dirty_volatile s'"
proof -
  have "store_wf s" "dirty s = mempty"
    by (rule sql_engine.open_rows [OF assms(1,2)]; assumption)+
  then have "store_inv s'"
    using run_inv [OF assms(3) _ assms(4)] by (simp add: store_inv_def dirty_volatile_def)
  moreover have "0 \<le> msum entry_size (cache s')"
    by (rule msum_nonneg) (simp add: entry_size_pos less_imp_le)
  ultimately show ?thesis by (simp add: store_inv_def store_wf_def)
qed

theorem reachable_inv_witness:
  "\<exists>s. open_store ref_engine (Inr (ref_start [])) (sample_time 0) ''p'' 1000 = Inr s \<and>
    0 \<le> cache_bytes (snd (run ref_engine sample_calls s))"
proof -
  have "is_ok (open_store ref_engine (Inr (ref_start [])) (sample_time 0) ''p'' 1000)" by code_simp
  then obtain s where s: "open_store ref_engine (Inr (ref_start [])) (sample_time 0) ''p'' 1000 = Inr s"
    by (auto simp: isl_def) (metis sum.exhaust)
  have "list_all orders_ok sample_calls" by (simp add: sample_calls_def)
  from reachable_inv [OF ref.sql_engine_axioms s surjective_pairing this] s show ?thesis by auto
qed

text \<open>C18: \<open>Open\<close> shows exactly the live rows: a store opened on a database answers as the rows
  that have not expired say, with and without a memory layer.\<close>

theorem open_shows_live_rows:
  assumes "sql_engine E tbl pend" and "open_store E (Inr d) now path limit = Inr s"
  shows "live now (abs_store tbl s) = live now (rows_abs (tbl d))"
  by (rule sql_engine.open_live [OF assms refl])

theorem open_shows_live_rows_witness:
  "\<exists>s. open_store ref_engine (Inr (db nano_store)) (sample_time 5) ''p'' 1000 = Inr s \<and>
    live (sample_time 5) (abs_store ref_tbl s) ''k'' = Some ''v''"
proof -
  have ok: "is_ok (open_store ref_engine (Inr (db nano_store)) (sample_time 5) ''p'' 1000)"
    "live (sample_time 5) (rows_abs (ref_tbl (db nano_store))) ''k'' = Some ''v''" by code_simp+
  then obtain s where s: "open_store ref_engine (Inr (db nano_store)) (sample_time 5) ''p'' 1000 = Inr s"
    by (auto simp: isl_def) (metis sum.exhaust)
  from open_shows_live_rows [OF ref.sql_engine_axioms s] s ok(2) show ?thesis by auto
qed

text \<open>C17: What a write through to the database stored is what a new process reads, to the
  nanosecond. After a write that reported success, synchronous or without a memory layer, with
  an expiry in the years 0 to 9999 at an offset of whole minutes, a store opened on the
  committed rows holds, with a memory layer, exactly that value and expiry unless it has
  expired; and with or without one a lookup that reports no error, at a time not before
  the opening, finds the value until the very instant of the expiry and nothing after it.\<close>

theorem write_reopen_roundtrip:
  assumes "sql_engine E tbl pend"
    and "put_with_mode E z now k v ttl mode s = (None, s1)" and "mode = PutSync \<or> \<not> caching s"
    and "writable (time_add z now ttl)"
    and "open_store E (Inr d) later path limit = Inr s2" and "tbl d = tbl (db s1)"
    and "get E read k s2 = ((g, None), s3)" and "\<not> after later read"
  shows "(0 < limit \<longrightarrow> mget (cache s2) k = (if after later (time_add z now ttl) then None
        else Some \<lparr>val = v, expires_at = time_add z now ttl, volatile = False\<rparr>))
    \<and> (if found g \<and> \<not> expired g then Some (result_value g) else None)
        = (if after read (time_add z now ttl) then None else Some v)"
proof -
  have row: "tbl d k = Some (v, rfc3339 (time_add z now ttl))"
    using sql_engine.put_sync_row [OF assms(1,2,3)] assms(6) by simp
  from sql_engine.reopened_row(1) [OF assms(1,5) row assms(4)]
    sql_engine.get_reopened [OF assms(1,5) row assms(4,7,8)]
  show ?thesis by blast
qed

theorem write_reopen_roundtrip_witness:
  "\<exists>s2. open_store ref_engine (Inr (db nano_store)) (sample_time 5) ''p'' 1000 = Inr s2
    \<and> mget (cache s2) ''k'' = Some \<lparr>val = ''v'', expires_at = time_add utc (sample_time 0) 5000000001, volatile = False\<rparr>"
proof -
  let ?o = "open_store ref_engine (Inr (db nano_store)) (sample_time 5) ''p'' 1000"
  let ?p = "put_with_mode ref_engine utc (sample_time 0) ''k'' ''v'' 5000000001 PutSync (sample_store 0 [])"
  let ?g = "get ref_engine (sample_time 5) ''k'' (projr ?o)"
  have p: "fst ?p = None" "snd ?p = nano_store" by (simp_all add: nano_store_def put_def) code_simp
  have ok: "is_ok ?o" "snd (fst ?g) = None" "writable (time_add utc (sample_time 0) 5000000001)"
    "\<not> after (sample_time 5) (time_add utc (sample_time 0) 5000000001)" by code_simp+
  have o: "?o = Inr (projr ?o)" using ok(1) by (cases ?o) simp_all
  have put: "?p = (None, nano_store)" using p by (metis prod.collapse)
  obtain g s3 where g: "?g = ((g, None), s3)" using ok(2) by (metis surj_pair fst_conv snd_conv)
  have "\<not> after (sample_time 5) (sample_time 5)" by (simp add: after_def)
  from write_reopen_roundtrip [OF ref.sql_engine_axioms put _ ok(3) o refl g this] ok(4)
  have "mget (cache (projr ?o)) ''k'' = Some \<lparr>val = ''v'', expires_at = time_add utc (sample_time 0) 5000000001, volatile = False\<rparr>"
    by simp
  with o show ?thesis by blast
qed

text \<open>C3: Durability: a store is opened with a memory layer, calls are run on it, and the
  process stops at any point between two calls with only the committed rows left. An entry
  that memory held as not volatile, and that has not expired when the store is opened again
  with a memory layer, is then in memory again with the same value and expiry. The calls
  may write in every mode, look up, sweep, evict, flush, and fail, under these conditions:
  every lifetime written is positive, no call reads an earlier clock than the call before it,
  the expiries in the first rows, the expiries written and the times of the sweeps are ones
  whose texts are ordered as the times are, and no eviction failed in the middle of a
  batch (then rows are gone whose entries stay).\<close>

theorem durable_restart:
  assumes "sql_engine E tbl pend" and "open_store E (Inr d0) t0 path0 limit0 = Inr s0" and "0 < limit0"
    and "faithful T" and "rows_in T (tbl d0)" and "timely_run T (ns t0) cs" and "list_all orders_ok cs"
    and "run E cs s0 = (rs, s1)" and "list_all (\<lambda>r. \<not> batch_failed r) rs"
    and "mget (cache s1) k = Some e" and "\<not> volatile e"
    and "open_store E (Inr d) now path limit = Inr s2" and "tbl d = tbl (db s1)" and "0 < limit"
    and "\<not> after now (expires_at e)"
  shows "mget (cache s2) k = Some e"
proof -
  have "mirror_inv T (last_clock (ns t0) cs) (tbl (db s1)) s1"
    by (rule sql_engine.mirror_run [OF assms(1,8) sql_engine.mirror_open [OF assms(1,2,3,4,5)] assms(6,7,9)])
  then have "tbl d k = Some (item_row e)" "writable (expires_at e)"
    using mirror_inv_row assms(10,11,13) by simp_all
  from sql_engine.reopened_entry [OF assms(1,12,14) this assms(15)] assms(11)
  show ?thesis by (cases e) simp
qed

theorem durable_restart_witness:
  "\<exists>s0 s2. open_store ref_engine (Inr (ref_start [])) (sample_time 0) ''p'' 1000 = Inr s0
    \<and> open_store ref_engine (Inr (db (snd (run ref_engine sample_calls s0)))) (sample_time 3) ''p'' 1000 = Inr s2
    \<and> mget (cache s2) ''k'' = Some \<lparr>val = ''w'', expires_at = sample_time 11, volatile = False\<rparr>"
proof -
  let ?T = "{t. writable t \<and> off t = 0 \<and> ns t mod second = 0}"
  let ?e = "\<lparr>val = ''w'', expires_at = sample_time 11, volatile = False\<rparr>"
  let ?o = "open_store ref_engine (Inr (ref_start [])) (sample_time 0) ''p'' 1000"
  let ?s0 = "projr ?o"
  let ?r = "run ref_engine sample_calls ?s0"
  let ?o2 = "open_store ref_engine (Inr (db (snd ?r))) (sample_time 3) ''p'' 1000"
  have ok: "is_ok ?o" "list_all (\<lambda>r. \<not> batch_failed r) (fst ?r)" "is_ok ?o2"
    "mget (cache (snd ?r)) ''k'' = Some ?e" by code_simp+
  then have o: "?o = Inr ?s0" "?o2 = Inr (projr ?o2)" by (cases ?o; cases ?o2; simp)+
  have rows: "rows_in ?T (ref_tbl (ref_start []))" by (simp add: rows_in_def ref_start_def ref_tbl_def)
  have t: "timely_run ?T (ns (sample_time 0)) sample_calls"
    by (simp add: sample_calls_def clock_after_def) (simp add: second_def sample_time_def)
  have ord: "list_all orders_ok sample_calls" by (simp add: sample_calls_def)
  have "\<not> after (sample_time 3) (expires_at ?e)" by (simp add: after_def sample_time_def second_def)
  from durable_restart [OF ref.sql_engine_axioms o(1) _ faithful_whole_seconds rows t ord surjective_pairing
      ok(2,4) _ o(2) refl _ this]
  have "mget (cache (projr ?o2)) ''k'' = Some ?e" by simp
  with o show ?thesis by blast
qed

end
