(* ===== verification/Evict_Steps.thy ===== *)
theory Evict_Steps
  imports Store_Evict
begin

text \<open>
  \<open>EvictOldest\<close> with a memory layer, cut where \<open>store.go\<close> takes or releases its mutex and
  at each statement, for the interleavings of \<open>Store_Races\<close>. \<open>finishes\<close> runs the steps
  of one eviction without interruption; it then ends in the state \<open>evict_oldest\<close>
  computes.

  The numbers of a task are the limit, the batch size, the purge runs left and the
  rounds left.
\<close>

section \<open>Steps\<close>

datatype evict_task =
    EPurge int int nat nat                                   \<comment> \<open>the test of a purge run\<close>
  | EVictims int int nat nat                                 \<comment> \<open>the snapshot of the volatile entries\<close>
  | EShadows "flush_item list" "flush_item list" int int nat nat
  | EDropVictims "flush_item list" int int nat nat
  | ERound int int nat                                       \<comment> \<open>the test of a round\<close>
  | ECount int int nat
  | ESelect int int int nat                                  \<comment> \<open>the victim query, with its bound\<close>
  | EDeleteRows "key list list" int "key list" int int nat
  | EDropKeys int "key list" int int nat

text \<open>The rows of the victim query and its errors.\<close>

definition victim_keys :: "key rows \<Rightarrow> key list option" where
  "victim_keys q = (case scan_keys (items q) of
      Inl x \<Rightarrow> None
    | Inr keys \<Rightarrow> if iter_err q = None \<and> close_err q = None then Some keys else None)"

fun evict_step :: "'db sqlite \<Rightarrow> ((key \<times> entry) list \<Rightarrow> (key \<times> entry) list) \<Rightarrow> evict_task \<Rightarrow> 'db store
    \<Rightarrow> evict_task option \<times> 'db store" where
  "evict_step E ord (EPurge l b 0 m) s = (Some (ERound l b m), s)"
| "evict_step E ord (EPurge l b (Suc r) m) s =
     (Some (if cache_bytes_of s < l then ERound l b m else EVictims l b r m), s)"
| "evict_step E ord (EVictims l b r m) s =
     (let vs = volatile_victims b (ord (mentries (cache s)))
      in (Some (if vs = [] then ERound l b m else EShadows vs vs l b r m), s))"
| "evict_step E ord (EShadows [] all l b r m) s = (Some (EDropVictims all l b r m), s)"
| "evict_step E ord (EShadows ((k, e) # vs) all l b r m) s =
     (case sq_exec E (DeleteKeyUpTo k (rfc3339 (expires_at e))) (db s) of
        (Inl x, d) \<Rightarrow> (None, s\<lparr>db := d\<rparr>)
      | (Inr _, d) \<Rightarrow> (Some (EShadows vs all l b r m), s\<lparr>db := d\<rparr>))"
| "evict_step E ord (EDropVictims vs l b r m) s =
     (case drop_victims vs 0 s of (n, s) \<Rightarrow> (Some (if n = 0 then ERound l b m else EPurge l b r m), s))"
| "evict_step E ord (ERound l b 0) s = (None, s)"
| "evict_step E ord (ERound l b (Suc m)) s = (if cache_bytes_of s < l then None else Some (ECount l b m), s)"
| "evict_step E ord (ECount l b m) s =
     (case row_count E s of
        (Inl e, s) \<Rightarrow> (None, s)
      | (Inr cnt, s) \<Rightarrow> (if batch_bound b cnt \<le> 0 then None else Some (ESelect (batch_bound b cnt) l b m), s))"
| "evict_step E ord (ESelect bound l b m) s =
     (case sq_select_oldest E bound (db s) of
        (Inl x, d) \<Rightarrow> (None, s\<lparr>db := d\<rparr>)
      | (Inr q, d) \<Rightarrow>
          (case victim_keys q of
             None \<Rightarrow> (None, s\<lparr>db := d\<rparr>)
           | Some keys \<Rightarrow>
               (if keys = [] then None else Some (EDeleteRows (chunks max_delete_params keys) 0 keys l b m), s\<lparr>db := d\<rparr>)))"
| "evict_step E ord (EDeleteRows [] n keys l b m) s = (Some (EDropKeys n keys l b m), s)"
| "evict_step E ord (EDeleteRows (c # cs) n keys l b m) s =
     (case sq_exec E (DeleteKeys c) (db s) of
        (Inl x, d) \<Rightarrow> (None, s\<lparr>db := d\<rparr>)
      | (Inr (Inl x), d) \<Rightarrow> (None, s\<lparr>db := d\<rparr>)
      | (Inr (Inr j), d) \<Rightarrow> (Some (EDeleteRows cs (n + j) keys l b m), s\<lparr>db := d\<rparr>))"
| "evict_step E ord (EDropKeys n keys l b m) s =
     (if n = 0 then None else Some (ERound l b m), fold drop_key keys s)"

lemma row_count_inv: "row_count E s = (r, s') \<Longrightarrow> store_wf s \<Longrightarrow> caching s \<Longrightarrow> store_wf s' \<and> caching s'"
  using row_count_shell [of E s r s'] same_shell_caching store_wf_cong by blast

lemma drop_victims_inv: "drop_victims vs n s = (m, s') \<Longrightarrow> store_wf s \<Longrightarrow> caching s \<Longrightarrow> store_wf s' \<and> caching s'"
  using drop_victims_wf drop_victims_shell same_shell_caching by blast

lemma fold_drop_key_inv: "store_wf s \<Longrightarrow> caching s \<Longrightarrow> store_wf (fold drop_key ks s) \<and> caching (fold drop_key ks s)"
  using fold_drop_key_wf same_shell_caching [OF fold_drop_key_shell] by blast

lemma evict_step_wf:
  assumes "evict_step E ord t s = (t', s')" "store_wf s" "caching s"
  shows "store_wf s' \<and> caching s'"
proof (cases t)
  case (EShadows vs all l b r m)
  with assms show ?thesis by (cases vs) (auto split: prod.splits sum.splits)
next
  case (EDropVictims vs l b r m)
  with assms show ?thesis by (auto split: prod.splits dest: drop_victims_inv)
next
  case (ECount l b m)
  with assms show ?thesis by (auto split: prod.splits sum.splits dest: row_count_inv)
next
  case (ESelect k l b m)
  with assms show ?thesis by (auto split: prod.splits sum.splits option.splits)
next
  case (EDeleteRows cs n keys l b m)
  with assms show ?thesis by (cases cs) (auto split: prod.splits sum.splits)
next
  case (EDropKeys n keys l b m)
  with assms fold_drop_key_inv show ?thesis by auto
next
  case (EPurge l b r m)
  with assms show ?thesis by (cases r) auto
next
  case (ERound l b m)
  with assms show ?thesis by (cases m) auto
qed (use assms in \<open>simp add: Let_def\<close>)

section \<open>Uninterrupted\<close>

inductive finishes :: "'db sqlite \<Rightarrow> ((key \<times> entry) list \<Rightarrow> (key \<times> entry) list) \<Rightarrow> evict_task \<Rightarrow> 'db store \<Rightarrow> 'db store \<Rightarrow> bool"
  for E ord where
  finish_last: "evict_step E ord t s = (None, s') \<Longrightarrow> finishes E ord t s s'"
| finish_more: "evict_step E ord t s = (Some u, s1) \<Longrightarrow> finishes E ord u s1 s' \<Longrightarrow> finishes E ord t s s'"

lemma finishes_delete_rows:
  "delete_chunks E cs n (db s) = ((n', r), d) \<Longrightarrow>
    (case r of Some x \<Rightarrow> s' = s\<lparr>db := d\<rparr> | None \<Rightarrow> finishes E ord (EDropKeys n' keys l b m) (s\<lparr>db := d\<rparr>) s')
    \<Longrightarrow> finishes E ord (EDeleteRows cs n keys l b m) s s'"
proof (induction cs arbitrary: n s)
  case Nil
  have "evict_step E ord (EDeleteRows [] n keys l b m) s = (Some (EDropKeys n keys l b m), s)" by simp
  then show ?case by (rule finish_more) (use Nil in auto)
next
  case (Cons c cs)
  obtain q d1 where q: "sq_exec E (DeleteKeys c) (db s) = (q, d1)" by (metis surj_pair)
  consider (bad) "s' = s\<lparr>db := d1\<rparr>" "isl q \<or> isl (projr q)" | (good) j where "q = Inr (Inr j)"
    using Cons.prems q by (auto split: sum.splits simp: isl_def)
  then show ?case
  proof cases
    case bad
    then show ?thesis using q by (intro finish_last) (auto split: sum.splits)
  next
    case good
    show ?thesis
    proof (rule finish_more)
      show "evict_step E ord (EDeleteRows (c # cs) n keys l b m) s = (Some (EDeleteRows cs (n + j) keys l b m), s\<lparr>db := d1\<rparr>)"
        using q good by simp
      show "finishes E ord (EDeleteRows cs (n + j) keys l b m) (s\<lparr>db := d1\<rparr>) s'"
        using Cons.prems q good by (intro Cons.IH) (auto split: option.splits)
    qed
  qed
qed

lemma finishes_select:
  assumes "delete_oldest_batch_cached E bound s = ((n, r), s1)"
    "if r = None \<and> n \<noteq> 0 then finishes E ord (ERound l b m) s1 s' else s' = s1"
  shows "finishes E ord (ESelect bound l b m) s s'"
proof -
  obtain q d where q: "sq_select_oldest E bound (db s) = (q, d)" by (metis surj_pair)
  show ?thesis
  proof (cases "\<exists>ro keys. q = Inr ro \<and> victim_keys ro = Some keys \<and> keys \<noteq> []")
    case False
    then have "evict_step E ord (ESelect bound l b m) s = (None, s\<lparr>db := d\<rparr>)"
      using q by (auto split: sum.split option.split)
    moreover have "s1 = s\<lparr>db := d\<rparr> \<and> (r \<noteq> None \<or> n = 0)"
      using assms(1) q False
      by (auto simp: delete_oldest_batch_cached_def victim_keys_def Let_def split: sum.splits option.splits if_splits)
    ultimately show ?thesis using assms(2) by (auto intro: finish_last split: if_splits)
  next
    case True
    then obtain ro keys where k: "q = Inr ro" "victim_keys ro = Some keys" "keys \<noteq> []" by blast
    then have ro: "scan_keys (items ro) = Inr keys" "iter_err ro = None" "close_err ro = None"
      by (auto simp: victim_keys_def split: sum.splits if_splits)
    obtain n' r' d' where dc: "delete_chunks E (chunks max_delete_params keys) 0 d = ((n', r'), d')" by (metis surj_pair)
    have res: "n = n'" "r = r'" "s1 = (if r' = None then fold drop_key keys (s\<lparr>db := d'\<rparr>) else s\<lparr>db := d'\<rparr>)"
      using assms(1) q k ro dc by (auto simp: delete_oldest_batch_cached_def split: option.splits)
    show ?thesis
    proof (rule finish_more)
      show "evict_step E ord (ESelect bound l b m) s
          = (Some (EDeleteRows (chunks max_delete_params keys) 0 keys l b m), s\<lparr>db := d\<rparr>)"
        using q k by simp
      show "finishes E ord (EDeleteRows (chunks max_delete_params keys) 0 keys l b m) (s\<lparr>db := d\<rparr>) s'"
      proof (rule finishes_delete_rows)
        show "delete_chunks E (chunks max_delete_params keys) 0 (db (s\<lparr>db := d\<rparr>)) = ((n', r'), d')" using dc by simp
        show "case r' of Some x \<Rightarrow> s' = s\<lparr>db := d, db := d'\<rparr>
            | None \<Rightarrow> finishes E ord (EDropKeys n' keys l b m) (s\<lparr>db := d, db := d'\<rparr>) s'"
          using assms(2) res
          by (auto split: option.split if_splits intro: finish_last finish_more)
      qed
    qed
  qed
qed

lemma finishes_round:
  "caching s \<Longrightarrow> finishes E ord (ERound l b m) s (snd (evict_loop E l b m n s))"
proof (induction m arbitrary: n s)
  case 0
  then show ?case by (simp add: finish_last)
next
  case (Suc m)
  have u: "usage E s = (Inr (cache_bytes_of s), s)" using Suc.prems by (simp add: usage_def)
  obtain c s2 where c: "row_count E s = (c, s2)" by (metis surj_pair)
  have cs2: "caching s2" using row_count_shell [OF c] same_shell_caching Suc.prems by blast
  show ?case
  proof (cases "cache_bytes_of s < l")
    case True
    with u show ?thesis by (intro finish_last) simp
  next
    case low: False
    show ?thesis
    proof (rule finish_more)
      show "evict_step E ord (ERound l b (Suc m)) s = (Some (ECount l b m), s)" using low by simp
      show "finishes E ord (ECount l b m) s (snd (evict_loop E l b (Suc m) n s))"
      proof (cases "\<exists>cnt. c = Inr cnt \<and> 0 < batch_bound b cnt")
        case False
        with u c low show ?thesis by (intro finish_last) (auto simp: Let_def not_less split: sum.splits)
      next
        case True
        then obtain cnt where cnt: "c = Inr cnt" "0 < batch_bound b cnt" by blast
        obtain j r s3 where d: "delete_oldest_batch_cached E (batch_bound b cnt) s2 = ((j, r), s3)" by (metis surj_pair)
        have cs3: "caching s3" using delete_oldest_cached_shell [OF d] same_shell_caching cs2 by blast
        have loop: "snd (evict_loop E l b (Suc m) n s) = (if r = None \<and> j \<noteq> 0 then snd (evict_loop E l b m (n + j) s3) else s3)"
          using u c low cnt d cs2 by (cases r) (auto simp: evict_batch_def Let_def)
        show ?thesis
        proof (rule finish_more)
          show "evict_step E ord (ECount l b m) s = (Some (ESelect (batch_bound b cnt) l b m), s2)" using c cnt by simp
          show "finishes E ord (ESelect (batch_bound b cnt) l b m) s2 (snd (evict_loop E l b (Suc m) n s))"
            using Suc.IH [OF cs3, of "n + j"] by (intro finishes_select [OF d]) (auto simp: loop simp del: evict_loop.simps)
        qed
      qed
    qed
  qed
qed

lemma finishes_shadows:
  "delete_shadows E vs (db s) = (r, d) \<Longrightarrow>
    (case r of Some x \<Rightarrow> s' = s\<lparr>db := d\<rparr> | None \<Rightarrow> finishes E ord (EDropVictims all l b k m) (s\<lparr>db := d\<rparr>) s')
    \<Longrightarrow> finishes E ord (EShadows vs all l b k m) s s'"
proof (induction vs arbitrary: s)
  case Nil
  have "evict_step E ord (EShadows [] all l b k m) s = (Some (EDropVictims all l b k m), s)" by simp
  then show ?case by (rule finish_more) (use Nil in auto)
next
  case (Cons v vs)
  obtain key e where v: "v = (key, e)" by (cases v)
  obtain q d1 where q: "sq_exec E (DeleteKeyUpTo key (rfc3339 (expires_at e))) (db s) = (q, d1)" by (metis surj_pair)
  show ?case
  proof (cases q)
    case (Inl x)
    with Cons.prems q v show ?thesis by (intro finish_last) auto
  next
    case (Inr j)
    show ?thesis
    proof (rule finish_more)
      show "evict_step E ord (EShadows (v # vs) all l b k m) s = (Some (EShadows vs all l b k m), s\<lparr>db := d1\<rparr>)"
        using q v Inr by simp
      show "finishes E ord (EShadows vs all l b k m) (s\<lparr>db := d1\<rparr>) s'"
        using Cons.prems q v Inr by (intro Cons.IH) (auto split: option.splits)
    qed
  qed
qed

lemma finishes_purge:
  assumes "caching s" "purge_loop E (\<lambda>i. ord) l b r n s = ((k, e), s1)"
    "if e = None then s' = snd (evict_loop E l b m j s1) else s' = s1"
  shows "finishes E ord (EPurge l b r m) s s'"
  using assms
proof (induction r arbitrary: n s)
  case 0
  have "evict_step E ord (EPurge l b 0 m) s = (Some (ERound l b m), s)" by simp
  then show ?case by (rule finish_more) (use 0 finishes_round [of s E ord l b m j] in auto)
next
  case (Suc r)
  let ?vs = "volatile_victims b (ord (mentries (cache s)))"
  have round: "finishes E ord (ERound l b m) s (snd (evict_loop E l b m j s))"
    by (rule finishes_round [OF Suc.prems(1)])
  show ?case
  proof (cases "cache_bytes_of s < l")
    case True
    then have "evict_step E ord (EPurge l b (Suc r) m) s = (Some (ERound l b m), s)" by simp
    moreover have "e = None" "s1 = s" using Suc.prems(2) True by simp_all
    ultimately show ?thesis using Suc.prems(3) round by (simp add: finish_more)
  next
    case low: False
    then have "evict_step E ord (EPurge l b (Suc r) m) s = (Some (EVictims l b r m), s)" by simp
    then show ?thesis
    proof (rule finish_more)
      show "finishes E ord (EVictims l b r m) s s'"
      proof (cases "?vs = []")
        case True
        then have "evict_step E ord (EVictims l b r m) s = (Some (ERound l b m), s)" by simp
        moreover have "e = None" "s1 = s" using Suc.prems(2) True low by (simp_all add: purge_volatile_batch_def)
        ultimately show ?thesis using Suc.prems(3) round by (simp add: finish_more)
      next
        case False
        obtain q d where q: "delete_shadows E ?vs (db s) = (q, d)" by (metis surj_pair)
        obtain i s2 where dv: "drop_victims ?vs 0 (s\<lparr>db := d\<rparr>) = (i, s2)" by (metis surj_pair)
        have cs2: "caching s2" using drop_victims_shell [OF dv] same_shell_caching Suc.prems(1) by fastforce
        have drop: "finishes E ord (EDropVictims ?vs l b r m) (s\<lparr>db := d\<rparr>) s'" if "q = None"
        proof (cases "i = 0")
          case True
          then have "e = None" "s1 = s2"
            using Suc.prems(2) low False q dv that by (simp_all add: purge_volatile_batch_def)
          then have "s' = snd (evict_loop E l b m j s2)" using Suc.prems(3) by simp
          moreover have "evict_step E ord (EDropVictims ?vs l b r m) (s\<lparr>db := d\<rparr>) = (Some (ERound l b m), s2)"
            using dv True by simp
          ultimately show ?thesis using finishes_round [OF cs2] finish_more by metis
        next
          case more: False
          have "evict_step E ord (EDropVictims ?vs l b r m) (s\<lparr>db := d\<rparr>) = (Some (EPurge l b r m), s2)"
            using dv more by simp
          then show ?thesis
          proof (rule finish_more)
            have "purge_loop E (\<lambda>i. ord) l b r (n + i) s2 = ((k, e), s1)"
              using Suc.prems(2) low False q dv that more by (simp add: purge_volatile_batch_def)
            then show "finishes E ord (EPurge l b r m) s2 s'" using cs2 Suc.prems(3) by (intro Suc.IH)
          qed
        qed
        have "evict_step E ord (EVictims l b r m) s = (Some (EShadows ?vs ?vs l b r m), s)" using False by (simp add: Let_def)
        then show ?thesis
        proof (rule finish_more)
          show "finishes E ord (EShadows ?vs ?vs l b r m) s s'"
          proof (rule finishes_shadows [OF q])
            show "case q of Some x \<Rightarrow> s' = s\<lparr>db := d\<rparr> | None \<Rightarrow> finishes E ord (EDropVictims ?vs l b r m) (s\<lparr>db := d\<rparr>) s'"
              using drop Suc.prems(2,3) low False q
              by (auto simp: purge_volatile_batch_def split: option.splits if_splits)
          qed
        qed
      qed
    qed
  qed
qed

text \<open>The steps of one eviction, run to the end, are the eviction.\<close>

theorem evict_steps_are_evict_oldest:
  assumes "caching s" "0 < batch" "0 < max_runs"
  shows "finishes E ord (EPurge limit batch (nat max_runs) (nat max_runs)) s
    (snd (evict_oldest E (\<lambda>i. ord) limit batch max_runs s))"
proof -
  obtain k e s1 where p: "purge_loop E (\<lambda>i. ord) limit batch (nat max_runs) 0 s = ((k, e), s1)" by (metis surj_pair)
  then have "snd (evict_oldest E (\<lambda>i. ord) limit batch max_runs s)
      = (if e = None then snd (evict_loop E limit batch (nat max_runs) k s1) else s1)"
    using assms by (simp add: evict_oldest_def split: option.split)
  then show ?thesis by (intro finishes_purge [OF assms(1) p, where j = k]) auto
qed

end
