(* ===== verification/Store_Races.thy ===== *)
theory Store_Races
  imports Store_Flush Evict_Steps
begin

text \<open>
  Concurrent calls. The mutex of \<open>store.go\<close> guards single map operations; between
  two of them, and between a statement and the map operation after it, other
  goroutines run. Each \<open>task\<close> is what a goroutine still has to do, \<open>task_step\<close> its
  next atomic step, and \<open>sys_step\<close> lets any goroutine take one. The splitting
  lemmas show that a call's steps, run without interruption, are the call.
\<close>

section \<open>Goroutines\<close>

datatype task =
    TSync key bytes gotime                        \<comment> \<open>the upsert of a sync write\<close>
  | TMirror key bytes gotime                      \<comment> \<open>its \<open>cachePut\<close>\<close>
  | TAsync key bytes gotime
  | TMark key
  | TMemory key bytes gotime
  | TClear key
  | TFlush
  | TSnapshot "key list"
  | TChunks "flush_item list list"
  | TSettle "flush_item list" "flush_item list list"
  | TGet key gotime                             \<comment> \<open>a lookup, with the clock it will read\<close>
  | TExpire key entry                           \<comment> \<open>its removal of an entry it found expired\<close>
  | TLazyDelete key string                      \<comment> \<open>the goroutine it starts\<close>
  | TSweep gotime int                           \<comment> \<open>the memory purge of \<open>DeleteExpired\<close>\<close>
  | TProbe string int
  | TSweepRows string int
  | TEvict evict_task

text \<open>The database part of a chunk: the transaction, and the dirty marks if it fails.\<close>

definition write_chunk :: "'db sqlite \<Rightarrow> flush_item list \<Rightarrow> 'db store \<Rightarrow> store_error option \<times> 'db store" where
  "write_chunk E chunk s =
    (case sq_begin E (db s) of
       (Inl x, d) \<Rightarrow> (Some (ErrFlushBegin x), re_mark_dirty chunk (s\<lparr>db := d\<rparr>))
     | (Inr _, d) \<Rightarrow>
         (case flush_items E chunk d of
            (Some e, d) \<Rightarrow> (Some e, re_mark_dirty chunk (s\<lparr>db := d\<rparr>))
          | (None, d) \<Rightarrow>
              (case sq_commit E d of
                 (Inl x, d) \<Rightarrow> (Some (ErrFlushCommit x), re_mark_dirty chunk (s\<lparr>db := d\<rparr>))
               | (Inr _, d) \<Rightarrow> (None, s\<lparr>db := d\<rparr>))))"

text \<open>
  \<open>rng\<close> is the order in which \<open>takeDirty\<close> ranges over its set, \<open>ord\<close> the one in
  which the sweep and the purge range over the cache. The database has one
  connection (\<open>SetMaxOpenConns(1)\<close>), so a transaction is one step.
\<close>

type_synonym entry_order = "(key \<times> entry) list \<Rightarrow> (key \<times> entry) list"

fun task_step :: "'db sqlite \<Rightarrow> (key list \<Rightarrow> key list) \<Rightarrow> entry_order \<Rightarrow> task \<Rightarrow> 'db store
    \<Rightarrow> task list \<times> 'db store" where
  "task_step E rng ord (TSync k v t) s =
     (case sq_exec E (Upsert k v (rfc3339 t)) (db s) of
        (Inl x, d) \<Rightarrow> ([], s\<lparr>db := d\<rparr>)
      | (Inr _, d) \<Rightarrow> ([TMirror k v t], s\<lparr>db := d\<rparr>))"
| "task_step E rng ord (TMirror k v t) s = ([TClear k], cache_put k v t False s)"
| "task_step E rng ord (TAsync k v t) s = ([TMark k], cache_put k v t True s)"
| "task_step E rng ord (TMark k) s = ([], mark_dirty k s)"
| "task_step E rng ord (TMemory k v t) s = ([TClear k], cache_put k v t True s)"
| "task_step E rng ord (TClear k) s = ([], clear_dirty k s)"
| "task_step E rng ord TFlush s =
     (case take_dirty rng s of (keys, s) \<Rightarrow> (if keys = [] then [] else [TSnapshot keys], s))"
| "task_step E rng ord (TSnapshot keys) s = ([TChunks (chunks flush_batch_size (flush_batch keys s))], s)"
| "task_step E rng ord (TChunks []) s = ([], s)"
| "task_step E rng ord (TChunks (c # cs)) s =
     (case write_chunk E c s of
        (Some e, s) \<Rightarrow> ([], s)
      | (None, s) \<Rightarrow> ([TSettle c cs], s))"
| "task_step E rng ord (TSettle [] cs) s = ([TChunks cs], s)"
| "task_step E rng ord (TSettle ((k, e) # its) cs) s = ([TSettle its cs], clear_volatile k (expires_at e) s)"
| "task_step E rng ord (TGet k now) s =
     (case mget (cache s) k of
        None \<Rightarrow> ([], s)
      | Some e \<Rightarrow> (if after now (expires_at e) then [TExpire k e] else [], s))"
| "task_step E rng ord (TExpire k e) s =
     ([TLazyDelete k (rfc3339 (expires_at e))],
      case mget (cache s) k of
        Some cur \<Rightarrow> if time_equal (expires_at cur) (expires_at e) then cache_drop k cur s else s
      | None \<Rightarrow> s)"
| "task_step E rng ord (TLazyDelete k x) s = ([], s\<lparr>db := snd (sq_exec E (DeleteKeyAt k x) (db s))\<rparr>)"
| "task_step E rng ord (TSweep now l) s =
     ([TProbe (rfc3339 now) l], purge_expired now (ord (mentries (cache s))) s)"
| "task_step E rng ord (TProbe x l) s =
     (case sq_probe_before E x (db s) of
        (Inr True, d) \<Rightarrow> ([TSweepRows x l], s\<lparr>db := d\<rparr>)
      | (_, d) \<Rightarrow> ([], s\<lparr>db := d\<rparr>))"
| "task_step E rng ord (TSweepRows x l) s =
     ([], s\<lparr>db := snd (sq_exec E (if 0 < l then DeleteBeforeLimit x l else DeleteBefore x) (db s))\<rparr>)"
| "task_step E rng ord (TEvict t) s =
     (case evict_step E ord t s of (r, s) \<Rightarrow> (case r of None \<Rightarrow> [] | Some t \<Rightarrow> [TEvict t], s))"

inductive sys_step :: "'db sqlite \<Rightarrow> task list \<times> 'db store \<Rightarrow> task list \<times> 'db store \<Rightarrow> bool"
  for E :: "'db sqlite" where
  sys_task: "task_step E rng ord t s = (ts, s') \<Longrightarrow> range_order rng \<Longrightarrow> range_order ord \<Longrightarrow>
    sys_step E (xs @ t # ys, s) (xs @ ts @ ys, s')"

inductive_cases sys_stepE: "sys_step E (ts, s) c"

definition sys_reach :: "'db sqlite \<Rightarrow> task list \<times> 'db store \<Rightarrow> task list \<times> 'db store \<Rightarrow> bool" where
  "sys_reach E = (sys_step E)\<^sup>*\<^sup>*"

section \<open>Uninterrupted, the steps are the calls\<close>

lemma flush_chunk_split:
  "flush_chunk E c s = (case write_chunk E c s of
     (Some e, s) \<Rightarrow> (Some e, s)
   | (None, s) \<Rightarrow> (None, fold (\<lambda>(k, e). clear_volatile k (expires_at e)) c s))"
  by (simp add: flush_chunk_def write_chunk_def split: prod.splits sum.splits option.splits)

text \<open>The steps of one goroutine, up to a bound on their number.\<close>

fun drain :: "'db sqlite \<Rightarrow> (key list \<Rightarrow> key list) \<Rightarrow> entry_order \<Rightarrow> nat \<Rightarrow> task list \<Rightarrow> 'db store
    \<Rightarrow> task list \<times> 'db store" where
  "drain E rng ord 0 ts s = (ts, s)"
| "drain E rng ord (Suc n) [] s = ([], s)"
| "drain E rng ord (Suc n) (t # ts) s = (case task_step E rng ord t s of (us, s) \<Rightarrow> drain E rng ord n (us @ ts) s)"

text \<open>\<open>t\<close> runs to its end without interruption and leaves \<open>s'\<close>.\<close>

definition runs_to :: "'db sqlite \<Rightarrow> (key list \<Rightarrow> key list) \<Rightarrow> entry_order \<Rightarrow> task \<Rightarrow> 'db store \<Rightarrow> 'db store \<Rightarrow> bool" where
  "runs_to E rng ord t s s' \<longleftrightarrow> (\<exists>n. drain E rng ord n [t] s = ([], s'))"

lemma drain_Nil [simp]: "drain E rng ord n [] s = ([], s)"
  by (cases n) simp_all

lemma runs_to_end: "task_step E rng ord t s = ([], s') \<Longrightarrow> runs_to E rng ord t s s'"
  unfolding runs_to_def by (rule exI [of _ 1]) simp

lemma runs_to_next: "task_step E rng ord t s = ([u], s1) \<Longrightarrow> runs_to E rng ord u s1 s' \<Longrightarrow> runs_to E rng ord t s s'"
  unfolding runs_to_def by (elim exE, rule_tac x = "Suc n" in exI) simp

lemma runs_settle:
  "runs_to E rng ord (TChunks cs) (fold (\<lambda>(k, e). clear_volatile k (expires_at e)) its s) s' \<Longrightarrow>
    runs_to E rng ord (TSettle its cs) s s'"
proof (induction its arbitrary: s)
  case Nil
  then show ?case by (intro runs_to_next [of E rng ord "TSettle [] cs" s "TChunks cs" s]) simp_all
next
  case (Cons it its)
  obtain k e where it: "it = (k, e)" by (cases it)
  show ?case
    by (rule runs_to_next [of E rng ord _ s "TSettle its cs" "clear_volatile k (expires_at e) s"])
      (use Cons in \<open>simp_all add: it\<close>)
qed

lemma runs_chunks: "runs_to E rng ord (TChunks cs) s (snd (flush_chunks E cs n s))"
proof (induction cs arbitrary: n s)
  case (Cons c cs)
  obtain e s1 where w: "write_chunk E c s = (e, s1)" by (metis surj_pair)
  show ?case
  proof (cases e)
    case (Some x)
    then show ?thesis by (simp add: w flush_chunk_split runs_to_end)
  next
    case None
    then have "task_step E rng ord (TChunks (c # cs)) s = ([TSettle c cs], s1)" using w by simp
    moreover have "runs_to E rng ord (TSettle c cs) s1 (snd (flush_chunks E (c # cs) n s))"
      using Cons [of _ "n + int (length c)"] None by (intro runs_settle) (simp add: w flush_chunk_split)
    ultimately show ?thesis by (rule runs_to_next)
  qed
qed (simp add: runs_to_end)

lemma runs_flush:
  assumes "caching s"
  shows "runs_to E rng ord TFlush s (snd (flush E rng s))"
proof (cases "rng (mkeys (dirty s)) = []")
  case True
  with assms show ?thesis by (simp add: runs_to_end flush_def take_dirty_def)
next
  case False
  let ?ks = "rng (mkeys (dirty s))" and ?s = "s\<lparr>dirty := mempty\<rparr>"
  let ?cs = "chunks flush_batch_size (flush_batch ?ks ?s)"
  have "task_step E rng ord TFlush s = ([TSnapshot ?ks], ?s)" using False by (simp add: take_dirty_def)
  moreover have "task_step E rng ord (TSnapshot ?ks) ?s = ([TChunks ?cs], ?s)" by simp
  moreover have "snd (flush E rng s) = snd (flush_chunks E ?cs 0 ?s)"
    using False assms by (simp add: flush_def take_dirty_def)
  ultimately show ?thesis using runs_to_next runs_chunks by metis
qed

lemma runs_sync:
  assumes "caching s"
  shows "runs_to E rng ord (TSync k v (time_add z now ttl)) s (snd (put_with_mode E z now k v ttl PutSync s))"
proof (cases "sq_exec E (Upsert k v (rfc3339 (time_add z now ttl))) (db s)")
  case (Pair r d)
  show ?thesis
  proof (cases r)
    case (Inl x)
    with Pair show ?thesis by (simp add: put_with_mode_def runs_to_end)
  next
    case (Inr m)
    with Pair assms show ?thesis
      by - (rule runs_to_next [OF _ runs_to_next [OF _ runs_to_end]], (simp add: put_with_mode_def)+)
  qed
qed

lemma runs_async:
  "caching s \<Longrightarrow>
    runs_to E rng ord (TAsync k v (time_add z now ttl)) s (snd (put_with_mode E z now k v ttl PutAsync s))"
  by (rule runs_to_next [OF _ runs_to_end]) (simp add: put_with_mode_def)+

lemma runs_memory:
  "caching s \<Longrightarrow>
    runs_to E rng ord (TMemory k v (time_add z now ttl)) s (snd (put_with_mode E z now k v ttl PutMemory s))"
  by (rule runs_to_next [OF _ runs_to_end]) (simp add: put_with_mode_def)+

lemma runs_get:
  assumes "caching s" "background s = []"
  shows "runs_to E rng ord (TGet k now) s (run_background E (snd (get E now k s)))"
proof (cases "\<exists>e. mget (cache s) k = Some e \<and> after now (expires_at e)")
  case False
  with assms show ?thesis
    by (intro runs_to_end) (auto simp: get_def get_cached_def run_background_def split: option.splits)
next
  case True
  then obtain e where e: "mget (cache s) k = Some e" "after now (expires_at e)" by blast
  with assms show ?thesis
    by - (rule runs_to_next [OF _ runs_to_next [OF _ runs_to_end], of _ _ _ _ _ "TExpire k e" s],
      auto simp: get_def get_cached_def run_background_def time_equal_def)
qed

lemma runs_sweep:
  assumes "caching s"
  shows "runs_to E rng ord (TSweep now l) s (snd (delete_expired E ord now l s))"
proof (rule runs_to_next)
  let ?s = "purge_expired now (ord (mentries (cache s))) s"
  show "task_step E rng ord (TSweep now l) s = ([TProbe (rfc3339 now) l], ?s)" by simp
  obtain r d where p: "sq_probe_before E (rfc3339 now) (db s) = (r, d)" by (metis surj_pair)
  show "runs_to E rng ord (TProbe (rfc3339 now) l) ?s (snd (delete_expired E ord now l s))"
  proof (cases "r = Inr True")
    case False
    with p assms show ?thesis
      by (intro runs_to_end) (auto simp: delete_expired_def sweep_rows_def split: sum.splits bool.splits)
  next
    case True
    with p assms show ?thesis
      by - (rule runs_to_next [OF _ runs_to_end, of _ _ _ _ ?s "TSweepRows (rfc3339 now) l" "?s\<lparr>db := d\<rparr>"],
        auto simp: delete_expired_def sweep_rows_def split: prod.splits sum.splits)
  qed
qed

lemma runs_finishes: "finishes E ord t s s' \<Longrightarrow> runs_to E rng ord (TEvict t) s s'"
  proof (induction rule: finishes.induct)
  case (finish_last t s s')
  then show ?case by (intro runs_to_end) simp
next
  case (finish_more t s u s1 s')
  show ?case by (rule runs_to_next [OF _ finish_more.IH]) (simp add: finish_more.hyps)
qed

section \<open>The counter is exact in every interleaving\<close>

lemma write_chunk_frame:
  "write_chunk E c s = (r, s') \<Longrightarrow> cache s' = cache s \<and> cache_bytes s' = cache_bytes s \<and> mem_limit s' = mem_limit s"
  by (auto simp: write_chunk_def split: prod.splits sum.splits option.splits)

lemma task_step_wf:
  assumes "task_step E rng ord t s = (ts, s')" "range_order ord" "store_wf s" "caching s"
  shows "store_wf s' \<and> caching s'"
proof (cases t)
  case (TExpire k e)
  with assms show ?thesis by (auto intro: kvp_inv split: option.splits)
next
  case (TSweep now l)
  with assms show ?thesis
    by (auto simp: range_order_set mget_entries range_order_distinct intro!: purge_expired_wf)
next
  case (TEvict t)
  with assms show ?thesis by (auto split: prod.splits dest: evict_step_wf)
next
  case (TChunks cs)
  then show ?thesis
    using assms write_chunk_frame [of E "hd cs" s]
    by (cases cs) (auto simp: store_wf_def caching_def split: prod.splits option.splits)
next
  case (TSettle its cs)
  then show ?thesis
    using assms by (cases "(E, rng, ord, t, s)" rule: task_step.cases) (auto intro: kvp_inv)
qed (use assms in \<open>auto simp: take_dirty_def intro: kvp_inv split: prod.splits sum.splits option.splits bool.splits\<close>)

lemma sys_reach_wf:
  assumes "sys_reach E c c'" "store_wf (snd c)" "caching (snd c)"
  shows "store_wf (snd c') \<and> caching (snd c')"
  using assms unfolding sys_reach_def
proof (induction rule: rtranclp_induct)
  case (step d d')
  then have "store_wf (snd d) \<and> caching (snd d)" by blast
  with step.hyps(2) show ?case by - (erule sys_step.cases, auto dest: task_step_wf)
qed simp

section \<open>Schedules\<close>

text \<open>A schedule names the goroutine that runs next by its place in the list.\<close>

fun run_schedule :: "'db sqlite \<Rightarrow> nat list \<Rightarrow> task list \<times> 'db store \<Rightarrow> task list \<times> 'db store" where
  "run_schedule E [] c = c"
| "run_schedule E (i # is) (ts, s) =
     (case drop i ts of
        [] \<Rightarrow> run_schedule E is (ts, s)
      | t # ys \<Rightarrow> (case task_step E (\<lambda>xs. xs) (\<lambda>xs. xs) t s of (us, s) \<Rightarrow> run_schedule E is (take i ts @ us @ ys, s)))"

lemma run_schedule_reach: "sys_reach E c (run_schedule E is c)"
proof (induction E "is" c rule: run_schedule.induct)
  case (1 E c)
  then show ?case by (simp add: sys_reach_def)
next
  case (2 E i "is" ts s)
  show ?case
  proof (cases "drop i ts")
    case Nil
    with 2 show ?thesis by simp
  next
    case (Cons t ys)
    obtain us s' where u: "task_step E (\<lambda>xs. xs) (\<lambda>xs. xs) t s = (us, s')" by (metis surj_pair)
    have "ts = take i ts @ t # ys" using Cons append_take_drop_id [of i ts] by simp
    then have "sys_step E (ts, s) (take i ts @ us @ ys, s')"
      using sys_task [OF u range_order_id(1) range_order_id(1), of "take i ts" ys] by simp
    with 2(2) [OF Cons u [symmetric]] Cons u show ?thesis
      unfolding sys_reach_def by (simp add: converse_rtranclp_into_rtranclp)
  qed
qed

text \<open>Run without interruption, the steps of each goroutine end where the sequential call ends.\<close>

lemma uninterrupted_calls:
  assumes "caching s" and "background s = []" and "0 < batch" and "0 < max_runs"
  shows "runs_to E rng ord (TSync k v (time_add z now ttl)) s (snd (put_with_mode E z now k v ttl PutSync s))
    \<and> runs_to E rng ord (TAsync k v (time_add z now ttl)) s (snd (put_with_mode E z now k v ttl PutAsync s))
    \<and> runs_to E rng ord (TMemory k v (time_add z now ttl)) s (snd (put_with_mode E z now k v ttl PutMemory s))
    \<and> runs_to E rng ord (TGet k now) s (run_background E (snd (get E now k s)))
    \<and> runs_to E rng ord TFlush s (snd (flush E rng s))
    \<and> runs_to E rng ord (TSweep now l) s (snd (delete_expired E ord now l s))
    \<and> runs_to E rng ord (TEvict (EPurge limit batch (nat max_runs) (nat max_runs))) s
        (snd (evict_oldest E (\<lambda>i. ord) limit batch max_runs s))"
  using assms
  by (auto intro: runs_sync runs_async runs_memory runs_get runs_flush runs_sweep
      runs_finishes [OF evict_steps_are_evict_oldest])

section \<open>Properties\<close>

text \<open>C19: In every interleaving of writes in the three modes, lookups, flushes, sweeps and
  evictions, at the code's lock granularity and whatever the database does, the byte counter is the sum of the
  resident entries' sizes.\<close>

theorem races_keep_counter:
  assumes "sys_reach E (ts, s) (ts', s')" and "store_wf s" and "caching s"
  shows "cache_bytes s' = msum entry_size (cache s')"
  using sys_reach_wf [OF assms(1)] assms(2,3) by (simp add: store_wf_def)

definition race_schedule :: "nat list" where
  "race_schedule = [0, 0, 1, 1, 1, 0, 0, 0, 0]"

definition race_tasks :: "task list" where
  "race_tasks = [TFlush, TSync ''k'' ''new'' (sample_time 60)]"

definition race_store :: "ref_db store" where
  "race_store = snd (put_with_mode ref_engine utc (sample_time 0) ''k'' ''old'' second PutAsync (sample_store 1000 []))"

theorem races_keep_counter_witness:
  "cache_bytes (snd (run_schedule ref_engine race_schedule (race_tasks, race_store)))
    = msum entry_size (cache (snd (run_schedule ref_engine race_schedule (race_tasks, race_store))))"
proof -
  have "store_wf race_store" unfolding race_store_def by (rule put_wf) simp
  moreover have "caching race_store" by code_simp
  ultimately show ?thesis
    using races_keep_counter [of ref_engine race_tasks race_store] run_schedule_reach [of ref_engine "(race_tasks, race_store)" race_schedule]
    by (metis prod.collapse)
qed

text \<open>A flush can undo a sync write: there is an interleaving of one flush and one
  acknowledged sync write after which every goroutine is done, the database holds the
  value from before the write, and nothing in memory marks the key as still to be
  written, so a restart brings the old value back.\<close>

lemma flush_undoes_sync_write:
  "\<exists>s'. sys_reach ref_engine (race_tasks, race_store) ([], s')
    \<and> map_option val (mget (cache s') ''k'') = Some ''new''
    \<and> map_option volatile (mget (cache s') ''k'') = Some False
    \<and> dirty_count s' = 0 \<and> map_option fst (ref_tbl (db s') ''k'') = Some ''old''"
proof -
  let ?c = "run_schedule ref_engine race_schedule (race_tasks, race_store)"
  have f: "fst ?c = []" by code_simp
  have v: "map_option val (mget (cache (snd ?c)) ''k'') = Some ''new''" by code_simp
  have o: "map_option volatile (mget (cache (snd ?c)) ''k'') = Some False" by code_simp
  have d: "dirty_count (snd ?c) = 0" by code_simp
  have t: "map_option fst (mget (rtab (db (snd ?c))) ''k'') = Some ''old''" by code_simp
  have "sys_reach ref_engine (race_tasks, race_store) ([], snd ?c)"
    using run_schedule_reach [of ref_engine "(race_tasks, race_store)" race_schedule] f
    by (metis prod.collapse)
  with v o d t show ?thesis by (auto simp: ref_tbl_def)
qed

end
