(* ===== verification/Race_Laws.thy ===== *)
theory Race_Laws
  imports Store_Races
begin

text \<open>
  What survives the interleavings of \<open>Store_Races\<close>. Asynchronous writes and one
  flush at a time lose nothing, however they interleave: \<open>async_writes_kept\<close>, by the
  invariant \<open>async_inv\<close>. Two other mixtures of calls do lose acknowledged writes;
  the schedules that show it are at the end.
\<close>

section \<open>The tasks of writers and of the flusher\<close>

fun is_writer :: "task \<Rightarrow> bool" where
  "is_writer (TAsync k v t) = True"
| "is_writer (TMark k) = True"
| "is_writer _ = False"

fun is_flusher :: "task \<Rightarrow> bool" where
  "is_flusher TFlush = True"
| "is_flusher (TSnapshot ks) = True"
| "is_flusher (TChunks cs) = True"
| "is_flusher (TSettle its cs) = True"
| "is_flusher _ = False"

text \<open>Keys a flush took out of the dirty set, and items it still has to write.\<close>

fun taken :: "task \<Rightarrow> key list" where
  "taken (TSnapshot ks) = ks"
| "taken _ = []"

fun waiting :: "task \<Rightarrow> flush_item list" where
  "waiting (TChunks cs) = concat cs"
| "waiting (TSettle its cs) = concat cs"
| "waiting _ = []"

text \<open>Every cached entry is in the database or due for the next flush.\<close>

definition backed :: "('db \<Rightarrow> table) \<Rightarrow> 'db store \<Rightarrow> bool" where
  "backed tbl s \<longleftrightarrow> (\<forall>k e. mget (cache s) k = Some e \<longrightarrow>
     k \<in> dom (mget (dirty s)) \<or> tbl (db s) k = Some (item_row e))"

text \<open>An engine in which transactions succeed while \<open>good\<close> holds.\<close>

locale healthy_engine = sql_engine E tbl pend
  for E :: "'db sqlite" and tbl :: "'db \<Rightarrow> table" and pend :: "'db \<Rightarrow> table" +
  fixes good :: "'db \<Rightarrow> bool"
  assumes begin_works: "good d \<Longrightarrow> \<exists>d'. sq_begin E d = (Inr (), d') \<and> good d'"
    and tx_works: "good d \<Longrightarrow> \<exists>r d'. sq_tx_exec E st d = (Inr r, d') \<and> good d'"
    and commit_works: "good d \<Longrightarrow> \<exists>d'. sq_commit E d = (Inr (), d') \<and> good d'"
begin

lemma items_work: "good d \<Longrightarrow> \<exists>d'. flush_items E its d = (None, d') \<and> good d'"
proof (induction its arbitrary: d)
  case (Cons it its)
  obtain k e where it: "it = (k, e)" by (cases it)
  obtain r d1 where "sq_tx_exec E (Upsert k (val e) (rfc3339 (expires_at e))) d = (Inr r, d1)" "good d1"
    using tx_works [OF Cons.prems] by blast
  with Cons.IH show ?case by (simp add: it)
qed simp

text \<open>A chunk is written.\<close>

lemma chunk_works:
  assumes "good (db s)"
  obtains d where "write_chunk E c s = (None, s\<lparr>db := d\<rparr>)" "tbl d = write_items c (tbl (db s))" "good d"
proof -
  obtain d1 where d1: "sq_begin E (db s) = (Inr (), d1)" "good d1" using begin_works [OF assms] by blast
  obtain d2 where d2: "flush_items E c d1 = (None, d2)" "good d2" using items_work [OF d1(2)] by blast
  obtain d3 where d3: "sq_commit E d2 = (Inr (), d3)" "good d3" using commit_works [OF d2(2)] by blast
  have w: "write_chunk E c s = (None, s\<lparr>db := d3\<rparr>)" by (simp add: write_chunk_def d1 d2 d3)
  then have "tbl d3 = write_items c (tbl (db s))"
    using flush_chunk_tbl [of c s None] by (simp add: flush_chunk_split)
  with w d3(2) show thesis by (intro that)
qed

end

interpretation ref_healthy: healthy_engine ref_engine ref_tbl ref_pend "\<lambda>d. faults d = []"
  by unfold_locales (auto simp: ref_engine_def ref_io_def)

lemma write_items_same:
  "(\<And>e'. (k, e') \<in> set its \<Longrightarrow> item_row e' = r) \<Longrightarrow>
    write_items its t k = (if k \<in> fst ` set its then Some r else t k)"
proof (induction its arbitrary: t)
  case (Cons it its)
  obtain k' e where it: "it = (k', e)" by (cases it)
  from Cons.prems [of e] Cons show ?case by (force simp: it)
qed simp

section \<open>The invariant\<close>

text \<open>
  \<open>e\<close>, cached under \<open>k\<close>, will reach the database: it is marked or about to be, or
  taken by the flush before it reads memory, or no older value of it is waiting
  and it is itself waiting or in the table.
\<close>

definition covered :: "('db \<Rightarrow> table) \<Rightarrow> task list \<Rightarrow> 'db store \<Rightarrow> key \<Rightarrow> entry \<Rightarrow> bool" where
  "covered tbl ts s k e \<longleftrightarrow> k \<in> dom (mget (dirty s)) \<or> TMark k \<in> set ts \<or> (\<exists>t\<in>set ts. k \<in> set (taken t))
     \<or> (\<forall>t\<in>set ts. \<forall>e'. (k, e') \<in> set (waiting t) \<longrightarrow> item_row e' = item_row e)
       \<and> ((\<exists>t\<in>set ts. k \<in> fst ` set (waiting t)) \<or> tbl (db s) k = Some (item_row e))"

text \<open>Some async write of \<open>all\<close> to \<open>k\<close> is what memory holds.\<close>

definition shows_write :: "task list \<Rightarrow> 'db store \<Rightarrow> key \<Rightarrow> bool" where
  "shows_write all s k \<longleftrightarrow> (\<exists>e. mget (cache s) k = Some e \<and> TAsync k (val e) (expires_at e) \<in> set all)"

definition async_inv :: "('db \<Rightarrow> table) \<Rightarrow> ('db \<Rightarrow> bool) \<Rightarrow> task list \<Rightarrow> task list \<times> 'db store \<Rightarrow> bool" where
  "async_inv tbl good all c \<longleftrightarrow> (case c of (ts, s) \<Rightarrow>
     good (db s) \<and> (\<forall>t\<in>set ts. is_writer t \<or> is_flusher t) \<and> length (filter is_flusher ts) \<le> 1
     \<and> (\<forall>k e. mget (cache s) k = Some e \<longrightarrow> covered tbl ts s k e)
     \<and> (\<forall>k v t. TAsync k v t \<in> set ts \<longrightarrow> TAsync k v t \<in> set all)
     \<and> (\<forall>k v t. TAsync k v t \<in> set all \<longrightarrow> TAsync k v t \<in> set ts \<or> shows_write all s k))"

lemma async_inv_start:
  assumes "good (db s)" "\<forall>t\<in>set ts. is_writer t \<or> t = TFlush" "length (filter is_flusher ts) \<le> 1" "backed tbl s"
  shows "async_inv tbl good ts (ts, s)"
proof -
  have "waiting t = []" if "t \<in> set ts" for t using assms(2) that by (cases t) auto
  with assms show ?thesis by (auto simp: async_inv_def covered_def backed_def)
qed

lemma async_inv_end:
  "async_inv tbl good all ([], s) \<Longrightarrow> backed tbl s \<and> (\<forall>k v t. TAsync k v t \<in> set all \<longrightarrow> shows_write all s k)"
  by (auto simp: async_inv_def covered_def backed_def)

lemma async_inv_all:
  "async_inv tbl good all (ts, s) \<Longrightarrow> TAsync k v t \<in> set all \<Longrightarrow> TAsync k v t \<in> set ts \<or> shows_write all s k"
  by (simp add: async_inv_def)

text \<open>Beside the flush there are only writers.\<close>

lemma async_inv_others:
  assumes "async_inv tbl good all (xs @ t # ys, s)" "is_flusher t" "u \<in> set (xs @ ys)"
  shows "taken u = []" "waiting u = []" "\<not> is_flusher u" "is_writer u"
proof -
  have "filter is_flusher (xs @ ys) = []" using assms(1,2) by (simp add: async_inv_def)
  then show nf: "\<not> is_flusher u" using assms(3) by (auto simp: filter_empty_conv)
  then show "is_writer u" using assms(1,3) by (auto simp: async_inv_def)
  then show "taken u = []" "waiting u = []" by (cases u; simp)+
qed

section \<open>Every step keeps it\<close>

lemma inv_async:
  assumes "async_inv tbl good all (xs @ TAsync k v t # ys, s)"
  shows "async_inv tbl good all (xs @ TMark k # ys, cache_put k v t True s)"
proof -
  have "TAsync k v t \<in> set all" using assms by (simp add: async_inv_def)
  then have "shows_write all (cache_put k v t True s) j \<longleftrightarrow> j = k \<or> shows_write all s j" for j
    by (auto simp: shows_write_def)
  moreover have "covered tbl (xs @ TMark k # ys) (cache_put k v t True s) j e"
    if "mget (cache (cache_put k v t True s)) j = Some e" for j e
  proof (cases "j = k")
    case False
    with assms that have "covered tbl (xs @ TAsync k v t # ys) s j e" by (simp add: async_inv_def)
    then show ?thesis by (auto simp: covered_def ball_Un)
  qed (simp add: covered_def)
  moreover have "TAsync j w u \<in> set (xs @ TMark k # ys) \<or> shows_write all (cache_put k v t True s) j"
    if "TAsync j w u \<in> set all" for j w u
    using async_inv_all [OF assms that] calculation(1) by auto
  ultimately show ?thesis using assms unfolding async_inv_def by (simp del: cache_put_simps(6))
qed

lemma inv_mark:
  assumes "async_inv tbl good all (xs @ TMark k # ys, s)"
  shows "async_inv tbl good all (xs @ ys, mark_dirty k s)"
proof -
  have "covered tbl (xs @ ys) (mark_dirty k s) j e" if "covered tbl (xs @ TMark k # ys) s j e" for j e
    using that by (auto simp: covered_def ball_Un)
  moreover have "shows_write all (mark_dirty k s) = shows_write all s"
    by (simp add: shows_write_def fun_eq_iff)
  ultimately show ?thesis using assms by (auto simp: async_inv_def)
qed

lemma inv_take:
  assumes "async_inv tbl good all (xs @ TFlush # ys, s)" "set ks = dom (mget (dirty s))"
  shows "async_inv tbl good all (xs @ (if ks = [] then [] else [TSnapshot ks]) @ ys, s\<lparr>dirty := mempty\<rparr>)"
proof -
  let ?ts = "xs @ (if ks = [] then [] else [TSnapshot ks]) @ ys"
  have "covered tbl ?ts (s\<lparr>dirty := mempty\<rparr>) j e" if "covered tbl (xs @ TFlush # ys) s j e" for j e
    using that assms(2) by (auto simp: covered_def ball_Un)
  moreover have "shows_write all (s\<lparr>dirty := mempty\<rparr>) = shows_write all s"
    by (simp add: shows_write_def fun_eq_iff)
  ultimately show ?thesis using assms(1) by (auto simp: async_inv_def)
qed

lemma inv_snapshot:
  assumes "async_inv tbl good all (xs @ TSnapshot ks # ys, s)"
  shows "async_inv tbl good all (xs @ TChunks (chunks flush_batch_size (flush_batch ks s)) # ys, s)"
proof -
  note idle = async_inv_others [OF assms, simplified]
  have w: "set (waiting (TChunks (chunks flush_batch_size (flush_batch ks s)))) = set (flush_batch ks s)" by simp
  have "covered tbl (xs @ TChunks (chunks flush_batch_size (flush_batch ks s)) # ys) s k e"
    if "mget (cache s) k = Some e" for k e
  proof -
    have "covered tbl (xs @ TSnapshot ks # ys) s k e" using assms that by (simp add: async_inv_def)
    moreover have "k \<in> fst ` set (flush_batch ks s) \<longleftrightarrow> k \<in> set ks" using that by (auto simp: keys_flush_batch)
    ultimately show ?thesis
      using idle that by (auto simp: covered_def ball_Un set_flush_batch)
  qed
  with assms show ?thesis by (auto simp: async_inv_def)
qed

lemma inv_chunk:
  assumes "async_inv tbl good all (xs @ TChunks (c # cs) # ys, s)" "tbl d = write_items c (tbl (db s))" "good d"
  shows "async_inv tbl good all (xs @ TSettle c cs # ys, s\<lparr>db := d\<rparr>)"
proof -
  note idle = async_inv_others [OF assms(1), simplified]
  have "covered tbl (xs @ TSettle c cs # ys) (s\<lparr>db := d\<rparr>) k e" if "mget (cache s) k = Some e" for k e
  proof -
    have "covered tbl (xs @ TChunks (c # cs) # ys) s k e" using assms(1) that by (simp add: async_inv_def)
    moreover have "tbl d k = (if k \<in> fst ` set c then Some (item_row e) else tbl (db s) k)"
      if "\<forall>e'. (k, e') \<in> set c \<longrightarrow> item_row e' = item_row e"
      unfolding assms(2) by (rule write_items_same) (use that in blast)
    ultimately show ?thesis
      using idle by (cases "k \<in> fst ` set c") (auto simp: covered_def ball_Un bex_Un image_Un)
  qed
  with assms show ?thesis by (auto simp: async_inv_def shows_write_def)
qed

lemma inv_last_chunk:
  "async_inv tbl good all (xs @ TChunks [] # ys, s) \<Longrightarrow> async_inv tbl good all (xs @ ys, s)"
  "async_inv tbl good all (xs @ TSettle [] cs # ys, s) \<Longrightarrow> async_inv tbl good all (xs @ TChunks cs # ys, s)"
  by (auto simp: async_inv_def covered_def ball_Un)

lemma inv_settle:
  assumes "async_inv tbl good all (xs @ TSettle ((k, e) # its) cs # ys, s)"
  shows "async_inv tbl good all (xs @ TSettle its cs # ys, clear_volatile k (expires_at e) s)"
proof -
  let ?s = "clear_volatile k (expires_at e) s"
  have old: "\<exists>f. mget (cache s) j = Some f \<and> val f = val g \<and> expires_at f = expires_at g" if "mget (cache ?s) j = Some g" for j g
    using that by (auto simp: mget_clear_volatile split: if_splits)
  have "covered tbl (xs @ TSettle its cs # ys) ?s j g" if "mget (cache ?s) j = Some g" for j g
  proof -
    obtain f where f: "mget (cache s) j = Some f" "item_row f = item_row g"
      using old [OF \<open>mget (cache ?s) j = Some g\<close>] by (auto simp: item_row_def)
    then have "covered tbl (xs @ TSettle ((k, e) # its) cs # ys) s j f" using assms by (simp add: async_inv_def)
    with f show ?thesis by (auto simp: covered_def ball_Un)
  qed
  moreover have "shows_write all ?s j" if sw: "shows_write all s j" for j
  proof -
    obtain f where f: "mget (cache s) j = Some f" "TAsync j (val f) (expires_at f) \<in> set all"
      using sw by (auto simp: shows_write_def)
    then have "\<exists>g. mget (cache ?s) j = Some g \<and> val g = val f \<and> expires_at g = expires_at f"
      by (cases "volatile f \<and> time_equal (expires_at f) (expires_at e)") (auto simp: mget_clear_volatile)
    with f show ?thesis by (auto simp: shows_write_def)
  qed
  ultimately show ?thesis using assms by (auto simp: async_inv_def) blast
qed

context healthy_engine
begin

lemma async_inv_step:
  assumes "async_inv tbl good all c" "sys_step E c c'"
  shows "async_inv tbl good all c'"
  using assms(2)
proof cases
  case (sys_task rng ord t s us s' xs ys)
  note inv = assms(1) [unfolded sys_task(1)]
  have "is_writer t \<or> is_flusher t" using inv by (simp add: async_inv_def)
  then show ?thesis
  proof (cases t)
    case (TAsync k v u)
    with inv sys_task inv_async show ?thesis by fastforce
  next
    case (TMark k)
    with inv sys_task inv_mark show ?thesis by fastforce
  next
    case TFlush
    have "set (rng (mkeys (dirty s))) = dom (mget (dirty s))" using sys_task by (simp add: range_order_set dom_mget)
    from inv_take [OF _ this] TFlush inv sys_task show ?thesis by (simp add: take_dirty_def split: if_splits)
  next
    case (TSnapshot ks)
    with inv sys_task inv_snapshot show ?thesis by fastforce
  next
    case (TChunks cs)
    show ?thesis
    proof (cases cs)
      case Nil
      with TChunks inv sys_task inv_last_chunk(1) show ?thesis by fastforce
    next
      case (Cons b bs)
      have "good (db s)" using inv by (simp add: async_inv_def)
      then obtain d where "write_chunk E b s = (None, s\<lparr>db := d\<rparr>)" "tbl d = write_items b (tbl (db s))" "good d"
        by (rule chunk_works)
      with inv_chunk [of tbl good all xs b bs ys s d] TChunks Cons inv sys_task
      show ?thesis by auto
    qed
  next
    case (TSettle its cs)
    show ?thesis
    proof (cases its)
      case Nil
      with TSettle inv sys_task inv_last_chunk(2) show ?thesis by fastforce
    next
      case (Cons b bs)
      obtain k e where "b = (k, e)" by (cases b)
      with inv_settle [of tbl good all xs k e bs cs ys s] TSettle Cons inv sys_task show ?thesis by auto
    qed
  qed simp_all
qed

lemma async_inv_reach:
  assumes "sys_reach E c c'" "async_inv tbl good all c"
  shows "async_inv tbl good all c'"
  using assms(1) unfolding sys_reach_def
  by (induction rule: rtranclp_induct) (use assms in \<open>auto intro: async_inv_step\<close>)

end

section \<open>Async writes are kept\<close>

text \<open>C10: With a database that does not fail, any number of async writes and one flush, in any
  interleaving: when all have ended, memory holds one of the writes for each key
  written, and every cached entry is in the database or marked for the next flush.
  The end state meets the assumption on the start again, so this composes over
  flushes that follow each other.\<close>

theorem async_writes_kept:
  assumes "healthy_engine E tbl pend good" and "good (db s)" and "backed tbl s"
    and "\<forall>t\<in>set ts. is_writer t \<or> t = TFlush" and "length (filter is_flusher ts) \<le> 1"
    and "sys_reach E (ts, s) ([], s')"
  shows "backed tbl s' \<and> (\<forall>k v t. TAsync k v t \<in> set ts \<longrightarrow> shows_write ts s' k)"
  using healthy_engine.async_inv_reach [OF assms(1,6) async_inv_start [of good, OF assms(2,4,5,3)]]
  by (rule async_inv_end)

definition async_tasks :: "task list" where
  "async_tasks = [TFlush, TAsync ''k'' ''new'' (sample_time 60)]"

theorem async_writes_kept_witness:
  "backed ref_tbl (snd (run_schedule ref_engine [0, 0, 1, 0, 0, 1, 0, 0] (async_tasks, race_store)))
    \<and> shows_write async_tasks (snd (run_schedule ref_engine [0, 0, 1, 0, 0, 1, 0, 0] (async_tasks, race_store))) ''k''"
proof -
  let ?c = "run_schedule ref_engine [0, 0, 1, 0, 0, 1, 0, 0] (async_tasks, race_store)"
  have f: "fst ?c = []" by code_simp
  have r: "sys_reach ref_engine (async_tasks, race_store) ([], snd ?c)"
    using run_schedule_reach [of ref_engine "(async_tasks, race_store)"] f by (metis prod.collapse)
  have g: "faults (db race_store) = []" by code_simp
  have "dirty race_store = mput ''k'' () mempty" "mkeys (cache race_store) = [''k'']" by code_simp+
  then have b: "backed ref_tbl race_store"
    using dom_mget [of "cache race_store"] by (auto simp: backed_def dom_def)
  from async_writes_kept [OF ref_healthy.healthy_engine_axioms g b _ _ r] show ?thesis
    by (simp add: async_tasks_def)
qed

section \<open>Writes that are lost\<close>

text \<open>A sync write can silence an async one: there is an interleaving of one sync and one
  async write to the same key after which memory shows the async value, still
  volatile, but the key is not marked for a flush and the database holds the sync
  value, so no flush will ever write the acknowledged value.\<close>

lemma sync_unmarks_async_write:
  "\<exists>s'. sys_reach ref_engine
      ([TSync ''k'' ''one'' (sample_time 60), TAsync ''k'' ''two'' (sample_time 70)], sample_store 1000 []) ([], s')
    \<and> map_option val (mget (cache s') ''k'') = Some ''two''
    \<and> map_option volatile (mget (cache s') ''k'') = Some True
    \<and> dirty_count s' = 0 \<and> map_option fst (ref_tbl (db s') ''k'') = Some ''one''"
proof -
  let ?i = "([TSync ''k'' ''one'' (sample_time 60), TAsync ''k'' ''two'' (sample_time 70)], sample_store 1000 [])"
  let ?c = "run_schedule ref_engine [0, 0, 1, 1, 0] ?i"
  have f: "fst ?c = []" by code_simp
  have v: "map_option val (mget (cache (snd ?c)) ''k'') = Some ''two''" by code_simp
  have o: "map_option volatile (mget (cache (snd ?c)) ''k'') = Some True" by code_simp
  have d: "dirty_count (snd ?c) = 0" by code_simp
  have t: "map_option fst (mget (rtab (db (snd ?c))) ''k'') = Some ''one''" by code_simp
  have "sys_reach ref_engine ?i ([], snd ?c)"
    using run_schedule_reach [of ref_engine ?i] f by (metis prod.collapse)
  with v o d t show ?thesis by (auto simp: ref_tbl_def)
qed

text \<open>Eviction can unback a sync write: there is an interleaving of one acknowledged sync
  write and one eviction after which the database has no row for the key, while
  memory shows the value as durable and clean, so nothing will write it again and a
  restart loses it.\<close>

definition evict_race_store :: "ref_db store" where
  "evict_race_store = snd (put ref_engine utc (sample_time 0) ''z'' ''kept'' (90 * second) (sample_store 1000 []))"

definition evict_race_tasks :: "task list" where
  "evict_race_tasks = [TSync ''k'' ''new'' (sample_time 60), TEvict (EPurge 0 1 1 1)]"

lemma eviction_unbacks_sync_write:
  "\<exists>s'. sys_reach ref_engine (evict_race_tasks, evict_race_store) ([], s')
    \<and> map_option val (mget (cache s') ''k'') = Some ''new''
    \<and> map_option volatile (mget (cache s') ''k'') = Some False
    \<and> dirty_count s' = 0 \<and> ref_tbl (db s') ''k'' = None"
proof -
  let ?i = "(evict_race_tasks, evict_race_store)"
  let ?c = "run_schedule ref_engine (0 # replicate 9 1 @ [0, 0]) ?i"
  have f: "fst ?c = []" by code_simp
  have v: "map_option val (mget (cache (snd ?c)) ''k'') = Some ''new''" by code_simp
  have o: "map_option volatile (mget (cache (snd ?c)) ''k'') = Some False" by code_simp
  have d: "dirty_count (snd ?c) = 0" by code_simp
  have t: "mget (rtab (db (snd ?c))) ''k'' = None" by code_simp
  have "sys_reach ref_engine ?i ([], snd ?c)"
    using run_schedule_reach [of ref_engine ?i] f by (metis prod.collapse)
  with v o d t show ?thesis by (auto simp: ref_tbl_def)
qed


text \<open>
  The shutdown does not wait for the jobs (\<open>main.go\<close>): the flush of the job, whose
  context is cancelled, can have taken the dirty set when the final flush looks. The
  final flush then finds nothing to do and succeeds, the job's fails, and the key is
  left marked in a process that ends.
\<close>

definition cancelled_store :: "ref_db store" where
  "cancelled_store = snd (put_with_mode ref_engine utc (sample_time 0) ''k'' ''v'' second PutAsync (sample_store 1000 [True]))"

lemma final_flush_misses_key:
  "\<exists>s'. sys_reach ref_engine ([TFlush, TFlush], cancelled_store) ([], s')
    \<and> dirty_count s' = 1 \<and> ref_tbl (db s') ''k'' = None"
proof -
  let ?i = "([TFlush, TFlush], cancelled_store)"
  let ?c = "run_schedule ref_engine [0, 1, 0, 0] ?i"
  have f: "fst ?c = []" by code_simp
  have d: "dirty_count (snd ?c) = 1" by code_simp
  have t: "mget (rtab (db (snd ?c))) ''k'' = None" by code_simp
  have "sys_reach ref_engine ?i ([], snd ?c)"
    using run_schedule_reach [of ref_engine ?i] f by (metis prod.collapse)
  with d t show ?thesis by (auto simp: ref_tbl_def)
qed

text \<open>C21: Four interleavings after which every call has returned and an acknowledged write is
  lost: a flush writes its older snapshot over a sync write; a sync write removes the
  dirty mark of an async one, whose value stays volatile; an eviction deletes the row of
  a sync write that memory then shows as durable; and a flush of the job that fails
  after the final flush found nothing to do leaves its key marked and unwritten.\<close>

theorem writes_lost_in_races:
  "(\<exists>s'. sys_reach ref_engine (race_tasks, race_store) ([], s')
      \<and> map_option val (mget (cache s') ''k'') = Some ''new''
      \<and> map_option volatile (mget (cache s') ''k'') = Some False
      \<and> dirty_count s' = 0 \<and> map_option fst (ref_tbl (db s') ''k'') = Some ''old'')
    \<and> (\<exists>s'. sys_reach ref_engine
        ([TSync ''k'' ''one'' (sample_time 60), TAsync ''k'' ''two'' (sample_time 70)], sample_store 1000 []) ([], s')
      \<and> map_option val (mget (cache s') ''k'') = Some ''two''
      \<and> map_option volatile (mget (cache s') ''k'') = Some True
      \<and> dirty_count s' = 0 \<and> map_option fst (ref_tbl (db s') ''k'') = Some ''one'')
    \<and> (\<exists>s'. sys_reach ref_engine (evict_race_tasks, evict_race_store) ([], s')
      \<and> map_option val (mget (cache s') ''k'') = Some ''new''
      \<and> map_option volatile (mget (cache s') ''k'') = Some False
      \<and> dirty_count s' = 0 \<and> ref_tbl (db s') ''k'' = None)
    \<and> (\<exists>s'. sys_reach ref_engine ([TFlush, TFlush], cancelled_store) ([], s')
      \<and> dirty_count s' = 1 \<and> ref_tbl (db s') ''k'' = None)"
  using flush_undoes_sync_write sync_unmarks_async_write eviction_unbacks_sync_write final_flush_misses_key
  by (intro conjI)

end
