(* ===== verification/Race_Safety.thy ===== *)
theory Race_Safety
  imports Store_Races
begin

text \<open>
  A fact about every mixture of calls in \<open>Store_Races\<close>, whatever fails: neither layer
  ever holds a value that nobody wrote (\<open>races_invent_nothing\<close>, by an invariant over
  the payloads in flight).
\<close>

section \<open>Payloads\<close>

text \<open>What a goroutine will still write, as keys with a value and an expiry.\<close>

type_synonym payload = "key \<times> bytes \<times> gotime"

definition item_payload :: "flush_item \<Rightarrow> payload" where
  "item_payload it = (case it of (k, e) \<Rightarrow> (k, val e, expires_at e))"

fun payload :: "task \<Rightarrow> payload set" where
  "payload (TSync k v t) = {(k, v, t)}"
| "payload (TMirror k v t) = {(k, v, t)}"
| "payload (TAsync k v t) = {(k, v, t)}"
| "payload (TMemory k v t) = {(k, v, t)}"
| "payload (TChunks cs) = item_payload ` set (concat cs)"
| "payload (TSettle its cs) = item_payload ` set (concat cs)"
| "payload _ = {}"

definition cached :: "'db store \<Rightarrow> payload set" where
  "cached s = {(k, v, t). \<exists>e. mget (cache s) k = Some e \<and> val e = v \<and> expires_at e = t}"

text \<open>\<open>W\<close> may be in memory and in flight; a row is one of \<open>t0\<close> or the text of one of \<open>W\<close>.\<close>

definition rows_from :: "table \<Rightarrow> payload set \<Rightarrow> table \<Rightarrow> bool" where
  "rows_from t0 W t \<longleftrightarrow> (\<forall>k r. t k = Some r \<longrightarrow> t0 k = Some r \<or> (\<exists>v x. (k, v, x) \<in> W \<and> r = (v, rfc3339 x)))"

definition known_inv :: "('db \<Rightarrow> table) \<Rightarrow> table \<Rightarrow> payload set \<Rightarrow> task list \<times> 'db store \<Rightarrow> bool" where
  "known_inv tbl t0 W c \<longleftrightarrow> (\<forall>t\<in>set (fst c). payload t \<subseteq> W) \<and> cached (snd c) \<subseteq> W \<and> rows_from t0 W (tbl (db (snd c)))"

lemma rows_from_simps:
  "rows_from t0 W t0" "rows_from t0 W t \<Longrightarrow> shrinks t t' \<Longrightarrow> rows_from t0 W t'"
  "rows_from t0 W t \<Longrightarrow> (k, v, x) \<in> W \<Longrightarrow> rows_from t0 W (t(k \<mapsto> (v, rfc3339 x)))"
  by (auto simp: rows_from_def shrinks_def map_le_def dom_def)

lemma rows_from_items: "item_payload ` set its \<subseteq> W \<Longrightarrow> rows_from t0 W t \<Longrightarrow> rows_from t0 W (write_items its t)"
proof (induction its arbitrary: t)
  case (Cons it its)
  obtain k e where it: "it = (k, e)" by (cases it)
  show ?case using Cons by (simp add: it item_payload_def item_row_def rows_from_simps(3))
qed simp

lemma shrinks_refl [simp]: "shrinks t t"
  by (simp add: shrinks_def)

lemma shrinks_trans: "shrinks t u \<Longrightarrow> shrinks u v \<Longrightarrow> shrinks t v"
  unfolding shrinks_def by (rule map_le_trans)

lemma cached_shrinks: "cache_shrinks s s' \<Longrightarrow> cached s' \<subseteq> cached s"
  by (force simp: cached_def cache_shrinks_def map_le_def dom_def)

lemma purge_expired_shrinks: "cache_shrinks s (purge_expired now es s)"
  by (auto simp: cache_shrinks_def map_le_def purge_expired_get split: if_splits)

lemma cached_flush_batch: "item_payload ` set (flush_batch ks s) \<subseteq> cached s"
  by (auto simp: item_payload_def cached_def set_flush_batch)

lemma cached_put: "cached (cache_put k v t vol s) \<subseteq> insert (k, v, t) (cached s)"
  by (auto simp: cached_def split: if_splits)

lemma cached_settle: "cached (clear_volatile k t s) \<subseteq> cached s"
  by (auto simp: cached_def mget_clear_volatile split: if_splits)

lemma cached_cong: "cache s = cache s' \<Longrightarrow> cached s = cached s'"
  by (simp add: cached_def)

context sql_engine
begin

lemma exec_shrinks:
  "sq_exec E (DeleteKeyAt k x) d = (r, d') \<Longrightarrow> shrinks (tbl d) (tbl d')"
  "sq_exec E (DeleteKeyUpTo k x) d = (r, d') \<Longrightarrow> shrinks (tbl d) (tbl d')"
  "sq_exec E (DeleteKeys ks) d = (r, d') \<Longrightarrow> shrinks (tbl d) (tbl d')"
  "sq_exec E (DeleteBefore x) d = (r, d') \<Longrightarrow> shrinks (tbl d) (tbl d')"
  "sq_exec E (DeleteBeforeLimit x l) d = (r, d') \<Longrightarrow> shrinks (tbl d) (tbl d')"
  by (erule exec_delete_shrinks, auto dest: removes_shrinks)+

lemma exec_upsert:
  "sq_exec E (Upsert k v x) d = (r, d') \<Longrightarrow> tbl d' = tbl d \<or> tbl d' = (tbl d)(k \<mapsto> (v, x))"
  by (erule exec_result) auto

lemma write_chunk_rows:
  assumes "write_chunk E c s = (r, s')"
  shows "cache s' = cache s" "tbl (db s') = tbl (db s) \<or> tbl (db s') = write_items c (tbl (db s))"
proof -
  show "cache s' = cache s" using write_chunk_frame [OF assms] by simp
  obtain q s2 where q: "flush_chunk E c s = (q, s2)" by (metis surj_pair)
  then have "db s2 = db s'" using assms by (auto simp: flush_chunk_split split: option.splits)
  with flush_chunk_tbl [OF q] show "tbl (db s') = tbl (db s) \<or> tbl (db s') = write_items c (tbl (db s))"
    by auto
qed

lemma evict_step_shrinks:
  assumes "evict_step E ord t s = (t', s')"
  shows "cache_shrinks s s' \<and> shrinks (tbl (db s)) (tbl (db s'))"
proof (cases t)
  case (EShadows vs all l b r m)
  show ?thesis
  proof (cases vs)
    case (Cons v vs')
    obtain k e where v: "v = (k, e)" by (cases v)
    obtain q d where q: "sq_exec E (DeleteKeyUpTo k (rfc3339 (expires_at e))) (db s) = (q, d)" by (metis surj_pair)
    from assms exec_shrinks(2) [OF q] show ?thesis
      by (auto simp: EShadows Cons v q split: sum.splits)
  qed (use assms EShadows in simp)
next
  case (EDropVictims vs l b r m)
  with assms show ?thesis by (auto split: prod.splits dest: drop_victims_shrinks drop_victims_shell)
next
  case (ECount l b m)
  with assms count_pure [of "db s"] show ?thesis
    by (auto simp: row_count_def split: prod.splits sum.splits if_splits)
next
  case (ESelect k l b m)
  with assms oldest_pure [of k "db s"] show ?thesis
    by (auto split: prod.splits sum.splits option.splits)
next
  case (EDeleteRows cs n keys l b m)
  with assms show ?thesis
    by (cases cs) (auto split: prod.splits sum.splits dest: exec_shrinks)
next
  case (EDropKeys n keys l b m)
  with assms fold_drop_key_shrinks show ?thesis by auto
next
  case (EPurge l b r m)
  with assms show ?thesis by (cases r) auto
next
  case (ERound l b m)
  with assms show ?thesis by (cases m) auto
qed (use assms in \<open>simp add: Let_def\<close>)

text \<open>One step: what is cached, the rows and what is in flight.\<close>

lemma task_step_known:
  assumes "task_step E rng ord t s = (us, s')" "payload t \<subseteq> W" "cached s \<subseteq> W" "rows_from t0 W (tbl (db s))"
  shows "(\<forall>u\<in>set us. payload u \<subseteq> W) \<and> cached s' \<subseteq> W \<and> rows_from t0 W (tbl (db s'))"
proof (cases t)
  case (TSync k v x)
  with assms show ?thesis
    by (auto simp: rows_from_simps(3) cached_cong [of "s\<lparr>db := _\<rparr>" s] dest!: exec_upsert split: prod.splits sum.splits)
next
  case (TMirror k v x)
  with assms cached_put [of k v x False s] show ?thesis by auto
next
  case (TAsync k v x)
  with assms cached_put [of k v x True s] show ?thesis by auto
next
  case (TMemory k v x)
  with assms cached_put [of k v x True s] show ?thesis by auto
next
  case (TSnapshot keys)
  have "item_payload ` set (flush_batch keys s) \<subseteq> W"
    using cached_flush_batch assms(3) by (rule subset_trans)
  with assms TSnapshot show ?thesis by auto
next
  case (TChunks cs)
  show ?thesis
  proof (cases cs)
    case (Cons b bs)
    obtain r s1 where w: "write_chunk E b s = (r, s1)" by (metis surj_pair)
    have "rows_from t0 W (tbl (db s1))"
      using write_chunk_rows(2) [OF w] rows_from_items [of b W] assms(2,4) by (auto simp: TChunks Cons image_Un)
    with assms TChunks Cons w write_chunk_rows(1) [OF w] cached_cong [of s1 s] show ?thesis
      by (auto simp: image_Un split: option.splits)
  qed (use assms TChunks in auto)
next
  case (TSettle its cs)
  show ?thesis
  proof (cases its)
    case (Cons b bs)
    obtain k e where "b = (k, e)" by (cases b)
    with assms TSettle Cons cached_settle [of k "expires_at e" s] show ?thesis by auto
  qed (use assms TSettle in auto)
next
  case (TExpire k e)
  with assms show ?thesis
    using cached_shrinks [of s "cache_drop k _ s"] by (auto split: option.splits if_splits)
next
  case (TLazyDelete k x)
  with assms exec_shrinks(1) [of k x "db s", OF surjective_pairing] show ?thesis
    by (auto simp: rows_from_simps(2) cached_cong [of "s\<lparr>db := _\<rparr>" s])
next
  case (TSweep now l)
  with assms cached_shrinks [OF purge_expired_shrinks] show ?thesis by fastforce
next
  case (TProbe x l)
  with assms probe_pure [of x "db s"] show ?thesis
    by (auto simp: cached_cong [of "s\<lparr>db := _\<rparr>" s] split: prod.splits sum.splits bool.splits)
next
  case (TSweepRows x l)
  with assms exec_shrinks(4) [of x "db s", OF surjective_pairing] exec_shrinks(5) [of x l "db s", OF surjective_pairing]
  show ?thesis
    by (auto simp: rows_from_simps(2) cached_cong [of "s\<lparr>db := _\<rparr>" s])
next
  case (TEvict u)
  obtain r s1 where e: "evict_step E ord u s = (r, s1)" by (metis surj_pair)
  with assms TEvict evict_step_shrinks [OF e] cached_shrinks [of s s1] rows_from_simps(2) [OF assms(4), of "tbl (db s1)"]
  show ?thesis by (auto split: option.splits)
qed (use assms in \<open>auto simp: take_dirty_def cached_cong [of "s\<lparr>dirty := _\<rparr>" s] cached_cong [of "mark_dirty _ s" s]
  cached_cong [of "clear_dirty _ s" s] split: option.splits if_splits\<close>)

lemma known_inv_reach:
  assumes "sys_reach E c c'" "known_inv tbl t0 W c"
  shows "known_inv tbl t0 W c'"
  using assms unfolding sys_reach_def
proof (induction rule: rtranclp_induct)
  case (step d d')
  from step.hyps(2) show ?case
  proof cases
    case (sys_task rng ord t s us s' xs ys)
    with step.IH [OF step.prems] task_step_known [OF sys_task(3), of W t0] show ?thesis
      by (auto simp: known_inv_def)
  qed
qed

end

section \<open>Properties\<close>

text \<open>C20: Nothing is invented, whatever interleaves and whatever fails: an entry in memory has the
  value and expiry of one that was there before or of a write among the calls, and a
  row of the database was there before or is the text of such a value and expiry.\<close>

theorem races_invent_nothing:
  assumes "sql_engine E tbl pend" and "sys_reach E (ts, s) (ts', s')"
  shows "cached s' \<subseteq> cached s \<union> (\<Union>t\<in>set ts. payload t)
    \<and> rows_from (tbl (db s)) (cached s \<union> (\<Union>t\<in>set ts. payload t)) (tbl (db s'))"
  using sql_engine.known_inv_reach [OF assms, of "tbl (db s)" "cached s \<union> (\<Union>t\<in>set ts. payload t)"]
  by (auto simp: known_inv_def rows_from_simps(1))

theorem races_invent_nothing_witness:
  "cached (snd (run_schedule ref_engine race_schedule (race_tasks, race_store)))
    \<subseteq> cached race_store \<union> {(''k'', ''new'', sample_time 60)}"
  using races_invent_nothing [OF ref.sql_engine_axioms, of race_tasks race_store
      "fst (run_schedule ref_engine race_schedule (race_tasks, race_store))"]
    run_schedule_reach [of ref_engine "(race_tasks, race_store)" race_schedule]
  by (simp add: race_tasks_def)

end
