(* ===== verification/Store_Backup.thy ===== *)
theory Store_Backup
  imports Store_Core Time_Order
begin

text \<open>
  \<open>Backup\<close> and \<open>RetainBackups\<close> of \<open>store.go\<close>. The operating system is a
  parameter: a record \<open>'fs files\<close> of the calls the source makes on an opaque
  state; \<open>filepath.Join\<close> is modelled on slash-separated paths. The locale
  \<open>backup_dir\<close> states what a directory listing and a removal do to one
  directory.
\<close>

section \<open>Paths\<close>

fun split_path :: "string \<Rightarrow> string list" where
  "split_path [] = [[]]"
| "split_path (c # cs) = (if c = CHR ''/'' then [] # split_path cs
     else case split_path cs of [] \<Rightarrow> [[c]] | w # ws \<Rightarrow> (c # w) # ws)"

text \<open>\<open>filepath.Clean\<close>: the components that remain, innermost first.\<close>

fun clean_step :: "bool \<Rightarrow> string \<Rightarrow> string list \<Rightarrow> string list" where
  "clean_step rooted w st =
    (if w = [] \<or> w = ''.'' then st
     else if w = ''..'' then
       (case st of
          up # rest \<Rightarrow> if up = ''..'' then w # st else rest
        | [] \<Rightarrow> if rooted then [] else [w])
     else w # st)"

definition clean_parts :: "string \<Rightarrow> string list" where
  "clean_parts p = fold (clean_step (has_prefix p ''/'')) (split_path p) []"

fun join_slash :: "string list \<Rightarrow> string" where
  "join_slash [] = []"
| "join_slash [w] = w"
| "join_slash (w # ws) = w @ ''/'' @ join_slash ws"

definition clean_path :: "string \<Rightarrow> string" where
  "clean_path p =
    (let out = join_slash (rev (clean_parts p))
     in if has_prefix p ''/'' then CHR ''/'' # out else if out = [] then ''.'' else out)"

definition join_path :: "string \<Rightarrow> string \<Rightarrow> string" where
  "join_path d n = (if d = [] then (if n = [] then [] else clean_path n) else clean_path (d @ ''/'' @ n))"

text \<open>A directory entry's name.\<close>

definition plain_name :: "string \<Rightarrow> bool" where
  "plain_name n \<longleftrightarrow> n \<noteq> [] \<and> CHR ''/'' \<notin> set n \<and> n \<noteq> ''.'' \<and> n \<noteq> ''..''"

lemma split_path_ne [simp]: "split_path p \<noteq> []"
  by (cases p) (simp_all split: list.split)

lemma split_path_plain: "CHR ''/'' \<notin> set n \<Longrightarrow> split_path n = [n]"
  by (induction n) (auto split: list.splits)

lemma split_path_append: "split_path (d @ CHR ''/'' # n) = split_path d @ split_path n"
  by (induction d) (auto split: list.splits)

lemma join_slash_snoc: "join_slash (ws @ [n]) = concat (map (\<lambda>w. w @ ''/'') ws) @ n"
proof (induction ws)
  case (Cons w ws)
  then show ?case by (cases "ws @ [n]") simp_all
qed simp

text \<open>Joining a directory with a name puts the name after a text of the directory alone.\<close>

definition join_prefix :: "string \<Rightarrow> string" where
  "join_prefix d = (if has_prefix d ''/'' then ''/'' else []) @ concat (map (\<lambda>w. w @ ''/'') (rev (clean_parts d)))"

lemma join_path_plain:
  assumes "plain_name n"
  shows "join_path d n = join_prefix d @ n"
proof -
  have n: "n \<noteq> []" "n \<noteq> ''.''" "n \<noteq> ''..''" "split_path n = [n]"
    using assms by (simp_all add: plain_name_def split_path_plain)
  have slash: "\<not> has_prefix n ''/''" using assms by (cases n) (auto simp: plain_name_def has_prefix_def)
  show ?thesis
  proof (cases "d = []")
    case True
    have "clean_parts n = [n]" by (simp add: clean_parts_def n)
    then show ?thesis using True n slash
      by (simp add: join_path_def clean_path_def join_prefix_def clean_parts_def has_prefix_def)
  next
    case False
    have p: "has_prefix (d @ CHR ''/'' # n) ''/'' = has_prefix d ''/''"
      using False by (cases d) (simp_all add: has_prefix_def)
    have "clean_parts (d @ CHR ''/'' # n) = n # clean_parts d"
      unfolding clean_parts_def p split_path_append by (simp add: n)
    then show ?thesis using False n p
      by (simp add: join_path_def clean_path_def join_prefix_def join_slash_snoc)
  qed
qed

section \<open>The operating system\<close>

text \<open>\<open>os.ReadDir\<close> yields the entries' names with \<open>Type().IsRegular()\<close>.\<close>

record 'fs files =
  fs_mkdir_all :: "string \<Rightarrow> 'fs \<Rightarrow> string option \<times> 'fs"
  fs_read_dir :: "string \<Rightarrow> 'fs \<Rightarrow> (string, (string \<times> bool) list) res \<times> 'fs"
  fs_remove :: "string \<Rightarrow> 'fs \<Rightarrow> string option \<times> 'fs"

section \<open>Backups\<close>

text \<open>\<open>UTC().Format("20060102T150405.000Z")\<close>: milliseconds are cut, not rounded.\<close>

definition backup_stamp :: "gotime \<Rightarrow> string" where
  "backup_stamp t =
    (let secs = ns t div second;
         (y, m, d) = civil_of_days (secs div 86400);
         sod = secs mod 86400
     in pad 4 (nat y) @ pad 2 (nat m) @ pad 2 (nat d) @ ''T'' @ pad 2 (nat (sod div 3600))
        @ pad 2 (nat (sod div 60 mod 60)) @ pad 2 (nat (sod mod 60)) @ ''.''
        @ pad 3 (nat (ns t mod second div 1000000)) @ ''Z'')"

definition backup_name :: "gotime \<Rightarrow> string" where
  "backup_name t = ''kvp-'' @ backup_stamp t @ ''.db''"

text \<open>\<open>strings.ReplaceAll(path, "'", "''")\<close>\<close>

definition quote_sql :: "string \<Rightarrow> string" where
  "quote_sql p = concat (map (\<lambda>c. if c = CHR 39 then [CHR 39, CHR 39] else [c]) p)"

definition backup :: "'db sqlite \<Rightarrow> 'fs files \<Rightarrow> gotime \<Rightarrow> string \<Rightarrow> 'db store \<Rightarrow> 'fs
    \<Rightarrow> (store_error, string) res \<times> 'db store \<times> 'fs" where
  "backup E F now dir s fs =
    (if dir = [] then (Inl ErrBackupDir, s, fs)
     else case fs_mkdir_all F dir fs of
       (Some e, fs) \<Rightarrow> (Inl (ErrMkdir e), s, fs)
     | (None, fs) \<Rightarrow>
         (let path = join_path dir (backup_name now);
              sql = ''VACUUM INTO '' @ [CHR 39] @ quote_sql path @ [CHR 39]
          in case sq_exec E (VacuumInto sql) (db s) of
               (Inl x, d) \<Rightarrow> (Inl (ErrBackup x), s\<lparr>db := d\<rparr>, fs)
             | (Inr _, d) \<Rightarrow> (Inr path, s\<lparr>db := d\<rparr>, fs)))"

definition is_backup :: "string \<times> bool \<Rightarrow> bool" where
  "is_backup e \<longleftrightarrow> snd e \<and> has_prefix (fst e) ''kvp-'' \<and> has_suffix (fst e) ''.db''"

fun remove_files :: "'fs files \<Rightarrow> string list \<Rightarrow> int \<Rightarrow> 'fs \<Rightarrow> (int \<times> store_error option) \<times> 'fs" where
  "remove_files F [] deleted fs = ((deleted, None), fs)"
| "remove_files F (f # files) deleted fs =
     (case fs_remove F f fs of
        (Some e, fs) \<Rightarrow> ((deleted, Some (ErrRemoveBackup f e)), fs)
      | (None, fs) \<Rightarrow> remove_files F files (deleted + 1) fs)"

text \<open>A negative \<open>n\<close> makes the slice bound exceed the length, which panics.\<close>

definition retain_backups :: "'fs files \<Rightarrow> string \<Rightarrow> int \<Rightarrow> 'fs \<Rightarrow> (int \<times> store_error option) outcome \<times> 'fs" where
  "retain_backups F dir n fs =
    (case fs_read_dir F dir fs of
       (Inl e, fs) \<Rightarrow> (Returns (0, Some (ErrReadDir e)), fs)
     | (Inr es, fs) \<Rightarrow>
         (let files = sort (map (\<lambda>e. join_path dir (fst e)) (filter is_backup es));
              excess = int (length files) - n
          in if excess \<le> 0 then (Returns (0, None), fs)
             else if excess > int (length files) then (Panics ''runtime error: slice bounds out of range'', fs)
             else case remove_files F (take (nat excess) files) 0 fs of (r, fs) \<Rightarrow> (Returns r, fs)))"

section \<open>Backup names are ordered by time\<close>

definition backup_time_ok :: "gotime \<Rightarrow> bool" where
  "backup_time_ok t \<longleftrightarrow> (let (y, m, d) = civil_of_days (ns t div second div 86400) in 0 \<le> y \<and> y < 10000)"

lemma compact_date_less:
  assumes "civil_of_days i = (y, m, d)" "civil_of_days j = (y', m', d')"
    and "0 \<le> y" "y < 10000" "0 \<le> y'" "y' < 10000" and "i < j \<or> i = j \<and> x < x'"
  shows "pad 4 (nat y) @ pad 2 (nat m) @ pad 2 (nat d) @ x < pad 4 (nat y') @ pad 2 (nat m') @ pad 2 (nat d') @ x'"
proof -
  note b = civil_of_days_bounds [OF assms(1)] civil_of_days_bounds [OF assms(2)]
  have f: "0 \<le> m" "m < 10 ^ 2" "0 \<le> m'" "m' < 10 ^ 2" "0 \<le> d" "d < 10 ^ 2" "0 \<le> d'" "d' < 10 ^ 2"
    "y < 10 ^ 4" "y' < 10 ^ 4" using b assms by simp_all
  have "y < y' \<or> y = y' \<and> (m < m' \<or> m = m' \<and> (d < d' \<or> d = d' \<and> x < x'))"
    using assms(7) civil_of_days_less [of i j, OF _ assms(1,2)] assms(1,2) by auto
  then show ?thesis
    by (simp only: pad_field_less [OF assms(3) f(9) assms(5) f(10)] pad_field_less [OF f(1-4)]
        pad_field_less [OF f(5-8)])
qed

lemma compact_clock_less:
  assumes "0 \<le> a" "a < 86400" "0 \<le> b" "b < (86400::int)" "a < b \<or> a = b \<and> x < y"
  shows "pad 2 (nat (a div 3600)) @ pad 2 (nat (a div 60 mod 60)) @ pad 2 (nat (a mod 60)) @ x
    < pad 2 (nat (b div 3600)) @ pad 2 (nat (b div 60 mod 60)) @ pad 2 (nat (b mod 60)) @ y"
proof -
  define h m c h' m' c' where d: "h = a div 3600" "m = a div 60 mod 60" "c = a mod 60"
    "h' = b div 3600" "m' = b div 60 mod 60" "c' = b mod 60"
  have bounds: "0 \<le> h" "h < 10 ^ 2" "0 \<le> h'" "h' < 10 ^ 2" "0 \<le> m" "m < 60" "0 \<le> m'" "m' < 60"
    "0 \<le> c" "c < 60" "0 \<le> c'" "c' < 60"
    unfolding d using assms by auto
  have b2: "m < 10 ^ 2" "m' < 10 ^ 2" "c < 10 ^ 2" "c' < 10 ^ 2" using bounds by auto
  have "h * 3600 + m * 60 + c = a" "h' * 3600 + m' * 60 + c' = b" unfolding d by (rule hour_min_sec)+
  then have "h < h' \<or> h = h' \<and> (m < m' \<or> m = m' \<and> (c < c' \<or> c = c' \<and> x < y))"
    using assms(5) bounds by auto
  then show ?thesis
    unfolding d [symmetric]
    by (simp only: pad_field_less [OF bounds(1-4)] pad_field_less [OF bounds(5) b2(1) bounds(7) b2(2)]
        pad_field_less [OF bounds(9) b2(3) bounds(11) b2(4)])
qed

lemma millis_split: "n div 1000000 = n div 1000000000 * 1000 + n mod 1000000000 div (1000000::int)"
proof -
  have n: "n mod 1000000000 + 1000000 * (n div 1000000000 * 1000) = n"
    using div_mult_mod_eq [of n 1000000000] by simp
  have "(n mod 1000000000 + 1000000 * (n div 1000000000 * 1000)) div 1000000
    = n div 1000000000 * 1000 + n mod 1000000000 div 1000000"
    by (rule div_mult_self2) simp
  then show ?thesis unfolding n .
qed

lemma millis_bounds: "0 \<le> n mod 1000000000 div (1000000::int)" "n mod 1000000000 div (1000000::int) < 1000"
  by auto

lemma thousands_unique:
  fixes a b f g :: int
  assumes "a * 1000 + f = b * 1000 + g" "0 \<le> f" "f < 1000" "0 \<le> g" "g < 1000"
  shows "a = b \<and> f = g"
proof -
  have "(a * 1000 + f) div 1000 = a" "(b * 1000 + g) div 1000 = b" using assms(2-5) by simp_all
  with assms(1) show ?thesis by simp
qed

lemma backup_stamp_less:
  assumes "backup_time_ok t" "backup_time_ok u" "ns t div 1000000 < ns u div 1000000"
  shows "backup_stamp t < backup_stamp u"
proof -
  define s where "s = ns t div second"
  define s' where "s' = ns u div second"
  define f where "f = ns t mod second div 1000000"
  define f' where "f' = ns u mod second div 1000000"
  have f: "0 \<le> f" "f < 10 ^ 3" "0 \<le> f'" "f' < 10 ^ 3"
    unfolding f_def f'_def second_def by auto
  have "ns t div 1000000 = s * 1000 + f" "ns u div 1000000 = s' * 1000 + f'"
    unfolding s_def s'_def f_def f'_def second_def by (rule millis_split)+
  with assms(3) f have ss: "s < s' \<or> s = s' \<and> f < f'" by auto
  obtain y m d where c: "civil_of_days (s div 86400) = (y, m, d)" by (cases "civil_of_days (s div 86400)")
  obtain y' m' d' where c': "civil_of_days (s' div 86400) = (y', m', d')" by (cases "civil_of_days (s' div 86400)")
  have yb: "0 \<le> y" "y < 10000" "0 \<le> y'" "y' < 10000"
    using assms(1,2) c c' by (simp_all add: backup_time_ok_def s_def s'_def)
  have sod: "0 \<le> x mod 86400" "x mod 86400 < 86400" for x :: int by simp_all
  have split: "s div 86400 < s' div 86400 \<or> s div 86400 = s' div 86400
      \<and> (s mod 86400 < s' mod 86400 \<or> s mod 86400 = s' mod 86400 \<and> f < f')"
    using ss zdiv_mono1 [of s s' 86400] div_mult_mod_eq [of s 86400] div_mult_mod_eq [of s' 86400] by linarith
  have frac: "f < f' \<Longrightarrow> ''.'' @ pad 3 (nat f) @ ''Z'' < ''.'' @ pad 3 (nat f') @ ''Z''"
    using pad_field_less [OF f, of "''Z''" "''Z''"] by simp
  have "s mod 86400 < s' mod 86400 \<or> s mod 86400 = s' mod 86400 \<and> f < f' \<Longrightarrow>
    pad 2 (nat (s mod 86400 div 3600)) @ pad 2 (nat (s mod 86400 div 60 mod 60)) @ pad 2 (nat (s mod 86400 mod 60))
      @ ''.'' @ pad 3 (nat f) @ ''Z''
    < pad 2 (nat (s' mod 86400 div 3600)) @ pad 2 (nat (s' mod 86400 div 60 mod 60)) @ pad 2 (nat (s' mod 86400 mod 60))
      @ ''.'' @ pad 3 (nat f') @ ''Z''"
    using frac by (intro compact_clock_less [OF sod sod]) blast
  then have "''T'' @ pad 2 (nat (s mod 86400 div 3600)) @ pad 2 (nat (s mod 86400 div 60 mod 60)) @ pad 2 (nat (s mod 86400 mod 60))
      @ ''.'' @ pad 3 (nat f) @ ''Z''
    < ''T'' @ pad 2 (nat (s' mod 86400 div 3600)) @ pad 2 (nat (s' mod 86400 div 60 mod 60)) @ pad 2 (nat (s' mod 86400 mod 60))
      @ ''.'' @ pad 3 (nat f') @ ''Z''" if "s mod 86400 < s' mod 86400 \<or> s mod 86400 = s' mod 86400 \<and> f < f'"
    using that by simp
  with split show ?thesis
    unfolding backup_stamp_def Let_def s_def [symmetric] s'_def [symmetric] f_def [symmetric] f'_def [symmetric]
      c c' prod.case
    by (intro compact_date_less [OF c c' yb]) blast
qed

lemma backup_stamp_length [simp]: "length (backup_stamp t) = 20"
  by (simp add: backup_stamp_def Let_def split: prod.split)

lemma backup_name_order:
  assumes "backup_time_ok t" "backup_time_ok u"
  shows "backup_name t < backup_name u \<longleftrightarrow> ns t div 1000000 < ns u div 1000000"
proof -
  have less: "backup_name a < backup_name b" if "backup_time_ok a" "backup_time_ok b"
    "ns a div 1000000 < ns b div 1000000" for a b
    using backup_stamp_less [OF that] 
    by (simp add: backup_name_def list_less_append)
  have eq: "backup_name t = backup_name u" if "ns t div 1000000 = ns u div 1000000"
  proof -
    have "ns t div second = ns u div second" "ns t mod second div 1000000 = ns u mod second div 1000000"
      using thousands_unique [OF that [unfolded millis_split [of "ns t"] millis_split [of "ns u"]] millis_bounds millis_bounds]
      unfolding second_def by simp_all
    then show ?thesis by (simp only: backup_name_def backup_stamp_def Let_def)
  qed
  show ?thesis
    using less [OF assms] less [OF assms(2,1)] eq
    by (metis linorder_cases order_less_asym order_less_irrefl)
qed

section \<open>One directory\<close>

text \<open>\<open>entries\<close> is the content of the backup directory: its names, with regular files marked.\<close>

locale backup_dir =
  fixes F :: "'fs files" and dir :: string and entries :: "'fs \<Rightarrow> (string \<times> bool) set"
  assumes read_ok: "fs_read_dir F dir fs = (Inr es, fs') \<Longrightarrow>
      distinct (map fst es) \<and> set es = entries fs \<and> (\<forall>n\<in>set (map fst es). plain_name n)"
    and read_pure: "entries (snd (fs_read_dir F dir fs)) = entries fs"
    and remove_ok: "fs_remove F (join_path dir n) fs = (None, fs') \<Longrightarrow> plain_name n \<Longrightarrow>
      entries fs' = {e \<in> entries fs. fst e \<noteq> n}"
    and remove_err: "fs_remove F (join_path dir n) fs = (Some e, fs') \<Longrightarrow> plain_name n \<Longrightarrow>
      entries fs' = entries fs"
begin

lemma remove_files_prefix:
  assumes "remove_files F (map (join_path dir) names) k fs = ((m, r), fs')" "\<forall>n\<in>set names. plain_name n"
  shows "\<exists>gone left. names = gone @ left \<and> m = k + int (length gone) \<and> (r = None \<longleftrightarrow> left = [])
    \<and> entries fs' = {e \<in> entries fs. fst e \<notin> set gone}"
  using assms
proof (induction names arbitrary: k fs)
  case Nil
  then show ?case by auto
next
  case (Cons n names)
  obtain q fs1 where q: "fs_remove F (join_path dir n) fs = (q, fs1)" by (metis surj_pair)
  show ?case
  proof (cases q)
    case (Some e)
    with Cons.prems q remove_err [of n fs e fs1] show ?thesis
      by (intro exI [of _ "[]"] exI [of _ "n # names"]) auto
  next
    case None
    with Cons.prems q have "remove_files F (map (join_path dir) names) (k + 1) fs1 = ((m, r), fs')" by simp
    from Cons.IH [OF this] Cons.prems(2) obtain gone left where
      *: "names = gone @ left" "m = k + 1 + int (length gone)" "r = None \<longleftrightarrow> left = []"
        "entries fs' = {e \<in> entries fs1. fst e \<notin> set gone}" by auto
    with None q remove_ok [of n fs fs1] Cons.prems(2) show ?thesis
      by (intro exI [of _ "n # gone"] exI [of _ left]) auto
  qed
qed

end

lemma sort_append_prefix: "sort (map ((@) (p::string)) names) = map ((@) p) (sort names)"
proof -
  have "(p @ x < p @ y) = (x < y)" for x y :: string by (induction p) simp_all
  then have mono: "p @ x \<le> p @ y \<longleftrightarrow> x \<le> y" for x y :: string by (simp add: not_less [symmetric])
  have "sorted (map ((@) p) (sort names))"
    using sorted_sort [of names] by (simp add: sorted_map mono sorted_wrt_mono_rel)
  moreover have "mset (map ((@) p) (sort names)) = mset (map ((@) p) names)" by simp
  ultimately show ?thesis by (metis properties_for_sort)
qed

text \<open>The names of the backups in a directory.\<close>

definition backups :: "(string \<times> bool) set \<Rightarrow> string set" where
  "backups es = fst ` {e \<in> es. is_backup e}"

context backup_dir
begin

lemma retain_prefix:
  assumes "retain_backups F dir n fs = (Returns (k, r), fs')" "0 \<le> n" "\<exists>es fs1. fs_read_dir F dir fs = (Inr es, fs1)"
  shows "\<exists>gone kept. sorted_list_of_set (backups (entries fs)) = gone @ kept \<and> k = int (length gone)
    \<and> k \<le> max 0 (int (card (backups (entries fs))) - n) \<and> (r = None \<longrightarrow> k = max 0 (int (card (backups (entries fs))) - n))
    \<and> entries fs' = {e \<in> entries fs. \<not> (is_backup e \<and> fst e \<in> set gone)}"
proof -
  obtain es fs1 where rd: "fs_read_dir F dir fs = (Inr es, fs1)" using assms(3) by blast
  note es = read_ok [OF rd]
  have pure: "entries fs1 = entries fs" using read_pure [of fs] rd by simp
  define names where "names = map fst (filter is_backup es)"
  have d: "distinct names" using es by (simp add: names_def distinct_keys_filter)
  have sn: "set names = backups (entries fs)" using es by (auto simp: names_def backups_def)
  have srt: "sort names = sorted_list_of_set (backups (entries fs))"
    using sorted_list_of_set_sort_remdups [of names] d sn by (simp add: distinct_remdups_id)
  have card: "card (backups (entries fs)) = length names" using distinct_card [OF d] sn by simp
  have plain: "\<forall>m\<in>set (sort names). plain_name m" using es by (auto simp: names_def)
  have jp: "map (join_path dir) ms = map ((@) (join_prefix dir)) ms" if "\<forall>m\<in>set ms. plain_name m" for ms
    using that by (simp add: join_path_plain)
  have "map (\<lambda>e. join_path dir (fst e)) (filter is_backup es) = map (join_path dir) names"
    by (simp add: names_def)
  also have "sort \<dots> = map (join_path dir) (sort names)"
    using plain sort_append_prefix by (simp only: jp set_sort)
  finally have files: "sort (map (\<lambda>e. join_path dir (fst e)) (filter is_backup es)) = map (join_path dir) (sort names)" .
  let ?x = "int (length names) - n"
  show ?thesis
  proof (cases "?x \<le> 0")
    case True
    with assms(1) rd files have "k = 0" "r = None" "fs' = fs1"
      by (simp_all add: retain_backups_def Let_def)
    with True pure card srt show ?thesis by (intro exI [of _ "[]"] exI [of _ "sort names"]) simp
  next
    case False
    with assms(1,2) rd files have rm: "remove_files F (map (join_path dir) (take (nat ?x) (sort names))) 0 fs1 = ((k, r), fs')"
      by (auto simp: retain_backups_def Let_def take_map split: prod.splits)
    from plain have "\<forall>m\<in>set (take (nat ?x) (sort names)). plain_name m" by (auto dest: in_set_takeD)
    from remove_files_prefix [OF rm this] obtain gone left where
      *: "take (nat ?x) (sort names) = gone @ left" "k = int (length gone)" "r = None \<longleftrightarrow> left = []"
        "entries fs' = {e \<in> entries fs1. fst e \<notin> set gone}" by auto
    have len: "length gone + length left = nat ?x"
      using arg_cong [OF *(1), of length] assms(2) by simp
    have "sort names = gone @ left @ drop (nat ?x) (sort names)"
      using *(1) append_take_drop_id [of "nat ?x" "sort names"] by simp
    moreover have "set gone \<subseteq> backups (entries fs)"
      using *(1) sn by (metis set_append set_sort Un_upper1 set_take_subset subset_trans)
    moreover have "is_backup e" if e: "e \<in> entries fs" "fst e \<in> backups (entries fs)" for e
    proof -
      obtain e' where "e' \<in> entries fs" "is_backup e'" "fst e' = fst e"
        using e(2) by (auto simp: backups_def)
      with e(1) es show ?thesis by (metis distinct_map inj_on_eq_iff)
    qed
    ultimately show ?thesis
      using * pure card srt len False by (intro exI [of _ gone] exI [of _ "left @ drop (nat ?x) (sort names)"]) auto
  qed
qed

end

section \<open>A directory for concrete runs\<close>

text \<open>The listing and a schedule of failures.\<close>

record ref_fs =
  listing :: "(string, bool) gomap"
  fs_faults :: "bool list"

definition ref_os :: "('a \<times> ref_fs) \<Rightarrow> 'a \<Rightarrow> ref_fs \<Rightarrow> 'a \<times> ref_fs" where
  "ref_os ok err fs = (case fs_faults fs of
      True # fl \<Rightarrow> (err, fs\<lparr>fs_faults := fl\<rparr>)
    | fl \<Rightarrow> (fst ok, (snd ok)\<lparr>fs_faults := tl fl\<rparr>))"

definition ref_listing :: "ref_fs \<Rightarrow> (string \<times> bool) list" where
  "ref_listing fs = filter (\<lambda>e. plain_name (fst e)) (mentries (listing fs))"

definition ref_files :: "string \<Rightarrow> ref_fs files" where
  "ref_files dir = \<lparr>
     fs_mkdir_all = (\<lambda>d fs. ref_os (None, fs) (Some ''permission denied'') fs),
     fs_read_dir = (\<lambda>d fs. ref_os (Inr (ref_listing fs), fs) (Inl ''no such directory'') fs),
     fs_remove = (\<lambda>p fs. ref_os (None, fs\<lparr>listing := mfilter (\<lambda>e. join_path dir (fst e) \<noteq> p) (listing fs)\<rparr>)
       (Some ''permission denied'') fs)\<rparr>"

lemma join_path_inj: "plain_name m \<Longrightarrow> plain_name n \<Longrightarrow> join_path d m = join_path d n \<longleftrightarrow> m = n"
  by (simp add: join_path_plain)

lemma ref_listing_remove:
  "plain_name n \<Longrightarrow> ref_listing (fs\<lparr>listing := mfilter (\<lambda>e. join_path dir (fst e) \<noteq> join_path dir n) (listing fs)\<rparr>)
    = filter (\<lambda>e. fst e \<noteq> n) (ref_listing fs)"
  by (auto simp: ref_listing_def DAList.filter.rep_eq join_path_inj intro: filter_cong)

interpretation ref_dir: backup_dir "ref_files dir" dir "\<lambda>fs. set (ref_listing fs)" for dir
proof (unfold_locales, goal_cases)
  case (3 n fs fs')
  then show ?case
    by (auto simp: ref_files_def ref_os_def ref_listing_remove split: list.splits bool.splits)
      (auto simp: ref_listing_def DAList.filter.rep_eq join_path_inj)
qed (auto simp: ref_files_def ref_os_def ref_listing_def distinct_keys_filter split: list.splits bool.splits)

section \<open>Properties\<close>

text \<open>C22: Retention deletes the oldest backups first, one by one in name order, never touches
  anything that is not a backup, reports the number deleted, and when nothing fails
  leaves exactly the \<open>n\<close> newest.\<close>

theorem retain_keeps_newest:
  assumes "backup_dir F dir entries" and "0 \<le> n" and "fs_read_dir F dir fs = (Inr es, fs1)"
    and "retain_backups F dir n fs = (Returns (k, r), fs')"
  shows "\<exists>gone kept. sorted_list_of_set (backups (entries fs)) = gone @ kept \<and> k = int (length gone)
    \<and> k \<le> max 0 (int (card (backups (entries fs))) - n)
    \<and> (r = None \<longrightarrow> k = max 0 (int (card (backups (entries fs))) - n))
    \<and> entries fs' = {e \<in> entries fs. \<not> (is_backup e \<and> fst e \<in> set gone)}"
  using backup_dir.retain_prefix [OF assms(1,4,2)] assms(3) by blast

definition sample_dir :: ref_fs where
  "sample_dir = \<lparr>listing = mput ''kvp-2.db'' True (mput ''notes'' True (mput ''kvp-1.db'' True
     (mput ''kvp-3.db'' True mempty))), fs_faults = []\<rparr>"

theorem retain_keeps_newest_witness:
  "\<exists>gone kept. sorted_list_of_set (backups (set (ref_listing sample_dir))) = gone @ kept \<and> length gone = 1"
proof -
  have rd: "fst (fs_read_dir (ref_files ''b'') ''b'' sample_dir)
      = Inr [(''kvp-3.db'', True), (''kvp-1.db'', True), (''notes'', True), (''kvp-2.db'', True)]"
    and rt: "fst (retain_backups (ref_files ''b'') ''b'' 2 sample_dir) = Returns (1, None)"
    by code_simp+
  obtain es fs1 where "fs_read_dir (ref_files ''b'') ''b'' sample_dir = (Inr es, fs1)"
    using rd by (metis prod.collapse)
  moreover obtain fs' where "retain_backups (ref_files ''b'') ''b'' 2 sample_dir = (Returns (1, None), fs')"
    using rt by (metis prod.collapse)
  ultimately show ?thesis
    using retain_keeps_newest [OF ref_dir.backup_dir_axioms, of 2 "''b''" sample_dir es fs1 1 None fs'] by auto
qed

text \<open>C23: A later snapshot has a later name: names of backups compare as the milliseconds of the
  times they were taken at, so keeping the last names keeps the newest snapshots.\<close>

theorem backup_names_chronological:
  assumes "backup_time_ok t" and "backup_time_ok u"
  shows "backup_name t < backup_name u \<longleftrightarrow> ns t div 1000000 < ns u div 1000000"
  by (rule backup_name_order [OF assms])

theorem backup_names_chronological_witness:
  "backup_name (sample_time 59) < backup_name (sample_time 60)"
proof -
  have "backup_time_ok (sample_time 59)" "backup_time_ok (sample_time 60)" by code_simp+
  from backup_names_chronological [OF this] show ?thesis by (simp add: second_def)
qed

text \<open>The rest of a quoted SQL literal: two quotes stand for one, a single one ends it.\<close>

fun sql_literal :: "string \<Rightarrow> (string \<times> string) option" where
  "sql_literal [] = None"
| "sql_literal (c # cs) =
    (if c \<noteq> CHR 39 then map_option (\<lambda>(v, r). (c # v, r)) (sql_literal cs)
     else case cs of
       d # ds \<Rightarrow> if d = CHR 39 then map_option (\<lambda>(v, r). (c # v, r)) (sql_literal ds) else Some ([], cs)
     | [] \<Rightarrow> Some ([], []))"

text \<open>C24: The path in the \<open>VACUUM INTO\<close> statement cannot break out of its literal: read back as
  SQL the literal is the path, and nothing of the path is left outside it.\<close>

theorem quoted_path_roundtrip: "sql_literal (quote_sql p @ [CHR 39]) = Some (p, [])"
  by (induction p) (simp_all add: quote_sql_def)

end
