(* ===== verification/Float64.thy ===== *)
theory Float64
  imports Kvp_Prelude Complex_Main "HOL-Library.Log_Nat"
begin

text \<open>
  Go's \<open>float64\<close> on finite values: an operation is the exact rational result
  rounded to 53 bits, half to even, with exponents from -1074 upwards
  (\<open>f64\<close>). Overflow to infinity and NaN are outside the model; the rate limiter,
  the only client, takes the minimum of every sum with a finite cap.
\<close>

definition half_even :: "rat \<Rightarrow> int" where
  "half_even x = (let f = \<lfloor>x\<rfloor>; d = x - of_int f
     in if d < 1 / 2 then f else if 1 / 2 < d then f + 1 else if even f then f else f + 1)"

text \<open>\<open>ilog2 x\<close>: the exponent of a positive rational.\<close>

definition ilog2 :: "rat \<Rightarrow> int" where
  "ilog2 x = (case quotient_of x of (p, q) \<Rightarrow>
     let k = bitlen p - bitlen q in if 2 powi k \<le> x then k else k - 1)"

definition quantum :: "rat \<Rightarrow> rat" where
  "quantum x = 2 powi (max (ilog2 x - 52) (- 1074))"

definition f64 :: "rat \<Rightarrow> rat" where
  "f64 x = (if x = 0 then 0
     else if 0 < x then of_int (half_even (x / quantum x)) * quantum x
     else - (of_int (half_even (- x / quantum (- x))) * quantum (- x)))"

section \<open>Rounding to an integer\<close>

lemma half_even_near: "of_int (half_even x) \<le> x + 1 / 2" "x - 1 / 2 \<le> of_int (half_even x)"
proof -
  have "of_int \<lfloor>x\<rfloor> \<le> x" "x < of_int \<lfloor>x\<rfloor> + 1" using floor_correct [of x] by simp_all
  then show "of_int (half_even x) \<le> x + 1 / 2" "x - 1 / 2 \<le> of_int (half_even x)"
    unfolding half_even_def Let_def by (simp_all split: if_split; linarith)+
qed

lemma half_even_int [simp]: "half_even (of_int n) = n"
  by (simp add: half_even_def)

lemma half_even_mono:
  assumes "x \<le> y"
  shows "half_even x \<le> half_even y"
proof (cases "\<lfloor>x\<rfloor> = \<lfloor>y\<rfloor>")
  case True
  with assms show ?thesis unfolding half_even_def Let_def by auto
next
  case False
  with floor_mono [OF assms] have "\<lfloor>x\<rfloor> + 1 \<le> \<lfloor>y\<rfloor>" by simp
  moreover have "half_even x \<le> \<lfloor>x\<rfloor> + 1" "\<lfloor>y\<rfloor> \<le> half_even y" by (auto simp: half_even_def Let_def)
  ultimately show ?thesis by simp
qed

section \<open>The exponent\<close>

lemma ilog2_bounds:
  assumes "0 < x"
  shows "2 powi (ilog2 x) \<le> x" "x < 2 powi (ilog2 x + 1)"
proof -
  obtain p q where pq: "quotient_of x = (p, q)" by (cases "quotient_of x")
  have q: "0 < q" and x: "x = of_int p / of_int q" using quotient_of_denom_pos [OF pq] quotient_of_div [OF pq] by simp_all
  have p: "0 < p" using assms x q by (simp add: zero_less_divide_iff)
  let ?k = "bitlen p - bitlen q"
  have pow: "(2::rat) powi (bitlen n - 1) \<le> of_int n \<and> (of_int n :: rat) < 2 powi bitlen n" if "0 < n" for n
  proof -
    have b: "2 ^ nat (bitlen n - 1) \<le> n" "n < 2 ^ nat (bitlen n)"
      using bitlen_bounds [OF that] by simp_all
    have pos: "0 < bitlen n" using b(2) that by (cases "0 < bitlen n") simp_all
    have "(2::rat) powi (bitlen n - 1) = of_int (2 ^ nat (bitlen n - 1))" "(2::rat) powi bitlen n = of_int (2 ^ nat (bitlen n))"
      using pos by (simp_all add: power_int_def)
    with b(1,2) show ?thesis by (simp only: of_int_le_iff of_int_less_iff)
  qed
  have q2: "(0::rat) < of_int q" using q by simp
  have "x < 2 powi bitlen p / of_int q" unfolding x using pow [OF p] q2 by (simp add: divide_strict_right_mono)
  also have "\<dots> \<le> 2 powi bitlen p / 2 powi (bitlen q - 1)"
    using pow [OF q] q2 by (intro divide_left_mono) (auto intro: mult_pos_pos)
  also have "\<dots> = 2 powi (?k + 1)" by (subst power_int_diff [symmetric]) (simp_all add: algebra_simps)
  finally have up: "x < 2 powi (?k + 1)" .
  have "2 powi (?k - 1) = (2::rat) powi (bitlen p - 1) / 2 powi bitlen q"
    by (subst power_int_diff [symmetric]) (simp_all add: algebra_simps)
  also have "\<dots> \<le> 2 powi (bitlen p - 1) / of_int q"
    using pow [OF q] q2 by (intro divide_left_mono) (auto intro: mult_pos_pos less_imp_le)
  also have "\<dots> \<le> x" unfolding x using pow [OF p] q2 by (intro divide_right_mono) auto
  finally have low: "2 powi (?k - 1) \<le> x" .
  show "2 powi (ilog2 x) \<le> x" "x < 2 powi (ilog2 x + 1)"
    using up low by (auto simp: ilog2_def pq Let_def)
qed

lemma ilog2_mono:
  assumes "0 < x" "x \<le> y"
  shows "ilog2 x \<le> ilog2 y"
proof (rule ccontr)
  assume "\<not> ?thesis"
  then have "(2::rat) powi (ilog2 y + 1) \<le> 2 powi (ilog2 x)" by (intro power_int_increasing) simp_all
  with ilog2_bounds [OF assms(1)] ilog2_bounds [of y] assms show False by simp
qed

lemma quantum_pos [simp]: "0 < quantum x" "quantum x \<noteq> 0" "0 \<le> quantum x"
  by (simp_all add: quantum_def)

section \<open>Rounding\<close>

lemma f64_0 [simp]: "f64 0 = 0"
  by (simp add: f64_def)

lemma f64_pos: "0 < x \<Longrightarrow> f64 x = of_int (half_even (x / quantum x)) * quantum x"
  by (simp add: f64_def)

lemma scaled_less:
  assumes "0 < x"
  shows "x / quantum x < 2 ^ 53"
proof -
  have "(2::rat) powi (ilog2 x - 52) \<le> quantum x" unfolding quantum_def by (intro power_int_increasing) simp_all
  then have "2 powi (ilog2 x - 52) * 2 ^ 53 \<le> quantum x * (2 ^ 53 :: rat)" by (rule mult_right_mono) simp
  moreover have "(2::rat) powi (ilog2 x - 52) * 2 ^ 53 = 2 powi (ilog2 x + 1)"
    using power_int_add [of "2::rat" "ilog2 x - 52" 53] by (simp add: add.commute)
  ultimately have "x < quantum x * 2 ^ 53" using ilog2_bounds(2) [OF assms] by linarith
  then show ?thesis by (simp add: divide_less_eq mult.commute)
qed

lemma f64_nonneg: "0 \<le> x \<Longrightarrow> 0 \<le> f64 x"
proof (cases "x = 0")
  case False
  moreover assume "0 \<le> x"
  ultimately have "0 < x" by simp
  then have "half_even (of_int 0) \<le> half_even (x / quantum x)" by (intro half_even_mono) simp
  then have "0 \<le> half_even (x / quantum x)" by (simp only: half_even_int)
  then show ?thesis using \<open>0 < x\<close> by (simp add: f64_pos)
qed simp

lemma f64_mono:
  assumes "0 \<le> x" "x \<le> y"
  shows "f64 x \<le> f64 y"
proof (cases "x = 0")
  case True
  with f64_nonneg assms show ?thesis by simp
next
  case False
  with assms have x: "0 < x" and y: "0 < y" by simp_all
  define ex ey where "ex = max (ilog2 x - 52) (- 1074)" and "ey = max (ilog2 y - 52) (- 1074)"
  have q: "quantum x = 2 powi ex" "quantum y = 2 powi ey" by (simp_all add: quantum_def ex_def ey_def)
  have "ex \<le> ey" using ilog2_mono [OF x assms(2)] by (simp add: ex_def ey_def)
  show ?thesis
  proof (cases "ex = ey")
    case True
    have "half_even (x / quantum x) \<le> half_even (y / quantum y)"
      using True assms(2) by (intro half_even_mono) (simp add: q divide_right_mono)
    then show ?thesis using True x y by (simp add: f64_pos q mult_right_mono)
  next
    case False
    with \<open>ex \<le> ey\<close> have lt: "ex + 1 \<le> ey" and ey: "ey = ilog2 y - 52" by (auto simp: ex_def ey_def)
    have "half_even (x / quantum x) \<le> half_even (of_int (2 ^ 53))"
      using scaled_less [OF x] by (intro half_even_mono) simp
    then have "half_even (x / quantum x) \<le> 2 ^ 53" by (simp only: half_even_int)
    then have "(of_int (half_even (x / quantum x)) :: rat) \<le> of_int (2 ^ 53)" by (simp only: of_int_le_iff)
    then have "f64 x \<le> 2 ^ 53 * 2 powi ex" using x by (simp add: f64_pos q mult_right_mono)
    also have "\<dots> = 2 ^ 52 * 2 powi (ex + 1)" by (simp add: power_int_add)
    also have "\<dots> \<le> 2 ^ 52 * quantum y" unfolding q using lt by (intro mult_left_mono power_int_increasing) simp_all
    also have "\<dots> \<le> f64 y"
    proof -
      have "2 powi (ilog2 y) = 2 ^ 52 * quantum y"
        unfolding q ey using power_int_add [of "2::rat" "ilog2 y - 52" 52] by simp
      with ilog2_bounds(1) [OF y] have "of_int (2 ^ 52) \<le> y / quantum y" by (simp add: pos_le_divide_eq mult.commute)
      then have "half_even (of_int (2 ^ 52)) \<le> half_even (y / quantum y)" by (rule half_even_mono)
      then have "2 ^ 52 \<le> half_even (y / quantum y)" by (simp only: half_even_int)
      then have "(of_int (2 ^ 52) :: rat) \<le> of_int (half_even (y / quantum y))" by (simp only: of_int_le_iff)
      then show ?thesis using y by (simp add: f64_pos mult_right_mono)
    qed
    finally show ?thesis .
  qed
qed

text \<open>Integers up to 53 bits are exact.\<close>

lemma f64_of_int:
  assumes "0 \<le> n" "n \<le> 2 ^ 53"
  shows "f64 (of_int n) = of_int n"
proof (cases "n = 0 \<or> n = 2 ^ 53")
  case True
  have "ilog2 (of_int (2 ^ 53)) = 53" by code_simp
  then have "f64 (of_int (2 ^ 53)) = of_int (half_even (of_int (2 ^ 52))) * 2"
    by (simp add: f64_pos quantum_def)
  then show ?thesis using True by (auto simp only: half_even_int) simp_all
next
  case False
  with assms have n: "0 < n" "n < 2 ^ 53" by auto
  define e where "e = max (ilog2 (of_int n) - 52) (- 1074)"
  have "(of_int n :: rat) < of_int (2 ^ 53)" using n(2) by (simp only: of_int_less_iff)
  with ilog2_bounds(1) [of "of_int n"] n(1) have "(2::rat) powi (ilog2 (of_int n)) < 2 powi 53" by simp
  then have "ilog2 (of_int n) < 53" by (meson linorder_not_le power_int_increasing one_le_numeral)
  then have "e \<le> 0" by (simp add: e_def)
  then have "(of_int n :: rat) / 2 powi e = of_int (n * 2 ^ nat (- e))"
    by (simp add: power_int_def field_simps)
  then have "half_even (of_int n / 2 powi e) = n * 2 ^ nat (- e)" by (simp only: half_even_int)
  then show ?thesis
    using n(1) \<open>e \<le> 0\<close> by (simp add: f64_pos quantum_def e_def [symmetric] power_int_def field_simps)
qed

lemmas f64_simps [simp] = f64_of_int [of 1, simplified]

text \<open>Half a unit in the last place, above and below; relative for what is not tiny.\<close>

lemma quantum_half:
  assumes "0 < x"
  shows "quantum x / 2 \<le> x / 2 ^ 53 + 2 powi (- 1075)"
proof (cases "ilog2 x - 52 \<le> - 1074")
  case True
  then have "quantum x = 2 powi (- 1075) * 2 powi 1"
    by (simp only: quantum_def max_absorb2 power_int_add [symmetric]) simp
  then have "quantum x / 2 = 2 powi (- 1075)" by simp
  with assms show ?thesis by simp
next
  case False
  then have "quantum x * 2 ^ 52 = 2 powi (ilog2 x)"
    using power_int_add [of "2::rat" "ilog2 x - 52" 52] by (simp add: quantum_def)
  with ilog2_bounds(1) [OF assms] have "quantum x / 2 \<le> x / 2 ^ 53" by (simp add: field_simps)
  moreover have "(0::rat) \<le> 2 powi (- 1075)" by simp
  ultimately show ?thesis by linarith
qed

lemma f64_error:
  assumes "0 \<le> x"
  shows "f64 x \<le> x + x / 2 ^ 53 + 2 powi (- 1075)" "x - x / 2 ^ 53 - 2 powi (- 1075) \<le> f64 x"
proof -
  have "f64 x \<le> x + quantum x / 2 \<and> x - quantum x / 2 \<le> f64 x" if x: "0 < x"
  proof
    have "f64 x \<le> (x / quantum x + 1 / 2) * quantum x"
      unfolding f64_pos [OF x] using half_even_near(1) by (intro mult_right_mono) simp_all
    then show "f64 x \<le> x + quantum x / 2" by (simp add: distrib_right)
    have "(x / quantum x - 1 / 2) * quantum x \<le> f64 x"
      unfolding f64_pos [OF x] using half_even_near(2) by (intro mult_right_mono) simp_all
    then show "x - quantum x / 2 \<le> f64 x" by (simp add: left_diff_distrib)
  qed
  with quantum_half [of x] show "f64 x \<le> x + x / 2 ^ 53 + 2 powi (- 1075)"
    "x - x / 2 ^ 53 - 2 powi (- 1075) \<le> f64 x"
    using assms by (cases "x = 0"; force)+
qed

lemma tiny: "(2::rat) powi (- 1075) \<le> 1 / 2 ^ 113"
proof -
  have "(2::rat) powi (- 1075) \<le> 2 powi (- 113)" by (intro power_int_increasing) simp_all
  then show ?thesis by (simp add: power_int_minus inverse_eq_divide)
qed

lemma f64_below:
  assumes "0 \<le> x" "x \<le> b" "1 \<le> b"
  shows "f64 x \<le> x + b / 2 ^ 52"
proof -
  have "x / 2 ^ 53 \<le> b / 2 ^ 53" using assms(2) by (simp add: divide_right_mono)
  moreover have "(1::rat) / 2 ^ 113 \<le> b / 2 ^ 53" using assms(3) by simp
  ultimately show ?thesis using f64_error(1) [OF assms(1)] tiny by simp
qed

lemma f64_rel:
  assumes "1 / 2 ^ 60 \<le> x"
  shows "f64 x \<le> x + x / 2 ^ 52" "x - x / 2 ^ 52 \<le> f64 x"
proof -
  have "(1::rat) / 2 ^ 113 \<le> x / 2 ^ 53" using assms by simp
  moreover have "0 \<le> x" using assms by (rule order_trans [rotated]) simp
  ultimately show "f64 x \<le> x + x / 2 ^ 52" "x - x / 2 ^ 52 \<le> f64 x"
    using f64_error [of x] tiny by simp_all
qed

end
