(* ===== verification/Rate_Limit.thy ===== *)
theory Rate_Limit
  imports Go_Time Float64 "HOL-Library.Signed_Division"
begin

text \<open>
  The per-client token bucket (\<open>src/internal/server/ratelimit.go\<close>). Tokens and
  rates are \<open>float64\<close>: every sum, product and quotient goes through \<open>f64\<close>. The
  limiter's mutex makes \<open>allow\<close> one step; \<open>prune\<close> is a second one. The rate is a
  finite number (\<open>+Inf\<close>, which the configuration lets through, is not modelled).

  \<^item> \<open>rl_wf\<close>: every bucket holds between 0 and \<open>burst\<close> tokens;
  \<^item> the admission bound: a client gets at most \<open>burst\<close> requests and \<open>rps\<close> more per
    elapsed second, up to a rounding slack of \<open>burst / 2^48\<close> a call;
  \<^item> what a denied client is told, and what dropping idle buckets changes.
\<close>

record bucket =
  tokens :: rat
  seen :: gotime

record limiter =
  rps :: rat
  burst :: rat
  buckets :: "(string \<times> bucket) list"

definition new_rate_limiter :: "rat \<Rightarrow> int \<Rightarrow> limiter" where
  "new_rate_limiter r b = \<lparr>rps = r, burst = f64 (of_int b), buckets = []\<rparr>"

text \<open>\<open>Duration.Seconds\<close>: whole seconds plus the rest over 1e9.\<close>

definition seconds :: "duration \<Rightarrow> rat" where
  "seconds d = f64 (of_int (d sdiv second) + f64 (of_int (d smod second) / 1000000000))"

text \<open>\<open>int(f)\<close> out of the 64-bit range is left to the platform by Go; on amd64 it is the least int64.\<close>

definition int_of_ceil :: "rat \<Rightarrow> int" where
  "int_of_ceil x = (if \<bar>\<lceil>x\<rceil>\<bar> < 2 ^ 63 then \<lceil>x\<rceil> else - (2 ^ 63))"

definition bucket_of :: "limiter \<Rightarrow> string \<Rightarrow> gotime \<Rightarrow> bucket" where
  "bucket_of rl key now = (case map_of (buckets rl) key of
      None \<Rightarrow> \<lparr>tokens = burst rl, seen = now\<rparr>
    | Some b \<Rightarrow> b)"

text \<open>The tokens after the refill, before one is taken.\<close>

definition refill :: "limiter \<Rightarrow> bucket \<Rightarrow> gotime \<Rightarrow> rat" where
  "refill rl b now = (let elapsed = seconds (time_sub now (seen b))
     in min (burst rl) (f64 (tokens b + f64 (elapsed * rps rl))))"

definition allow :: "limiter \<Rightarrow> string \<Rightarrow> gotime \<Rightarrow> (bool \<times> int) \<times> limiter" where
  "allow rl key now =
    (let b = bucket_of rl key now; t = refill rl b now
     in if 1 \<le> t
        then ((True, 0),
          rl\<lparr>buckets := AList.update key \<lparr>tokens = f64 (t - 1), seen = now\<rparr> (buckets rl)\<rparr>)
        else let wait = f64 (f64 (1 - t) / rps rl)
          in ((False, int_of_ceil wait),
            rl\<lparr>buckets := AList.update key \<lparr>tokens = t, seen = now\<rparr> (buckets rl)\<rparr>))"

definition prune :: "limiter \<Rightarrow> zone \<Rightarrow> gotime \<Rightarrow> limiter" where
  "prune rl z now =
    (let cutoff = time_add z now (- 3600 * second)
     in rl\<lparr>buckets := filter (\<lambda>(k, b). \<not> before (seen b) cutoff) (buckets rl)\<rparr>)"

section \<open>Elapsed seconds\<close>

lemma seconds_nonneg_eq:
  assumes "0 \<le> d"
  shows "seconds d = f64 (of_int (d div second) + f64 (of_int (d mod second) / 1000000000))"
proof -
  have "d sdiv second = d div second" "d smod second = d mod second"
    using assms by (cases "d = 0"; simp add: signed_divide_int_def signed_modulo_int_def second_def)+
  then show ?thesis by (simp add: seconds_def)
qed

lemma rel_form: "(x::rat) + x / c = x * (1 + 1 / c)"
  by (simp add: distrib_left)

lemma le_div: "0 < (c::int) \<Longrightarrow> n * c \<le> d \<Longrightarrow> n \<le> d div c"
  using zdiv_mono1 [of "n * c" d c] by simp

lemma f64_above:
  assumes "0 \<le> x" "x \<le> b" "1 \<le> b"
  shows "x - b / 2 ^ 52 \<le> f64 x"
proof -
  have "x / 2 ^ 53 \<le> b / 2 ^ 53" using assms(2) by (simp add: divide_right_mono)
  moreover have "(1::rat) / 2 ^ 113 \<le> b / 2 ^ 53" using assms(3) by simp
  moreover have "b / 2 ^ 53 + b / 2 ^ 53 = b / 2 ^ 52" by simp
  ultimately show ?thesis using f64_error(2) [OF assms(1)] tiny by linarith
qed

lemma f64_fraction:
  assumes "0 \<le> n" "n < (1000000000::int)"
  shows "0 \<le> f64 (of_int n / 1000000000)" "f64 (of_int n / 1000000000) \<le> 1"
    "f64 (of_int n / 1000000000) \<le> of_int n / 1000000000 * (1 + 1 / 2 ^ 52)"
proof -
  have n: "(0::rat) \<le> of_int n / 1000000000" "(of_int n :: rat) / 1000000000 \<le> 1" using assms by simp_all
  show "0 \<le> f64 (of_int n / 1000000000)" by (rule f64_nonneg [OF n(1)])
  show "f64 (of_int n / 1000000000) \<le> 1" using f64_mono [OF n] by simp
  show "f64 (of_int n / 1000000000) \<le> of_int n / 1000000000 * (1 + 1 / 2 ^ 52)"
  proof (cases "n = 0")
    case False
    with assms(1) have "(1::rat) \<le> of_int n" by simp
    then have "(1::rat) / 2 ^ 60 \<le> of_int n / 1000000000" by simp
    from f64_rel(1) [OF this] show ?thesis by (simp add: distrib_left)
  qed simp
qed

lemma seconds_bounds:
  assumes "0 \<le> d"
  shows "0 \<le> seconds d" "seconds d \<le> of_int d / 1000000000 * (1 + 1 / 2 ^ 50)"
proof -
  define s n where "s = d div second" and "n = d mod second"
  have n: "0 \<le> n" "n < 1000000000" and s: "0 \<le> s" and d: "d = s * 1000000000 + n"
    using assms unfolding s_def n_def second_def by (simp_all add: pos_imp_zdiv_nonneg_iff)
  note fr = f64_fraction [OF n]
  let ?f = "f64 (of_int n / 1000000000)" and ?x = "(of_int d :: rat) / 1000000000"
  have x: "?x = of_int s + of_int n / 1000000000" unfolding d by (simp add: add_divide_distrib)
  have eq: "seconds d = f64 (of_int s + ?f)" using seconds_nonneg_eq [OF assms] by (simp add: s_def n_def)
  have pos: "0 \<le> of_int s + ?f" using s fr(1) by simp
  then show "0 \<le> seconds d" unfolding eq by (rule f64_nonneg)
  show "seconds d \<le> ?x * (1 + 1 / 2 ^ 50)"
  proof (cases "s = 0 \<and> n = 0")
    case True
    then show ?thesis unfolding eq x by simp
  next
    case False
    have lower: "1 / 2 ^ 60 \<le> of_int s + ?f"
    proof (cases "s = 0")
      case True
      with False n have "(1::rat) / 2 ^ 59 \<le> of_int n / 1000000000" by simp
      moreover from this have "of_int n / 1000000000 - (of_int n / 1000000000) / 2 ^ 52 \<le> ?f"
        by (intro f64_rel(2)) simp
      ultimately show ?thesis using s by simp
    next
      case False
      with s have "(1::rat) \<le> of_int s" by simp
      moreover have "(1::rat) / 2 ^ 60 \<le> 1" by simp
      ultimately show ?thesis using fr(1) by linarith
    qed
    have "seconds d \<le> (of_int s + ?f) * (1 + 1 / 2 ^ 52)"
      using f64_rel(1) [OF lower] unfolding eq rel_form [of "of_int s + ?f" "2 ^ 52", symmetric] .
    also have "of_int s + ?f \<le> ?x * (1 + 1 / 2 ^ 52)"
      using fr(3) s unfolding x by (simp add: distrib_left distrib_right)
    finally have "seconds d \<le> ?x * (1 + 1 / 2 ^ 52) * (1 + 1 / 2 ^ 52)" by (simp add: mult_right_mono)
    also have "\<dots> \<le> ?x * (1 + 1 / 2 ^ 50)"
      unfolding mult.assoc using assms by (intro mult_left_mono) simp_all
    finally show ?thesis .
  qed
qed

lemma seconds_least:
  assumes "of_nat n * second \<le> d" "n < 2 ^ 53"
  shows "of_nat n \<le> seconds d"
proof -
  have d: "0 \<le> d" using assms(1) by (rule order_trans [rotated]) (simp add: second_def)
  have "int n \<le> d div second" using assms(1) by (intro le_div) (simp_all add: second_def)
  moreover have "0 \<le> f64 (of_int (d mod second) / 1000000000)"
    by (rule f64_fraction(1)) (simp_all add: second_def)
  ultimately have "of_int (int n) \<le> of_int (d div second) + f64 (of_int (d mod second) / 1000000000)"
    by (metis add_increasing2 of_int_le_iff)
  then have "f64 (of_int (int n)) \<le> seconds d" unfolding seconds_nonneg_eq [OF d] by (intro f64_mono) simp_all
  moreover have "f64 (of_int (int n)) = of_int (int n)" using assms(2) by (intro f64_of_int) simp_all
  ultimately show ?thesis by simp
qed

text \<open>Whole numbers and whole seconds are exact.\<close>

lemma f64_numeral [simp]: "numeral n \<le> (2 ^ 53 :: int) \<Longrightarrow> f64 (numeral n) = numeral n"
  using f64_of_int [of "numeral n"] by simp

lemma seconds_whole [simp]:
  assumes "0 \<le> n" "n \<le> 2 ^ 53"
  shows "seconds (n * second) = of_int n"
proof -
  have "0 \<le> n * second" "n * second div second = n" "n * second mod second = 0"
    using assms(1) by (simp_all add: second_def)
  then show ?thesis using assms by (simp add: seconds_nonneg_eq f64_of_int)
qed

lemma sample_time_sub [simp]: "\<bar>m - n\<bar> \<le> 2 ^ 33 \<Longrightarrow> time_sub (sample_time m) (sample_time n) = (m - n) * second"
  by (simp add: time_sub_def second_def max_duration_def)

section \<open>The refill\<close>

definition rl_wf :: "limiter \<Rightarrow> bool" where
  "rl_wf rl \<longleftrightarrow> 0 < rps rl \<and> 1 \<le> burst rl \<and> f64 (burst rl) = burst rl
     \<and> distinct (keys_of (buckets rl))
     \<and> (\<forall>(k, b) \<in> set (buckets rl). 0 \<le> tokens b \<and> tokens b \<le> burst rl)"

text \<open>No bucket was touched after \<open>t\<close>.\<close>

definition seen_by :: "limiter \<Rightarrow> gotime \<Rightarrow> bool" where
  "seen_by rl t \<longleftrightarrow> (\<forall>(k, b) \<in> set (buckets rl). ns (seen b) \<le> ns t)"

lemma rl_wfD:
  assumes "rl_wf rl"
  shows "0 < rps rl" "1 \<le> burst rl" "f64 (burst rl) = burst rl" "distinct (keys_of (buckets rl))"
  using assms by (simp_all add: rl_wf_def)

lemma bucket_of_wf:
  assumes "rl_wf rl"
  shows "0 \<le> tokens (bucket_of rl k t)" "tokens (bucket_of rl k t) \<le> burst rl"
  using assms map_of_SomeD [of "buckets rl" k]
  by (auto simp: rl_wf_def bucket_of_def split: option.split)

lemma bucket_of_seen: "seen_by rl t \<Longrightarrow> ns (seen (bucket_of rl k t)) \<le> ns t"
  using map_of_SomeD [of "buckets rl" k] by (auto simp: seen_by_def bucket_of_def split: option.split)

lemma rl_allow_frame [simp]:
  "rps (snd (allow rl k t)) = rps rl" "burst (snd (allow rl k t)) = burst rl"
  "rps (prune rl z t) = rps rl" "burst (prune rl z t) = burst rl"
  by (simp_all add: allow_def prune_def Let_def)

text \<open>Seconds between two instants, exactly.\<close>

definition gap :: "gotime \<Rightarrow> gotime \<Rightarrow> rat" where
  "gap t u = of_int (ns t - ns u) / 1000000000"

lemma refill_burst: "refill rl b now \<le> burst rl"
  by (simp add: refill_def Let_def)

lemma refill_upper:
  assumes wf: "rl_wf rl" and b: "0 \<le> tokens b" "tokens b \<le> burst rl" and le: "ns (seen b) \<le> ns now"
  shows "0 \<le> refill rl b now"
    "refill rl b now \<le> min (burst rl) (tokens b + rps rl * gap now (seen b)) + burst rl / 2 ^ 49"
proof -
  note w = rl_wfD [OF wf]
  define d where "d = time_sub now (seen b)"
  define y where "y = seconds d * rps rl"
  let ?B = "burst rl" and ?g = "gap now (seen b)"
  have d: "0 \<le> d" "d \<le> ns now - ns (seen b)" using le by (simp_all add: d_def time_sub_def max_duration_def)
  have g: "(of_int d :: rat) / 1000000000 \<le> ?g" unfolding gap_def by (intro divide_right_mono) (use d in simp_all)
  have "0 \<le> seconds d" by (rule seconds_bounds(1) [OF d(1)])
  then have y0: "0 \<le> y" using w(1) by (simp add: y_def)
  have eq: "refill rl b now = min ?B (f64 (tokens b + f64 y))" by (simp add: refill_def Let_def d_def y_def)
  have pos: "0 \<le> tokens b + f64 y" using b(1) f64_nonneg [OF y0] by simp
  then show "0 \<le> refill rl b now" unfolding eq using f64_nonneg [OF pos] w(2) by simp
  show "refill rl b now \<le> min ?B (tokens b + rps rl * ?g) + ?B / 2 ^ 49"
  proof (cases "?B \<le> tokens b + rps rl * ?g")
    case True
    moreover have "0 \<le> ?B / 2 ^ 49" using w(2) by simp
    ultimately show ?thesis using refill_burst [of rl b now] by linarith
  next
    case False
    then have small: "rps rl * ?g \<le> ?B" using b(1) by linarith
    have "seconds d \<le> ?g * (1 + 1 / 2 ^ 50)"
      using seconds_bounds(2) [OF d(1)] mult_right_mono [OF g, of "1 + 1 / 2 ^ 50"] by simp
    then have "y \<le> rps rl * ?g * (1 + 1 / 2 ^ 50)"
      unfolding y_def using w(1) by (simp add: mult.commute mult.left_commute)
    also have "\<dots> = rps rl * ?g + rps rl * ?g / 2 ^ 50" by (rule rel_form [symmetric])
    also have "\<dots> \<le> rps rl * ?g + ?B / 2 ^ 50" using small by (simp add: divide_right_mono)
    finally have y: "y \<le> rps rl * ?g + ?B / 2 ^ 50" .
    have "?B / 2 ^ 50 \<le> ?B" using w(2) by simp
    with y small have "f64 y \<le> y + (2 * ?B) / 2 ^ 52" using w(2) y0 by (intro f64_below) simp_all
    with y have x: "tokens b + f64 y \<le> tokens b + rps rl * ?g + ?B / 2 ^ 50 + ?B / 2 ^ 51" by simp
    moreover have "?B / 2 ^ 50 + ?B / 2 ^ 51 \<le> ?B" using w(2) by simp
    ultimately have "f64 (tokens b + f64 y) \<le> tokens b + f64 y + (2 * ?B) / 2 ^ 52"
      using False pos w(2) by (intro f64_below) simp_all
    with x have "f64 (tokens b + f64 y) \<le> tokens b + rps rl * ?g + ?B / 2 ^ 49" by simp
    then show ?thesis unfolding eq using False by simp
  qed
qed

lemma refill_full:
  assumes "rl_wf rl" "0 \<le> tokens b" "burst rl \<le> tokens b + seconds (time_sub now (seen b)) * rps rl"
    "tokens b = burst rl \<and> seconds (time_sub now (seen b)) = 0
      \<or> burst rl \<le> seconds (time_sub now (seen b)) * rps rl"
  shows "refill rl b now = burst rl"
proof -
  note w = rl_wfD [OF assms(1)]
  let ?y = "seconds (time_sub now (seen b)) * rps rl"
  have "burst rl \<le> f64 (tokens b + f64 ?y)"
    using assms(4)
  proof
    assume "burst rl \<le> ?y"
    then have "burst rl \<le> f64 ?y" using f64_mono [of "burst rl" ?y] w by simp
    then show ?thesis using f64_mono [of "burst rl" "tokens b + f64 ?y"] assms(2) w by simp
  qed (use w in simp)
  then show ?thesis by (simp add: refill_def Let_def)
qed

section \<open>The invariant\<close>

lemma buckets_allow:
  obtains t where "buckets (snd (allow rl k now)) = AList.update k \<lparr>tokens = t, seen = now\<rparr> (buckets rl)"
    "refill rl (bucket_of rl k now) now < 1 \<and> t = refill rl (bucket_of rl k now) now
      \<or> 1 \<le> refill rl (bucket_of rl k now) now \<and> t = f64 (refill rl (bucket_of rl k now) now - 1)"
  by (cases "1 \<le> refill rl (bucket_of rl k now) now") (auto simp: allow_def Let_def)

lemma map_of_allow: "map_of (buckets (snd (allow rl k now))) k' =
    (if k' = k then Some \<lparr>tokens = (if fst (fst (allow rl k now))
        then f64 (refill rl (bucket_of rl k now) now - 1) else refill rl (bucket_of rl k now) now), seen = now\<rparr>
     else map_of (buckets rl) k')"
  by (simp add: allow_def Let_def update_conv')

lemma allow_answer: "fst (fst (allow rl k now)) \<longleftrightarrow> 1 \<le> refill rl (bucket_of rl k now) now"
  by (simp add: allow_def Let_def)

lemma set_updateD: "(k', b) \<in> set (AList.update k x al) \<Longrightarrow> (k', b) = (k, x) \<or> (k', b) \<in> set al"
  by (induction al) (auto split: if_splits)

lemma allow_wf:
  assumes wf: "rl_wf rl" and le: "seen_by rl now"
  shows "rl_wf (snd (allow rl k now))" "seen_by (snd (allow rl k now)) now"
proof -
  note w = rl_wfD [OF wf]
  let ?r = "refill rl (bucket_of rl k now) now"
  obtain t where t: "buckets (snd (allow rl k now)) = AList.update k \<lparr>tokens = t, seen = now\<rparr> (buckets rl)"
      "?r < 1 \<and> t = ?r \<or> 1 \<le> ?r \<and> t = f64 (?r - 1)"
    by (rule buckets_allow)
  have r: "0 \<le> ?r" "?r \<le> burst rl"
    using refill_upper(1) [OF wf bucket_of_wf [OF wf] bucket_of_seen [OF le]] refill_burst by auto
  have "0 \<le> t \<and> t \<le> burst rl"
    using t(2)
  proof
    assume a: "1 \<le> ?r \<and> t = f64 (?r - 1)"
    then show ?thesis using f64_nonneg [of "?r - 1"] f64_mono [of "?r - 1" "burst rl"] r(2) w(3) by simp
  qed (use r in simp)
  moreover have old: "0 \<le> tokens b \<and> tokens b \<le> burst rl \<and> ns (seen b) \<le> ns now"
    if "(k', b) \<in> set (buckets rl)" for k' b
    using that wf le by (auto simp: rl_wf_def seen_by_def)
  ultimately have "0 \<le> tokens b \<and> tokens b \<le> burst rl \<and> ns (seen b) \<le> ns now"
    if "(k', b) \<in> set (buckets (snd (allow rl k now)))" for k' b
    using set_updateD [OF that [unfolded t(1)]] by auto
  moreover have "distinct (keys_of (buckets (snd (allow rl k now))))"
    unfolding t(1) using w(4) by (rule distinct_update)
  ultimately show "rl_wf (snd (allow rl k now))" "seen_by (snd (allow rl k now)) now"
    using w(1,2,3) unfolding rl_wf_def seen_by_def by auto
qed

lemma prune_wf:
  assumes "rl_wf rl" "seen_by rl now"
  shows "rl_wf (prune rl z t)" "seen_by (prune rl z t) now"
  using assms by (auto simp: rl_wf_def seen_by_def prune_def Let_def distinct_map_filter)

lemma new_rate_limiter_wf:
  assumes "0 < r" "1 \<le> b" "b \<le> 2 ^ 53"
  shows "rl_wf (new_rate_limiter r b)" "seen_by (new_rate_limiter r b) t"
  using assms by (simp_all add: rl_wf_def seen_by_def new_rate_limiter_def f64_of_int)

section \<open>The admission bound\<close>

datatype rl_call = Ask string gotime | Prune gotime

fun rl_time :: "rl_call \<Rightarrow> gotime" where
  "rl_time (Ask k t) = t"
| "rl_time (Prune t) = t"

fun rl_step :: "zone \<Rightarrow> rl_call \<Rightarrow> limiter \<Rightarrow> limiter" where
  "rl_step z (Ask k t) rl = snd (allow rl k t)"
| "rl_step z (Prune t) rl = prune rl z t"

text \<open>How many of a client's requests a run of calls admits.\<close>

fun admitted :: "zone \<Rightarrow> string \<Rightarrow> rl_call list \<Rightarrow> limiter \<Rightarrow> nat" where
  "admitted z k [] rl = 0"
| "admitted z k (c # cs) rl =
    (case c of Ask k' t \<Rightarrow> if k' = k \<and> fst (fst (allow rl k t)) then 1 else 0 | Prune t \<Rightarrow> 0)
    + admitted z k cs (rl_step z c rl)"

text \<open>What a client could spend at \<open>t\<close>, in exact arithmetic.\<close>

definition avail :: "limiter \<Rightarrow> string \<Rightarrow> gotime \<Rightarrow> rat" where
  "avail rl k t = (case map_of (buckets rl) k of
      None \<Rightarrow> burst rl
    | Some b \<Rightarrow> min (burst rl) (tokens b + rps rl * gap t (seen b)))"

lemma gap_split: "gap t u = gap t v + gap v u" "gap t t = 0"
  by (simp_all add: gap_def add_divide_distrib [symmetric])

lemma gap_nonneg: "ns u \<le> ns t \<Longrightarrow> 0 \<le> gap t u"
  by (simp add: gap_def)

lemma avail_later:
  assumes "rl_wf rl" "ns t \<le> ns u"
  shows "avail rl k u \<le> avail rl k t + rps rl * gap u t"
proof -
  have pos: "0 \<le> rps rl * gap u t" using rl_wfD [OF assms(1)] gap_nonneg [OF assms(2)] by simp
  show ?thesis
  proof (cases "map_of (buckets rl) k")
    case (Some b)
    have "rps rl * gap u (seen b) = rps rl * gap t (seen b) + rps rl * gap u t"
      unfolding gap_split(1) [of u "seen b" t] distrib_left by (rule add.commute)
    with pos Some show ?thesis by (simp add: avail_def)
  qed (use pos in \<open>simp add: avail_def\<close>)
qed

lemma avail_ask:
  assumes wf: "rl_wf rl" and le: "seen_by rl t"
  shows "avail (snd (allow rl k' t)) k t + (if k' = k \<and> fst (fst (allow rl k t)) then 1 else 0)
    \<le> avail rl k t + burst rl / 2 ^ 48"
proof (cases "k' = k")
  case False
  have "0 \<le> burst rl / 2 ^ 48" using rl_wfD [OF wf] by simp
  with False show ?thesis by (simp add: avail_def map_of_allow split: option.split)
next
  case True
  note w = rl_wfD [OF wf]
  let ?r = "refill rl (bucket_of rl k t) t"
  have av: "avail rl k t = min (burst rl) (tokens (bucket_of rl k t) + rps rl * gap t (seen (bucket_of rl k t)))"
    by (simp add: avail_def bucket_of_def gap_split split: option.split)
  have up: "?r \<le> avail rl k t + burst rl / 2 ^ 49"
    unfolding av using refill_upper(2) [OF wf bucket_of_wf [OF wf] bucket_of_seen [OF le]] .
  show ?thesis
  proof (cases "1 \<le> ?r")
    case yes: True
    have "f64 (?r - 1) \<le> ?r - 1 + burst rl / 2 ^ 52"
      using yes refill_burst [of rl "bucket_of rl k t" t] w(2) by (intro f64_below) linarith+
    moreover have "avail (snd (allow rl k t)) k t \<le> f64 (?r - 1)"
      using yes by (simp add: avail_def map_of_allow allow_answer gap_split)
    moreover have "burst rl / 2 ^ 52 + burst rl / 2 ^ 49 \<le> burst rl / 2 ^ 48" using w(2) by simp
    ultimately show ?thesis using up True yes by (simp add: allow_answer)
  next
    case no: False
    have "avail (snd (allow rl k t)) k t \<le> ?r"
      using no by (simp add: avail_def map_of_allow allow_answer gap_split)
    moreover have "burst rl / 2 ^ 49 \<le> burst rl / 2 ^ 48" using w(2) by simp
    ultimately show ?thesis using up True no by (simp add: allow_answer)
  qed
qed

lemma map_of_prune: "map_of (buckets (prune rl z t)) k = (case map_of (buckets rl) k of
    None \<Rightarrow> None | Some b \<Rightarrow> if ns (seen b) < ns t - 3600 * second then None else Some b)"
  if "distinct (keys_of (buckets rl))"
  using that by (simp add: prune_def Let_def before_def map_of_filter_distinct split: option.split)

lemma avail_prune:
  assumes wf: "rl_wf rl" and hour: "burst rl \<le> 3600 * rps rl" and le: "ns t \<le> ns u"
  shows "avail (prune rl z t) k u \<le> avail rl k u"
proof -
  note w = rl_wfD [OF wf]
  have "burst rl \<le> tokens b + rps rl * gap u (seen b)"
    if b: "map_of (buckets rl) k = Some b" "ns (seen b) < ns t - 3600 * second" for b
  proof -
    have "(3600::rat) \<le> gap u (seen b)"
    proof -
      have "(of_int 3600000000000 :: rat) \<le> of_int (ns u - ns (seen b))"
        using b(2) le by (subst of_int_le_iff) (simp add: second_def)
      then show ?thesis by (simp add: gap_def)
    qed
    then have "rps rl * 3600 \<le> rps rl * gap u (seen b)" using w(1) by simp
    with hour have "burst rl \<le> rps rl * gap u (seen b)" by simp
    moreover have "0 \<le> tokens b" using wf map_of_SomeD [OF b(1)] by (auto simp: rl_wf_def)
    ultimately show ?thesis by simp
  qed
  then show ?thesis by (auto simp: avail_def map_of_prune [OF w(4)] split: option.split)
qed

lemma rl_step_inv:
  assumes "rl_wf rl" "seen_by rl t" "ns t \<le> ns (rl_time c)"
  shows "rl_wf (rl_step z c rl)" "seen_by (rl_step z c rl) (rl_time c)"
    "rps (rl_step z c rl) = rps rl" "burst (rl_step z c rl) = burst rl"
proof -
  have "seen_by rl (rl_time c)" using assms(2,3) by (auto simp: seen_by_def intro: order_trans)
  with assms(1) show "rl_wf (rl_step z c rl)" "seen_by (rl_step z c rl) (rl_time c)"
    "rps (rl_step z c rl) = rps rl" "burst (rl_step z c rl) = burst rl"
    by (cases c; simp add: allow_wf prune_wf)+
qed

lemma admitted_bound:
  assumes "rl_wf rl" "seen_by rl t" "sorted (map ns (t # map rl_time cs @ [u]))"
    "burst rl \<le> 3600 * rps rl \<or> (\<forall>c \<in> set cs. \<forall>v. c \<noteq> Prune v)"
  shows "of_nat (admitted z k cs rl)
    \<le> avail rl k t + rps rl * gap u t + of_nat (length cs) * (burst rl / 2 ^ 48)"
  using assms
proof (induction cs arbitrary: rl t)
  case Nil
  note w = rl_wfD [OF Nil(1)]
  have g: "0 \<le> rps rl * gap u t" using Nil(3) w(1) gap_nonneg [of t u] by simp
  moreover have "0 \<le> avail rl k t"
  proof (cases "map_of (buckets rl) k")
    case (Some b)
    with bucket_of_wf(1) [OF Nil(1), of k t] bucket_of_seen [OF Nil(2), of k]
    have "0 \<le> tokens b" "ns (seen b) \<le> ns t" by (simp_all add: bucket_of_def)
    with w(1,2) gap_nonneg [of "seen b" t] Some show ?thesis by (simp add: avail_def)
  qed (use w in \<open>simp add: avail_def\<close>)
  ultimately show ?case by simp
next
  case (Cons c cs)
  let ?v = "rl_time c" and ?rl = "rl_step z c rl" and ?s = "burst rl / 2 ^ 48"
  have ord: "ns t \<le> ns ?v" using Cons.prems(3) by simp
  have seen: "seen_by rl ?v" using Cons.prems(2) ord by (auto simp: seen_by_def intro: order_trans)
  note inv = rl_step_inv [OF Cons.prems(1,2) ord, of z]
  have s0: "0 \<le> ?s" using rl_wfD [OF Cons.prems(1)] by simp
  have ih: "of_nat (admitted z k cs ?rl) \<le> avail ?rl k ?v + rps rl * gap u ?v + of_nat (length cs) * ?s"
  proof -
    have "sorted (map ns (?v # map rl_time cs @ [u]))" using Cons.prems(3) by simp
    moreover have "burst ?rl \<le> 3600 * rps ?rl \<or> (\<forall>c \<in> set cs. \<forall>v. c \<noteq> Prune v)"
      using Cons.prems(4) by (auto simp: inv(3,4))
    ultimately show ?thesis using Cons.IH [OF inv(1,2)] by (simp only: inv(3,4))
  qed
  have later: "avail rl k ?v \<le> avail rl k t + rps rl * gap ?v t" by (rule avail_later [OF Cons.prems(1) ord])
  have split: "rps rl * gap u t = rps rl * gap u ?v + rps rl * gap ?v t"
    by (subst gap_split(1) [of u t ?v]) (simp add: distrib_left)
  have "of_nat (admitted z k (c # cs) rl) \<le> avail rl k ?v + ?s + rps rl * gap u ?v + of_nat (length cs) * ?s"
  proof (cases c)
    case (Ask k' v)
    with ih avail_ask [OF Cons.prems(1) seen, of k' k] show ?thesis by auto
  next
    case (Prune v)
    then have "burst rl \<le> 3600 * rps rl" using Cons.prems(4) by auto
    with avail_prune [OF Cons.prems(1), of v v z k] ih s0 Prune show ?thesis by simp
  qed
  also have "\<dots> \<le> avail rl k t + rps rl * gap u t + of_nat (length (c # cs)) * ?s"
  proof -
    have "of_nat (length (c # cs)) * ?s = of_nat (length cs) * ?s + ?s" by (simp add: distrib_right add.commute)
    then show ?thesis using later split by linarith
  qed
  finally show ?case .
qed

text \<open>C9: In any run of \<open>allow\<close> and \<open>prune\<close> calls with a clock that does not go back,
  starting from the limiter \<open>newRateLimiter\<close> builds, a client is admitted at most
  \<open>burst\<close> times plus \<open>rps\<close> per elapsed second, up to the rounding of \<open>float64\<close>
  (\<open>burst / 2^48\<close> a call): no interleaving with other clients' requests gives it more.
  The run may prune when an hour refills a bucket (\<open>burst \<le> 3600 * rps\<close>); with a slower rate
  it may not, since a pruned bucket comes back full.
\<close>

theorem rate_bound:
  assumes "0 < r" "1 \<le> b" "b \<le> 2 ^ 53"
    "sorted (map ns (t # map rl_time cs @ [u]))"
    "of_int b \<le> 3600 * r \<or> (\<forall>c \<in> set cs. \<forall>v. c \<noteq> Prune v)"
  shows "of_nat (admitted z k cs (new_rate_limiter r b))
    \<le> of_int b + r * gap u t + of_nat (length cs) * (of_int b / 2 ^ 48)"
proof -
  have rl: "burst (new_rate_limiter r b) = of_int b" "rps (new_rate_limiter r b) = r"
    "avail (new_rate_limiter r b) k t = of_int b"
    using assms(2,3) by (simp_all add: new_rate_limiter_def f64_of_int avail_def)
  show ?thesis
    using admitted_bound [OF new_rate_limiter_wf [OF assms(1-3)] assms(4), of z k]
    by (simp add: rl assms(5))
qed

definition sample_calls_rl :: "rl_call list" where
  "sample_calls_rl = [Ask ''a'' (sample_time 0), Ask ''b'' (sample_time 0), Ask ''a'' (sample_time 0),
     Ask ''a'' (sample_time 0), Prune (sample_time 1), Ask ''a'' (sample_time 1), Ask ''a'' (sample_time 1)]"

theorem rate_bound_witness:
  "admitted utc ''a'' sample_calls_rl (new_rate_limiter 1 2) = 3
   \<and> of_nat (admitted utc ''a'' sample_calls_rl (new_rate_limiter 1 2))
    \<le> (of_int 2 :: rat) + 1 * gap (sample_time 1) (sample_time 0) + of_nat (length sample_calls_rl) * (of_int 2 / 2 ^ 48)"
proof
  show "admitted utc ''a'' sample_calls_rl (new_rate_limiter 1 2) = 3"
    using seconds_whole [of 0] seconds_whole [of 1]
    by (simp add: sample_calls_rl_def new_rate_limiter_def allow_def bucket_of_def refill_def prune_def before_def
        Let_def second_def)
  show "of_nat (admitted utc ''a'' sample_calls_rl (new_rate_limiter 1 2))
    \<le> (of_int 2 :: rat) + 1 * gap (sample_time 1) (sample_time 0) + of_nat (length sample_calls_rl) * (of_int 2 / 2 ^ 48)"
    by (rule rate_bound) (simp_all add: sample_calls_rl_def second_def)
qed

section \<open>What a denied client is told\<close>

lemma denied:
  assumes "\<not> fst (fst (allow rl k now))"
  defines "t \<equiv> refill rl (bucket_of rl k now) now"
  shows "t < 1" "snd (fst (allow rl k now)) = int_of_ceil (f64 (f64 (1 - t) / rps rl))"
  using assms by (simp_all add: allow_def Let_def split: if_splits)

lemma wait_bounds:
  assumes wf: "rl_wf rl" and t: "0 \<le> t" "t < 1" and slow: "1 / 2 ^ 40 \<le> rps rl"
  defines "r \<equiv> int_of_ceil (f64 (f64 (1 - t) / rps rl))"
  shows "0 \<le> r" "r \<le> \<lceil>f64 (1 / rps rl)\<rceil>" "1 - t + 1 / 2 ^ 42 \<le> (of_int r + 1) * rps rl"
proof -
  note w = rl_wfD [OF wf]
  define p where "p = f64 (1 - t)"
  define x where "x = p / rps rl"
  have t1: "0 \<le> 1 - t" "1 - t \<le> 1" using t by simp_all
  have "f64 (1 - t) \<le> f64 1" by (rule f64_mono [OF t1])
  then have p: "0 \<le> p" "p \<le> 1" "1 - t - 1 / 2 ^ 52 \<le> p"
    unfolding p_def using f64_nonneg [OF t1(1)] f64_above [OF t1] by simp_all
  have x: "0 \<le> x" "x \<le> 1 / rps rl" "x * rps rl = p"
    unfolding x_def using p w(1) by (simp_all add: divide_right_mono)
  have inv: "1 / rps rl \<le> 2 ^ 40" using slow w(1) by (simp add: field_simps)
  have small: "x \<le> 2 ^ 40" using x(2) inv by linarith
  have "f64 x \<le> x + 2 ^ 40 / 2 ^ 52" by (rule f64_below [OF x(1) small]) simp
  with small have big: "f64 x \<le> 2 ^ 41" by simp
  have f: "0 \<le> f64 x" "f64 x \<le> f64 (1 / rps rl)" "x - x / 2 ^ 53 - 1 / 2 ^ 113 \<le> f64 x"
    using f64_nonneg [OF x(1)] f64_mono [OF x(1,2)] f64_error(2) [OF x(1)] tiny by linarith+
  have "0 \<le> \<lceil>f64 x\<rceil>" using ceiling_mono [OF f(1)] by simp
  moreover have "\<lceil>f64 x\<rceil> \<le> 2 ^ 41" using ceiling_mono [OF big] by simp
  ultimately have range: "0 \<le> \<lceil>f64 x\<rceil>" "\<lceil>f64 x\<rceil> \<le> 2 ^ 41" .
  then have r: "r = \<lceil>f64 x\<rceil>" by (simp add: r_def int_of_ceil_def p_def [symmetric] x_def [symmetric])
  show "0 \<le> r" using range r by simp
  show "r \<le> \<lceil>f64 (1 / rps rl)\<rceil>" unfolding r by (rule ceiling_mono) (rule f(2))
  have "x - x / 2 ^ 53 - 1 / 2 ^ 113 \<le> of_int r" unfolding r using f(3) le_of_int_ceiling [of "f64 x"] by linarith
  then have "(x - x / 2 ^ 53 - 1 / 2 ^ 113) * rps rl \<le> of_int r * rps rl" using w(1) by (simp add: mult_right_mono)
  then have "p - p / 2 ^ 53 - rps rl / 2 ^ 113 \<le> of_int r * rps rl"
    using x(3) by (simp add: left_diff_distrib)
  moreover have "p / 2 ^ 53 \<le> 1 / 2 ^ 53" using p(2) by (simp add: divide_right_mono)
  moreover have "(of_int r + 1) * rps rl = of_int r * rps rl + rps rl" by (simp add: distrib_right)
  ultimately show "1 - t + 1 / 2 ^ 42 \<le> (of_int r + 1) * rps rl" using p(3) slow by simp
qed

lemma admitted_after:
  assumes wf: "rl_wf rl" and t: "0 \<le> tokens b" "tokens b < 1"
    and long: "1 - tokens b + 1 / 2 ^ 42 \<le> of_nat n * rps rl"
    and d: "of_nat n * second \<le> time_sub now (seen b)" "n < 2 ^ 53"
  shows "1 \<le> refill rl b now"
proof -
  note w = rl_wfD [OF wf]
  let ?s = "seconds (time_sub now (seen b))" and ?y = "1 - tokens b + 1 / 2 ^ 42"
  have "of_nat n * rps rl \<le> ?s * rps rl" using seconds_least [OF d] w(1) by (simp add: mult_right_mono)
  with long have "?y \<le> ?s * rps rl" by linarith
  moreover have y: "0 \<le> ?y" "?y \<le> 2" using t by simp_all
  ultimately have "f64 ?y \<le> f64 (?s * rps rl)" by (intro f64_mono)
  moreover have "?y - 2 / 2 ^ 52 \<le> f64 ?y" using y by (intro f64_above) simp_all
  moreover have "(2::rat) / 2 ^ 52 \<le> 1 / 2 ^ 42" by simp
  ultimately have "1 \<le> tokens b + f64 (?s * rps rl)" by linarith
  then have "f64 1 \<le> f64 (tokens b + f64 (?s * rps rl))" by (intro f64_mono) simp_all
  then show ?thesis using w(2) by (simp add: refill_def Let_def)
qed

text \<open>C28: A denied request is told to retry after a number of seconds that is between 0
  and \<open>1 / rps\<close> rounded up, and a client that waits that long and one second
  more (the rounding of the quotient may cost the last token's last bit) is
  admitted, whatever other clients did in the meantime.
\<close>

theorem retry_after_suffices:
  assumes "rl_wf rl" "seen_by rl now" "1 / 2 ^ 40 \<le> rps rl"
    "fst (allow rl k now) = (False, r)"
    "rl_wf rl'" "rps rl' = rps rl" "map_of (buckets rl') k = map_of (buckets (snd (allow rl k now))) k"
    "ns now + (r + 1) * second \<le> ns later" "r + 1 \<le> 2 ^ 33"
  shows "0 \<le> r \<and> r \<le> \<lceil>f64 (1 / rps rl)\<rceil> \<and> fst (allow rl' k later) = (True, 0)"
proof -
  let ?t = "refill rl (bucket_of rl k now) now"
  have no: "\<not> fst (fst (allow rl k now))" and r: "snd (fst (allow rl k now)) = r" using assms(4) by simp_all
  note d = denied [OF no]
  have t: "0 \<le> ?t" using refill_upper(1) [OF assms(1) bucket_of_wf [OF assms(1)] bucket_of_seen [OF assms(2)]] .
  note b = wait_bounds [OF assms(1) t d(1) assms(3), folded d(2), unfolded r]
  have bk: "bucket_of rl' k later = \<lparr>tokens = ?t, seen = now\<rparr>"
    using assms(7) no by (simp add: bucket_of_def map_of_allow)
  have "of_nat (nat (r + 1)) * second \<le> time_sub later now"
  proof -
    have "(r + 1) * second \<le> 2 ^ 33 * second" using assms(9) by (simp add: second_def)
    then have "(r + 1) * second \<le> max_duration" by (simp add: second_def max_duration_def)
    with assms(8) b(1) show ?thesis by (simp add: time_sub_def)
  qed
  then have "1 \<le> refill rl' (bucket_of rl' k later) later"
    unfolding bk using t d(1) b(1,3) assms(6,9)
    by (intro admitted_after [OF assms(5), where n = "nat (r + 1)"]) (simp_all add: nat_less_iff)
  then show ?thesis using b(1,2) by (simp add: allow_def Let_def)
qed

theorem retry_after_suffices_witness:
  "let rl = snd (allow (new_rate_limiter 1 1) ''a'' (sample_time 0));
       rl' = snd (allow rl ''a'' (sample_time 0))
   in fst (allow rl ''a'' (sample_time 0)) = (False, 1)
      \<and> (0 \<le> (1::int) \<and> 1 \<le> \<lceil>f64 (1 / rps rl)\<rceil> \<and> fst (allow rl' ''a'' (sample_time 2)) = (True, 0))"
proof -
  define rl where "rl = snd (allow (new_rate_limiter 1 1) ''a'' (sample_time 0))"
  have wf: "rl_wf rl" "seen_by rl (sample_time 0)"
    unfolding rl_def by (rule allow_wf; rule new_rate_limiter_wf; simp)+
  have ans: "fst (allow rl ''a'' (sample_time 0)) = (False, 1)"
    using seconds_whole [of 0]
    by (simp add: rl_def new_rate_limiter_def allow_def bucket_of_def refill_def Let_def int_of_ceil_def)
  have rps: "rps rl = 1" by (simp add: rl_def new_rate_limiter_def)
  have "0 \<le> (1::int) \<and> 1 \<le> \<lceil>f64 (1 / rps rl)\<rceil> \<and> fst (allow (snd (allow rl ''a'' (sample_time 0))) ''a'' (sample_time 2)) = (True, 0)"
    by (rule retry_after_suffices [OF wf _ ans allow_wf(1) [OF wf] _ refl]) (simp_all add: rps second_def)
  with ans show ?thesis by (simp add: rl_def Let_def)
qed

section \<open>Pruning\<close>

text \<open>C29: When an hour's refill fills a bucket (\<open>burst \<le> 3600 * rps\<close>), dropping the idle
  buckets is invisible: every later request gets the same answer and leaves the
  same bucket as without \<open>prune\<close>.
\<close>

theorem prune_invisible:
  assumes wf: "rl_wf rl" and le: "seen_by rl t" "ns t \<le> ns now" and hour: "burst rl \<le> 3600 * rps rl"
  shows "fst (allow (prune rl z t) k now) = fst (allow rl k now)
    \<and> map_of (buckets (snd (allow (prune rl z t) k now))) k = map_of (buckets (snd (allow rl k now))) k"
proof -
  note w = rl_wfD [OF wf]
  have "refill (prune rl z t) (bucket_of (prune rl z t) k now) now = refill rl (bucket_of rl k now) now"
  proof (cases "\<exists>b. map_of (buckets rl) k = Some b \<and> ns (seen b) < ns t - 3600 * second")
    case False
    then have "bucket_of (prune rl z t) k now = bucket_of rl k now"
      by (auto simp: bucket_of_def map_of_prune [OF w(4)] split: option.split)
    then show ?thesis by (simp add: refill_def)
  next
    case True
    then obtain b where b: "map_of (buckets rl) k = Some b" "ns (seen b) < ns t - 3600 * second" by blast
    then have "of_nat 3600 * second \<le> time_sub now (seen b)"
      using le(2) by (simp add: time_sub_def max_duration_def second_def)
    then have "3600 \<le> seconds (time_sub now (seen b))" using seconds_least [of 3600] by simp
    then have "3600 * rps rl \<le> seconds (time_sub now (seen b)) * rps rl" using w(1) by simp
    with hour have full: "burst rl \<le> seconds (time_sub now (seen b)) * rps rl" by linarith
    moreover have "0 \<le> tokens b" using wf map_of_SomeD [OF b(1)] by (auto simp: rl_wf_def)
    ultimately have "refill rl (bucket_of rl k now) now = burst rl"
      using b(1) by (intro refill_full [OF wf]) (simp_all add: bucket_of_def)
    moreover have "refill (prune rl z t) (bucket_of (prune rl z t) k now) now = burst (prune rl z t)"
      using b w prune_wf(1) [OF wf le(1)]
      by (intro refill_full) (simp_all add: bucket_of_def map_of_prune time_sub_def max_duration_def seconds_def signed_divide_int_def signed_modulo_int_def)
    ultimately show ?thesis by simp
  qed
  then show ?thesis by (simp add: map_of_allow allow_answer) (simp add: allow_def Let_def)
qed

theorem prune_invisible_witness:
  "let rl = snd (allow (new_rate_limiter 1 2) ''a'' (sample_time 0))
   in buckets (prune rl utc (sample_time 7200)) = []
      \<and> (fst (allow (prune rl utc (sample_time 7200)) ''a'' (sample_time 7200)) = fst (allow rl ''a'' (sample_time 7200))
        \<and> map_of (buckets (snd (allow (prune rl utc (sample_time 7200)) ''a'' (sample_time 7200)))) ''a''
          = map_of (buckets (snd (allow rl ''a'' (sample_time 7200)))) ''a'')"
proof -
  define rl where "rl = snd (allow (new_rate_limiter 1 2) ''a'' (sample_time 0))"
  have wf: "rl_wf rl" "seen_by rl (sample_time 0)"
    unfolding rl_def by (rule allow_wf; rule new_rate_limiter_wf; simp)+
  then have "seen_by rl (sample_time 7200)" by (auto simp: seen_by_def second_def)
  moreover have "buckets (prune rl utc (sample_time 7200)) = []"
    using seconds_whole [of 0]
    by (simp add: rl_def new_rate_limiter_def allow_def bucket_of_def refill_def prune_def before_def Let_def second_def)
  moreover have "burst rl \<le> 3600 * rps rl" by (simp add: rl_def new_rate_limiter_def)
  ultimately show ?thesis
    using prune_invisible [OF wf(1), of "sample_time 7200" "sample_time 7200" utc "''a''"] by (simp add: rl_def Let_def)
qed

end
