(* ===== verification/Net_Addr.thy ===== *)
theory Net_Addr
  imports Go_Time
begin

text \<open>
  The address functions of the Go standard library that the server and the
  configuration call: \<open>net.SplitHostPort\<close>, \<open>netip.ParseAddr\<close>, \<open>netip.ParsePrefix\<close>,
  \<open>Prefix.Masked\<close>, \<open>Prefix.Contains\<close>, \<open>strings.Split\<close> on one byte,
  \<open>strings.TrimSpace\<close> (on ASCII white space) and \<open>strings.LastIndexByte\<close>.
  An address is its number; \<open>None\<close> stands for the error of a parser.
\<close>

section \<open>Strings\<close>

fun split_on :: "char \<Rightarrow> string \<Rightarrow> string list" where
  "split_on c [] = [[]]"
| "split_on c (x # s) = (case split_on c s of
      [] \<Rightarrow> [[x]]
    | p # ps \<Rightarrow> if x = c then [] # p # ps else (x # p) # ps)"

definition is_space :: "char \<Rightarrow> bool" where
  "is_space c \<longleftrightarrow> (of_char c :: nat) \<in> {9, 10, 11, 12, 13, 32}"

definition trim_space :: "string \<Rightarrow> string" where
  "trim_space s = rev (dropWhile is_space (rev (dropWhile is_space s)))"

text \<open>The parts before and after the first, and the last, occurrence of a byte.\<close>

definition cut_first :: "char \<Rightarrow> string \<Rightarrow> (string \<times> string) option" where
  "cut_first c s = (if c \<in> set s then Some (takeWhile (\<lambda>x. x \<noteq> c) s, tl (dropWhile (\<lambda>x. x \<noteq> c) s)) else None)"

definition cut_last :: "char \<Rightarrow> string \<Rightarrow> (string \<times> string) option" where
  "cut_last c s = (case cut_first c (rev s) of None \<Rightarrow> None | Some (b, a) \<Rightarrow> Some (rev a, rev b))"

lemma cut_first_append [simp]: "c \<notin> set a \<Longrightarrow> cut_first c (a @ c # b) = Some (a, b)"
proof -
  assume "c \<notin> set a"
  then have "takeWhile (\<lambda>x. x \<noteq> c) (a @ c # b) = a" "dropWhile (\<lambda>x. x \<noteq> c) (a @ c # b) = c # b"
    by (induction a) auto
  then show ?thesis by (simp add: cut_first_def)
qed

lemma cut_last_append [simp]: "c \<notin> set b \<Longrightarrow> cut_last c (a @ c # b) = Some (a, b)"
  using cut_first_append [of c "rev b" "rev a"] by (simp add: cut_last_def)

lemma split_on_absent [simp]: "c \<notin> set s \<Longrightarrow> split_on c s = [s]"
  by (induction s) auto

lemma split_on_nonempty [simp]: "split_on c s \<noteq> []"
  by (induction s) (auto split: list.split)

lemma split_on_append: "c \<notin> set a \<Longrightarrow> split_on c (a @ c # b) = a # split_on c b"
proof (induction a)
  case Nil
  show ?case by (cases "split_on c b") simp_all
next
  case (Cons x a)
  then show ?case by auto
qed

section \<open>Host and port\<close>

text \<open>\<open>net.SplitHostPort\<close>: the last colon ends the host; brackets protect colons.\<close>

definition split_host_port :: "string \<Rightarrow> (string \<times> string) option" where
  "split_host_port hp =
    (case cut_last (CHR '':'') hp of
       None \<Rightarrow> None
     | Some (before_colon, port) \<Rightarrow>
         if hp \<noteq> [] \<and> hd hp = CHR ''[''
         then (case cut_first (CHR '']'') hp of
                 None \<Rightarrow> None
               | Some (open_host, rest) \<Rightarrow>
                   if rest = CHR '':'' # port
                      \<and> CHR ''['' \<notin> set (tl hp) \<and> CHR '']'' \<notin> set rest
                   then Some (tl open_host, port) else None)
         else if CHR '':'' \<in> set before_colon \<or> CHR ''['' \<in> set hp \<or> CHR '']'' \<in> set hp then None
         else Some (before_colon, port))"

text \<open>How the \<open>net\<close> package prints a peer: \<open>net.JoinHostPort\<close>.\<close>

definition join_host_port :: "string \<Rightarrow> string \<Rightarrow> string" where
  "join_host_port h p = (if CHR '':'' \<in> set h \<or> CHR ''%'' \<in> set h
     then CHR ''['' # h @ '']:'' @ p else h @ CHR '':'' # p)"

lemma split_join_host_port:
  assumes "set h \<inter> {CHR ''['', CHR '']''} = {}" "set p \<inter> {CHR '':'', CHR ''['', CHR '']''} = {}"
  shows "split_host_port (join_host_port h p) = Some (h, p)"
proof (cases "CHR '':'' \<in> set h \<or> CHR ''%'' \<in> set h")
  case True
  have "cut_last (CHR '':'') ((CHR ''['' # h @ '']'') @ CHR '':'' # p) = Some (CHR ''['' # h @ '']'', p)"
    using assms(2) by (intro cut_last_append) auto
  moreover have "cut_first (CHR '']'') ((CHR ''['' # h) @ CHR '']'' # CHR '':'' # p) = Some (CHR ''['' # h, CHR '':'' # p)"
    using assms(1) by (intro cut_first_append) auto
  ultimately show ?thesis
    using True assms by (auto simp: join_host_port_def split_host_port_def)
next
  case False
  moreover have "cut_last (CHR '':'') (h @ CHR '':'' # p) = Some (h, p)"
    using assms(2) by (intro cut_last_append) auto
  moreover have "hd (h @ CHR '':'' # p) \<noteq> CHR ''[''" using assms(1) by (cases h) auto
  ultimately show ?thesis using assms by (auto simp: join_host_port_def split_host_port_def)
qed

section \<open>Addresses\<close>

datatype ip_addr = V4 nat | V6 nat string

fun addr_bits :: "ip_addr \<Rightarrow> nat" where
  "addr_bits (V4 a) = 32"
| "addr_bits (V6 a z) = 128"

fun addr_num :: "ip_addr \<Rightarrow> nat" where
  "addr_num (V4 a) = a"
| "addr_num (V6 a z) = a"

fun addr_zone :: "ip_addr \<Rightarrow> string" where
  "addr_zone (V4 a) = []"
| "addr_zone (V6 a z) = z"

text \<open>A dotted-quad octet: decimal digits, no leading zero, at most 255.\<close>

definition octet :: "string \<Rightarrow> nat option" where
  "octet s = (if s \<noteq> [] \<and> list_all is_digit s \<and> (length s = 1 \<or> hd s \<noteq> CHR ''0'') \<and> num s \<le> 255
     then Some (num s) else None)"

definition parse_v4_fields :: "string \<Rightarrow> nat option" where
  "parse_v4_fields s = (case map octet (split_on (CHR ''.'') s) of
      [Some a, Some b, Some c, Some d] \<Rightarrow> Some (((a * 256 + b) * 256 + c) * 256 + d)
    | _ \<Rightarrow> None)"

definition hex_val :: "char \<Rightarrow> nat option" where
  "hex_val ch = (let c = of_char ch in
     if 48 \<le> c \<and> c \<le> 57 then Some (c - 48)
     else if 97 \<le> c \<and> c \<le> 102 then Some (c - 87)
     else if 65 \<le> c \<and> c \<le> 70 then Some (c - 55) else None)"

definition hex_num :: "string \<Rightarrow> nat" where
  "hex_num s = foldl (\<lambda>a c. a * 16 + (case hex_val c of None \<Rightarrow> 0 | Some d \<Rightarrow> d)) 0 s"

text \<open>
  The loop of \<open>parseIPv6\<close> over 16-bit groups. \<open>gs\<close> are the groups read so far,
  \<open>ell\<close> the number of them before a \<open>::\<close>; it yields the groups, the ellipsis and
  what was left of the text when the loop stopped. A dotted quad fills two
  groups. \<open>fuel\<close> is the number of groups that still fit.
\<close>

fun v6_loop :: "nat \<Rightarrow> string \<Rightarrow> nat list \<Rightarrow> nat option \<Rightarrow> (nat list \<times> nat option \<times> string) option" where
  "v6_loop 0 s gs ell = Some (gs, ell, s)"
| "v6_loop (Suc n) s gs ell =
    (let g = takeWhile (\<lambda>c. hex_val c \<noteq> None) s; rest = dropWhile (\<lambda>c. hex_val c \<noteq> None) s
     in if g = [] \<or> 4 < length g then None
        else case rest of
          [] \<Rightarrow> Some (gs @ [hex_num g], ell, [])
        | c # r \<Rightarrow>
            if c = CHR ''.'' then
              (if (ell = None \<and> length gs \<noteq> 6) \<or> n = 0 then None
               else case parse_v4_fields s of
                 None \<Rightarrow> None
               | Some v \<Rightarrow> Some (gs @ [v div 65536, v mod 65536], ell, []))
            else if c \<noteq> CHR '':'' \<or> r = [] then None
            else if hd r \<noteq> CHR '':'' then v6_loop n r (gs @ [hex_num g]) ell
            else if ell \<noteq> None then None
            else if tl r = [] then Some (gs @ [hex_num g], Some (Suc (length gs)), [])
            else v6_loop n (tl r) (gs @ [hex_num g]) (Some (Suc (length gs))))"

definition groups_num :: "nat list \<Rightarrow> nat" where
  "groups_num gs = foldl (\<lambda>a g. a * 65536 + g) 0 gs"

definition parse_v6 :: "string \<Rightarrow> ip_addr option" where
  "parse_v6 s =
    (let (t, zone, zone_ok) = (case cut_first (CHR ''%'') s of
         None \<Rightarrow> (s, [], True) | Some (t, z) \<Rightarrow> (t, z, z \<noteq> []))
     in if \<not> zone_ok then None
        else if t = ''::'' then Some (V6 0 zone)
        else case (if take 2 t = ''::'' then v6_loop 8 (drop 2 t) [] (Some 0) else v6_loop 8 t [] None) of
          None \<Rightarrow> None
        | Some (gs, ell, rest) \<Rightarrow>
            if rest \<noteq> [] then None
            else if length gs < 8
              then (case ell of None \<Rightarrow> None
                    | Some e \<Rightarrow> Some (V6 (groups_num (take e gs @ replicate (8 - length gs) 0 @ drop e gs)) zone))
            else if ell \<noteq> None then None
            else Some (V6 (groups_num gs) zone))"

definition parse_addr :: "string \<Rightarrow> ip_addr option" where
  "parse_addr s = (case dropWhile (\<lambda>c. c \<notin> set ''.:%'') s of
      [] \<Rightarrow> None
    | c # _ \<Rightarrow> if c = CHR ''.'' then map_option V4 (parse_v4_fields s)
        else if c = CHR '':'' then parse_v6 s else None)"

section \<open>Prefixes\<close>

text \<open>\<open>netip.Prefix\<close>: an address and a number of leading bits.\<close>

record prefix =
  p_ip :: ip_addr
  p_bits :: nat

definition parse_prefix :: "string \<Rightarrow> prefix option" where
  "parse_prefix s = (case cut_last (CHR ''/'') s of
      None \<Rightarrow> None
    | Some (a, b) \<Rightarrow> (case parse_addr a of
         None \<Rightarrow> None
       | Some ip \<Rightarrow>
           if addr_zone ip \<noteq> [] \<or> b = [] \<or> \<not> list_all is_digit b \<or> (1 < length b \<and> hd b = CHR ''0'')
              \<or> addr_bits ip < num b then None
           else Some \<lparr>p_ip = ip, p_bits = num b\<rparr>))"

definition mask_num :: "nat \<Rightarrow> nat \<Rightarrow> nat \<Rightarrow> nat" where
  "mask_num w b n = n div 2 ^ (w - b) * 2 ^ (w - b)"

fun masked :: "prefix \<Rightarrow> prefix" where
  "masked \<lparr>p_ip = V4 a, p_bits = b\<rparr> = \<lparr>p_ip = V4 (mask_num 32 b a), p_bits = b\<rparr>"
| "masked \<lparr>p_ip = V6 a z, p_bits = b\<rparr> = \<lparr>p_ip = V6 (mask_num 128 b a) [], p_bits = b\<rparr>"

text \<open>Same family, no zone on the address, and the leading bits agree.\<close>

definition prefix_contains :: "prefix \<Rightarrow> ip_addr \<Rightarrow> bool" where
  "prefix_contains p ip \<longleftrightarrow> addr_zone ip = [] \<and> addr_bits (p_ip p) = addr_bits ip
     \<and> (let sh = addr_bits ip - p_bits p
        in addr_num (p_ip p) div 2 ^ sh = addr_num ip div 2 ^ sh)"

lemma masked_contains: "prefix_contains (masked p) ip \<longleftrightarrow> prefix_contains p ip"
proof (cases p)
  case (fields i b)
  then show ?thesis by (cases i) (auto simp: prefix_contains_def mask_num_def Let_def)
qed

lemma masked_idem: "masked (masked p) = masked p"
proof (cases p)
  case (fields i b)
  then show ?thesis by (cases i) (auto simp: mask_num_def)
qed

text \<open>The dotted quad of a number is read back.\<close>

definition dec_octet :: "nat \<Rightarrow> string" where
  "dec_octet n = (if n < 10 then pad 1 n else if n < 100 then pad 2 n else pad 3 n)"

definition v4_text :: "nat \<Rightarrow> string" where
  "v4_text a = dec_octet (a div 16777216) @ CHR ''.'' # dec_octet (a div 65536 mod 256) @ CHR ''.''
     # dec_octet (a div 256 mod 256) @ CHR ''.'' # dec_octet (a mod 256)"

lemma octet_dec: "n < 256 \<Longrightarrow> octet (dec_octet n) = Some n"
proof -
  assume n: "n < 256"
  define w where "w = (if n < 10 then 1 else if n < 100 then 2 else 3::nat)"
  have dec: "dec_octet n = pad w n" by (simp add: dec_octet_def w_def)
  have val: "num (pad w n) = n" using n by (intro num_pad) (simp add: w_def)
  have "w = 1 \<or> hd (pad w n) \<noteq> CHR ''0''"
  proof -
    have "digit_val (CHR ''0'') = 0" by (simp add: digit_val_def)
    moreover have "digit_val (hd (pad 2 n)) = n div 10 mod 10" "digit_val (hd (pad 3 n)) = n div 100 mod 10"
      by (simp_all add: numeral_2_eq_2 numeral_3_eq_3 div_mult2_eq [symmetric])
    moreover have "n div 10 mod 10 \<noteq> 0" if "10 \<le> n" "n < 100" using that by auto
    moreover have "n div 100 mod 10 \<noteq> 0" if "100 \<le> n" using that n by auto
    ultimately show ?thesis by (auto simp: w_def split: if_splits)
  qed
  with val n show ?thesis
    unfolding dec octet_def by (auto simp: list_all_iff digits_pad) (auto simp: w_def split: if_splits)
qed

lemma parse_v4_text:
  assumes "a < 2 ^ 32"
  shows "parse_addr (v4_text a) = Some (V4 a)"
proof -
  define w x y z where "w = a div 16777216" and "x = a div 65536 mod 256" and "y = a div 256 mod 256" and "z = a mod 256"
  have a: "((w * 256 + x) * 256 + y) * 256 + z = a"
  proof -
    have "a div 65536 div 256 = w" "a div 256 div 256 = a div 65536" by (simp_all add: w_def div_mult2_eq [symmetric])
    then have "w * 256 + x = a div 65536" "(a div 65536) * 256 + y = a div 256" "(a div 256) * 256 + z = a"
      by (simp_all add: x_def y_def z_def) (metis div_mult_mod_eq)+
    then show ?thesis by simp
  qed
  have oct: "octet (dec_octet w) = Some w" "octet (dec_octet x) = Some x" "octet (dec_octet y) = Some y"
    "octet (dec_octet z) = Some z"
    using assms by (simp_all add: octet_dec w_def x_def y_def z_def less_mult_imp_div_less)
  have dig: "c \<in> set (dec_octet n) \<Longrightarrow> is_digit c" for c n
    by (auto simp: dec_octet_def digits_pad split: if_splits)
  have dot: "CHR ''.'' \<notin> set (dec_octet n)" for n using dig [of "CHR ''.''" n] by (auto simp: is_digit_def)
  have quad: "v4_text a = dec_octet w @ CHR ''.'' # dec_octet x @ CHR ''.'' # dec_octet y @ CHR ''.'' # dec_octet z"
    by (simp add: v4_text_def w_def x_def y_def z_def)
  have "split_on (CHR ''.'') (v4_text a) = [dec_octet w, dec_octet x, dec_octet y, dec_octet z]"
    unfolding quad using dot by (simp add: split_on_append)
  then have "parse_v4_fields (v4_text a) = Some a" using a by (simp add: parse_v4_fields_def oct)
  moreover have "dropWhile (\<lambda>c. c \<notin> set ''.:%'') (dec_octet w @ CHR ''.'' # s) = CHR ''.'' # s" for s
  proof -
    have "c \<notin> set ''.:%''" if "c \<in> set (dec_octet w)" for c using dig [OF that] by (auto simp: is_digit_def)
    then show ?thesis by (subst dropWhile_append2) simp_all
  qed
  ultimately show ?thesis unfolding parse_addr_def quad by simp
qed

end
