(* ===== verification/Server_State.thy ===== *)
theory Server_State
  imports Store_Core Rate_Limit Net_Addr
begin

text \<open>
  The server's data (\<open>src/internal/server\<close>): its options, the process state its
  handlers share, the request and the response writer.

  \<^item> \<open>'db server\<close> is \<open>Server\<close> with the options \<open>newServer\<close> resolved. \<open>clk\<close>, \<open>tz\<close>
    and \<open>fresh_id\<close> are the process: the n-th reading of \<open>time.Now\<close>, the zone rules,
    the n-th result of \<open>uuid.NewString\<close>;
  \<^item> \<open>'db world\<close> is what outlives a request: the store, the limiter, the lines logged,
    the metric events, and the number of \<open>AfterWrite\<close> goroutines started;
  \<^item> \<open>'db conn\<close> adds the response of the request being served. \<open>sent\<close> is the status
    line with the headers as they were when it was written; \<open>recorder\<close> is the
    \<open>responseRecorder\<close> (status, bytes) while the writer is wrapped in one;
    \<open>body_read\<close> is the \<open>countingBody\<close>. \<open>write_faults\<close> says which writes to the
    client fail;
  \<^item> a handler maps a request and a state to an outcome (a panic is a value) and a
    state.
\<close>

section \<open>Requests\<close>

text \<open>A body is the bytes it yields, then end of file or an error.\<close>

record request =
  req_method :: string
  url_path :: string
  header :: "string \<Rightarrow> string"
  body :: "bytes \<times> string option"
  remote_addr :: string
  ctx_id :: string
  trace_ids :: "(string \<times> string) option"

section \<open>What a request leaves behind\<close>

datatype fault = StoreFault store_error | IoFault string

record access_line =
  al_method :: string
  al_path :: string
  al_route :: string
  al_status :: int
  al_latency_ms :: rat
  al_sent :: int
  al_received :: int
  al_total :: int
  al_ip :: string
  al_request_id :: string
  al_trace :: "(string \<times> string) option"

datatype log_line =
    LogInternal string fault string string   \<comment> \<open>op, error, request id, route\<close>
  | LogPanic string string                   \<comment> \<open>value, request id\<close>
  | LogRequest access_line

text \<open>The methods of the \<open>Metrics\<close> interface (\<open>metrics.go\<close>).\<close>

datatype metric =
    MRequest string string string string
  | MRequestDuration string string string duration
  | MRequestInFlight string string string int
  | MDBQuery string duration
  | MKeyStored string
  | MKeyExpired
  | MError string string string

record 'db world =
  kv :: "'db store"
  rate :: limiter
  ticks :: nat
  ids :: nat
  logs :: "log_line list"
  events :: "metric list"
  spawned :: nat

type_synonym headers = "(string \<times> string) list"

record 'db conn = "'db world" +
  hdr :: headers
  sent :: "(int \<times> headers) option"
  out :: bytes
  write_faults :: "bool list"
  recorder :: "(int \<times> int) option"
  body_read :: int

type_synonym 'db handler = "request \<Rightarrow> 'db conn \<Rightarrow> unit outcome \<times> 'db conn"

text \<open>An embedded file: the chunks \<open>Read\<close> yields, then end of file or an error.\<close>

type_synonym ui_file = "bytes list \<times> string option"

record 'db options =
  o_max_body :: int
  o_max_key :: int
  o_ttl :: duration
  o_api_key :: string
  o_commit_mode :: string
  o_rps :: rat
  o_burst :: int
  o_trusted :: "prefix list"
  o_ui :: "(string \<Rightarrow> (string, ui_file) res) option"
  o_metrics :: bool
  o_after_write :: bool
  o_wrap :: "('db handler \<Rightarrow> 'db handler) option"

record 'db server =
  engine :: "'db sqlite"
  opts :: "'db options"
  default_mode :: put_mode
  clk :: "nat \<Rightarrow> gotime"
  tz :: zone
  fresh_id :: "nat \<Rightarrow> string"

text \<open>
  \<open>newServer\<close>: defaults for what is unset, the default mode parsed, a fresh limiter.
  A nil \<open>Metrics\<close> becomes \<open>noopMetrics\<close>, which drops every event.
\<close>

definition new_server :: "'db sqlite \<Rightarrow> (nat \<Rightarrow> gotime) \<Rightarrow> zone \<Rightarrow> (nat \<Rightarrow> string) \<Rightarrow> 'db options
    \<Rightarrow> 'db server \<times> limiter" where
  "new_server E clock z new_id o1 =
    (let o1 = (if o_max_body o1 \<le> 0 then o1\<lparr>o_max_body := 1048576\<rparr> else o1);
         o1 = (if o_max_key o1 \<le> 0 then o1\<lparr>o_max_key := 256\<rparr> else o1);
         o1 = (if o_ttl o1 \<le> 0 then o1\<lparr>o_ttl := 24 * 3600 * second\<rparr> else o1);
         o1 = (if o_rps o1 \<le> 0 then o1\<lparr>o_rps := 10\<rparr> else o1);
         o1 = (if o_burst o1 \<le> 0 then o1\<lparr>o_burst := 20\<rparr> else o1);
         mode = (case parse_put_mode (o_commit_mode o1) of (v, ok) \<Rightarrow> if ok then v else PutSync)
     in (\<lparr>engine = E, opts = o1, default_mode = mode, clk = clock, tz = z, fresh_id = new_id\<rparr>,
         new_rate_limiter (o_rps o1) (o_burst o1)))"

section \<open>Effects on the process\<close>

definition read_clock :: "'db server \<Rightarrow> 'db conn \<Rightarrow> gotime \<times> 'db conn" where
  "read_clock srv c = (clk srv (ticks c), c\<lparr>ticks := Suc (ticks c)\<rparr>)"

definition emit :: "'db server \<Rightarrow> metric \<Rightarrow> 'db conn \<Rightarrow> 'db conn" where
  "emit srv m c = (if o_metrics (opts srv) then c\<lparr>events := events c @ [m]\<rparr> else c)"

definition log_it :: "log_line \<Rightarrow> 'db conn \<Rightarrow> 'db conn" where
  "log_it l c = c\<lparr>logs := logs c @ [l]\<rparr>"

section \<open>The response writer\<close>

definition set_header :: "string \<Rightarrow> string \<Rightarrow> 'db conn \<Rightarrow> 'db conn" where
  "set_header k v c = c\<lparr>hdr := AList.update k v (hdr c)\<rparr>"

text \<open>The server's own writer: the first status line wins; \<open>Write\<close> implies status 200.\<close>

definition raw_write_header :: "int \<Rightarrow> 'db conn \<Rightarrow> 'db conn" where
  "raw_write_header code c = (if sent c = None then c\<lparr>sent := Some (code, hdr c)\<rparr> else c)"

definition raw_write :: "bytes \<Rightarrow> 'db conn \<Rightarrow> (int \<times> string option) \<times> 'db conn" where
  "raw_write b c =
    (let c = raw_write_header 200 c
     in case write_faults c of
          True # fs \<Rightarrow> ((0, Some ''write failed''), c\<lparr>write_faults := fs\<rparr>)
        | False # fs \<Rightarrow> ((int (length b), None), c\<lparr>out := out c @ b, write_faults := fs\<rparr>)
        | [] \<Rightarrow> ((int (length b), None), c\<lparr>out := out c @ b\<rparr>))"

text \<open>\<open>responseRecorder.WriteHeader\<close> and \<open>Write\<close> when wrapped, else the server's own.\<close>

definition write_header :: "int \<Rightarrow> 'db conn \<Rightarrow> 'db conn" where
  "write_header code c = (case recorder c of
      None \<Rightarrow> raw_write_header code c
    | Some (status, n) \<Rightarrow>
        if status \<noteq> 0 then c else raw_write_header code (c\<lparr>recorder := Some (code, n)\<rparr>))"

definition resp_write :: "bytes \<Rightarrow> 'db conn \<Rightarrow> (int \<times> string option) \<times> 'db conn" where
  "resp_write b c = (case recorder c of
      None \<Rightarrow> raw_write b c
    | Some (status, n) \<Rightarrow>
        (let c = (if status = 0 then write_header 200 c else c)
         in case raw_write b c of ((m, err), c) \<Rightarrow>
              ((m, err), (case recorder c of
                 None \<Rightarrow> c | Some (st, n) \<Rightarrow> c\<lparr>recorder := Some (st, n + m)\<rparr>))))"

text \<open>\<open>json.Marshal\<close> of \<open>{"error": msg}\<close>; quotes and backslashes are escaped (the messages are ASCII).\<close>

definition json_quote :: "string \<Rightarrow> string" where
  "json_quote s = CHR 0x22 # concat (map (\<lambda>c. if c \<in> {CHR 0x22, CHR 0x5C} then [CHR 0x5C, c] else [c]) s) @ [CHR 0x22]"

definition json_error :: "string \<Rightarrow> bytes" where
  "json_error msg = ''{'' @ json_quote ''error'' @ '':'' @ json_quote msg @ ''}''"

definition write_error :: "int \<Rightarrow> string \<Rightarrow> 'db conn \<Rightarrow> 'db conn" where
  "write_error status msg c =
    (let b = json_error msg;
         c = set_header ''Content-Type'' ''application/json'' c;
         c = write_header status c
     in snd (resp_write b c))"

text \<open>Decimal text, \<open>%d\<close>.\<close>

fun nat_text :: "nat \<Rightarrow> string" where
  "nat_text n = (if n < 10 then [digit_char n] else nat_text (n div 10) @ [digit_char n])"

declare nat_text.simps [simp del]

definition int_text :: "int \<Rightarrow> string" where
  "int_text i = (if i < 0 then CHR ''-'' # nat_text (nat (- i)) else nat_text (nat i))"

section \<open>Frames\<close>

text \<open>
  Writing a response leaves the process state alone: \<open>process c\<close> is that part,
  but for the clock.
\<close>

definition process :: "'db conn \<Rightarrow> 'db store \<times> limiter \<times> nat \<times> log_line list \<times> metric list \<times> nat" where
  "process c = (kv c, rate c, ids c, logs c, events c, spawned c)"

lemma read_clock_simps [simp]:
  "fst (read_clock srv c) = clk srv (ticks c)" "snd (read_clock srv c) = c\<lparr>ticks := Suc (ticks c)\<rparr>"
  by (simp_all add: read_clock_def)

lemma set_header_simps [simp]:
  "kv (set_header k v c) = kv c" "rate (set_header k v c) = rate c" "ticks (set_header k v c) = ticks c"
  "ids (set_header k v c) = ids c" "logs (set_header k v c) = logs c" "events (set_header k v c) = events c"
  "spawned (set_header k v c) = spawned c" "sent (set_header k v c) = sent c" "out (set_header k v c) = out c"
  "recorder (set_header k v c) = recorder c" "body_read (set_header k v c) = body_read c"
  "write_faults (set_header k v c) = write_faults c" "hdr (set_header k v c) = AList.update k v (hdr c)"
  by (simp_all add: set_header_def)

lemma emit_simps [simp]:
  "kv (emit srv m c) = kv c" "rate (emit srv m c) = rate c" "ticks (emit srv m c) = ticks c"
  "ids (emit srv m c) = ids c" "logs (emit srv m c) = logs c" "spawned (emit srv m c) = spawned c"
  "sent (emit srv m c) = sent c" "out (emit srv m c) = out c" "recorder (emit srv m c) = recorder c"
  "body_read (emit srv m c) = body_read c" "write_faults (emit srv m c) = write_faults c" "hdr (emit srv m c) = hdr c"
  by (simp_all add: emit_def)

lemma events_emit: "events (emit srv m c) = events c @ (if o_metrics (opts srv) then [m] else [])"
  by (simp add: emit_def)

lemma log_it_simps [simp]:
  "kv (log_it l c) = kv c" "rate (log_it l c) = rate c" "ticks (log_it l c) = ticks c"
  "ids (log_it l c) = ids c" "logs (log_it l c) = logs c @ [l]" "events (log_it l c) = events c"
  "spawned (log_it l c) = spawned c" "sent (log_it l c) = sent c" "out (log_it l c) = out c"
  "recorder (log_it l c) = recorder c" "body_read (log_it l c) = body_read c"
  "write_faults (log_it l c) = write_faults c" "hdr (log_it l c) = hdr c"
  by (simp_all add: log_it_def)

lemma write_header_simps [simp]:
  "kv (write_header s c) = kv c" "rate (write_header s c) = rate c" "ticks (write_header s c) = ticks c"
  "ids (write_header s c) = ids c" "logs (write_header s c) = logs c" "events (write_header s c) = events c"
  "spawned (write_header s c) = spawned c" "out (write_header s c) = out c" "hdr (write_header s c) = hdr c"
  "body_read (write_header s c) = body_read c" "write_faults (write_header s c) = write_faults c"
  by (simp_all add: write_header_def raw_write_header_def split: option.split)

lemma raw_write_simps [simp]:
  "kv (snd (raw_write b c)) = kv c" "rate (snd (raw_write b c)) = rate c" "ticks (snd (raw_write b c)) = ticks c"
  "ids (snd (raw_write b c)) = ids c" "logs (snd (raw_write b c)) = logs c" "events (snd (raw_write b c)) = events c"
  "spawned (snd (raw_write b c)) = spawned c" "hdr (snd (raw_write b c)) = hdr c" "body_read (snd (raw_write b c)) = body_read c"
  by (simp_all add: raw_write_def raw_write_header_def Let_def split: list.split bool.split)

lemma resp_write_simps [simp]:
  "kv (snd (resp_write b c)) = kv c" "rate (snd (resp_write b c)) = rate c" "ticks (snd (resp_write b c)) = ticks c"
  "ids (snd (resp_write b c)) = ids c" "logs (snd (resp_write b c)) = logs c" "events (snd (resp_write b c)) = events c"
  "spawned (snd (resp_write b c)) = spawned c" "hdr (snd (resp_write b c)) = hdr c" "body_read (snd (resp_write b c)) = body_read c"
  by (simp_all add: resp_write_def case_prod_beta Let_def split: option.split)

lemma write_error_simps [simp]:
  "kv (write_error s m c) = kv c" "rate (write_error s m c) = rate c" "ticks (write_error s m c) = ticks c"
  "ids (write_error s m c) = ids c" "logs (write_error s m c) = logs c" "events (write_error s m c) = events c"
  "spawned (write_error s m c) = spawned c" "body_read (write_error s m c) = body_read c"
  by (simp_all add: write_error_def Let_def)

end
