(* ===== verification/Server_Handlers.thy ===== *)
theory Server_Handlers
  imports Server_State
begin

text \<open>
  The handlers (\<open>server.go\<close>) and the middleware chain (\<open>middleware.go\<close>), one
  definition per function, composed by \<open>handler\<close> in the order of the source.
  A handler that cannot panic is a function on the connection; \<open>route\<close> and
  \<open>serve_ui\<close>, which can, and everything around them return an outcome.
\<close>

section \<open>Routing\<close>

definition ui_paths :: "string list" where
  "ui_paths = [''/'', ''/index.html'', ''/style.css'', ''/app.js'']"

definition route_for_path :: "string \<Rightarrow> string" where
  "route_for_path path = (if path \<in> set ui_paths then ''index'' else ''kvp'')"

definition is_ui_path :: "string \<Rightarrow> bool" where
  "is_ui_path path \<longleftrightarrow> path \<in> set ui_paths"

text \<open>The loop of \<open>joinMethods\<close>: a separator before every element but the first.\<close>

fun join_from :: "nat \<Rightarrow> string list \<Rightarrow> string \<Rightarrow> string" where
  "join_from i [] acc = acc"
| "join_from i (m # ms) acc = join_from (Suc i) ms ((if 0 < i then acc @ '', '' else acc) @ m)"

definition join_methods :: "string list \<Rightarrow> string" where
  "join_methods ms = join_from 0 ms []"

definition method_not_allowed :: "string list \<Rightarrow> 'db conn \<Rightarrow> 'db conn" where
  "method_not_allowed methods c =
    (let c = set_header ''Allow'' (join_methods methods) c
     in write_error 405 ''method not allowed'' c)"

definition internal_error :: "request \<Rightarrow> string \<Rightarrow> fault \<Rightarrow> 'db conn \<Rightarrow> 'db conn" where
  "internal_error r op err c =
    (let c = log_it (LogInternal op err (ctx_id r) (route_for_path (url_path r))) c
     in write_error 500 ''internal error'' c)"

section \<open>The key handlers\<close>

text \<open>The clock reading for the store call is made here for every lookup; the store makes it only
  when the key has an entry, and no answer depends on it otherwise.\<close>

definition serve_get :: "'db server \<Rightarrow> request \<Rightarrow> string \<Rightarrow> 'db conn \<Rightarrow> 'db conn" where
  "serve_get srv r k c =
    (let (start, c) = read_clock srv c;
         (now, c) = read_clock srv c;
         ((res, err), s) = get (engine srv) now k (kv c);
         c = c\<lparr>kv := s\<rparr>;
         (fin, c) = read_clock srv c;
         c = emit srv (MDBQuery ''get'' (time_sub fin start)) c
     in case err of
          Some e \<Rightarrow> internal_error r ''get'' (StoreFault e) c
        | None \<Rightarrow>
            if \<not> found res then write_error 404 ''key not found'' c
            else if expired res then write_error 404 ''key expired'' (emit srv MKeyExpired c)
            else let c = set_header ''Content-Type'' ''application/octet-stream'' c;
                     c = write_header 200 c
                 in snd (resp_write (result_value res) c))"

datatype body_error = BodyTooLarge | BodyBroken string

text \<open>
  \<open>io.ReadAll\<close> over \<open>http.MaxBytesReader\<close>: reading stops one byte past the limit.
\<close>

definition read_limited :: "int \<Rightarrow> request \<Rightarrow> 'db conn \<Rightarrow> (body_error, bytes) res \<times> 'db conn" where
  "read_limited limit r c =
    (case body r of (data, failure) \<Rightarrow>
       if limit < int (length data)
       then (Inl BodyTooLarge, c\<lparr>body_read := body_read c + limit + 1\<rparr>)
       else let c = c\<lparr>body_read := body_read c + int (length data)\<rparr>
            in case failure of Some e \<Rightarrow> (Inl (BodyBroken e), c) | None \<Rightarrow> (Inr data, c))"

text \<open>Header value over server default; \<open>None\<close> for an unknown value.\<close>

definition resolve_mode :: "'db server \<Rightarrow> request \<Rightarrow> put_mode option" where
  "resolve_mode srv r =
    (let v = header r ''X-Commit-Mode''
     in if v \<noteq> [] then (case parse_put_mode v of (m, ok) \<Rightarrow> if ok then Some m else None)
        else Some (default_mode srv))"

definition serve_post :: "'db server \<Rightarrow> request \<Rightarrow> string \<Rightarrow> 'db conn \<Rightarrow> 'db conn" where
  "serve_post srv r k c =
    (case read_limited (o_max_body (opts srv)) r c of
       (Inl BodyTooLarge, c) \<Rightarrow> write_error 413 ''payload too large'' c
     | (Inl (BodyBroken e), c) \<Rightarrow> write_error 400 ''invalid request body'' c
     | (Inr data, c) \<Rightarrow>
         (case resolve_mode srv r of
            None \<Rightarrow> write_error 400 ''invalid X-Commit-Mode'' c
          | Some mode \<Rightarrow>
              (let downgraded = (mode \<noteq> PutSync \<and> \<not> caching (kv c));
                   mode = (if downgraded then PutSync else mode);
                   (start, c) = read_clock srv c;
                   (now, c) = read_clock srv c;
                   (err, s) = put_with_mode (engine srv) (tz srv) now k data (o_ttl (opts srv)) mode (kv c);
                   c = c\<lparr>kv := s\<rparr>;
                   (fin, c) = read_clock srv c;
                   c = emit srv (MDBQuery ''put'' (time_sub fin start)) c
               in case err of
                    Some e \<Rightarrow> internal_error r ''put'' (StoreFault e) c
                  | None \<Rightarrow>
                      (let c = emit srv (MKeyStored (put_mode_string mode)) c;
                           c = (if o_after_write (opts srv) then c\<lparr>spawned := Suc (spawned c)\<rparr> else c);
                           c = set_header ''X-Commit-Mode'' (put_mode_string mode) c;
                           c = (if downgraded
                                then set_header ''X-Commit-Mode-Warning'' ''memory-cache-disabled'' c else c);
                           c = set_header ''Content-Type'' ''text/plain; charset=utf-8'' c
                       in if mode = PutAsync then snd (resp_write ''accepted'' (write_header 202 c))
                          else snd (resp_write ''stored'' (write_header 201 c))))))"

definition serve_key_direct :: "'db server \<Rightarrow> request \<Rightarrow> string \<Rightarrow> 'db conn \<Rightarrow> 'db conn" where
  "serve_key_direct srv r k c =
    (if k = [] then write_error 400 ''key required'' c
     else if o_max_key (opts srv) < int (length k) then write_error 400 ''key too long'' c
     else if req_method r = ''GET'' then serve_get srv r k c
     else if req_method r = ''POST'' then serve_post srv r k c
     else method_not_allowed [''GET'', ''POST''] c)"

section \<open>The page\<close>

text \<open>\<open>io.Copy\<close>: write each chunk read; stop at a failed write, then report the reader's error.\<close>

fun io_copy :: "bytes list \<Rightarrow> string option \<Rightarrow> 'db conn \<Rightarrow> string option \<times> 'db conn" where
  "io_copy [] failure c = (failure, c)"
| "io_copy (b # bs) failure c =
    (case resp_write b c of
       ((n, Some e), c) \<Rightarrow> (Some e, c)
     | ((n, None), c) \<Rightarrow> io_copy bs failure c)"

definition has_suffix :: "string \<Rightarrow> string \<Rightarrow> bool" where
  "has_suffix s suf \<longleftrightarrow> length suf \<le> length s \<and> drop (length s - length suf) s = suf"

text \<open>A nil \<open>UI\<close> panics on \<open>Open\<close>.\<close>

definition serve_ui :: "'db server \<Rightarrow> request \<Rightarrow> string \<Rightarrow> 'db conn \<Rightarrow> unit outcome \<times> 'db conn" where
  "serve_ui srv r name c =
    (let (file, ctype) =
           (if has_suffix name ''.js'' then (''app.js'', ''application/javascript; charset=utf-8'')
            else if has_suffix name ''.css'' then (''style.css'', ''text/css; charset=utf-8'')
            else (''index.html'', ''text/html; charset=utf-8''))
     in case o_ui (opts srv) of
          None \<Rightarrow> (Panics ''runtime error: invalid memory address or nil pointer dereference'', c)
        | Some fs \<Rightarrow>
            (case fs file of
               Inl e \<Rightarrow> (Returns (), internal_error r ''open ui'' (IoFault e) c)
             | Inr (content, failure) \<Rightarrow>
                 (let c = set_header ''Content-Type'' ctype c
                  in case io_copy content failure c of
                       (Some e, c) \<Rightarrow> (Returns (), internal_error r ''serve ui'' (IoFault e) c)
                     | (None, c) \<Rightarrow> (Returns (), c))))"

text \<open>\<open>r.URL.Path[1:]\<close> panics on the empty path.\<close>

definition route :: "'db server \<Rightarrow> 'db handler" where
  "route srv r c =
    (if url_path r \<in> set ui_paths then
       (if req_method r \<noteq> ''GET'' then (Returns (), method_not_allowed [''GET''] c)
        else serve_ui srv r (url_path r) c)
     else if url_path r = [] then (Panics ''runtime error: slice bounds out of range [1:0]'', c)
     else (Returns (), serve_key_direct srv r (tl (url_path r)) c))"

section \<open>Who is calling\<close>

fun any_contains :: "prefix list \<Rightarrow> ip_addr \<Rightarrow> bool" where
  "any_contains [] ip = False"
| "any_contains (p # ps) ip = (if prefix_contains p ip then True else any_contains ps ip)"

definition peer_trusted :: "'db server \<Rightarrow> string \<Rightarrow> bool" where
  "peer_trusted srv peer = (case parse_addr peer of
      None \<Rightarrow> False | Some ip \<Rightarrow> any_contains (o_trusted (opts srv)) ip)"

definition forwarded_ip :: "request \<Rightarrow> string option" where
  "forwarded_ip r =
    (let xff = header r ''X-Forwarded-For'';
         first = trim_space (hd (split_on (CHR '','') xff))
     in if xff \<noteq> [] \<and> first \<noteq> [] then Some first
        else let cf = header r ''CF-Connecting-IP''
             in if cf \<noteq> [] then Some (trim_space cf) else None)"

definition client_ip :: "'db server \<Rightarrow> request \<Rightarrow> string" where
  "client_ip srv r = (case split_host_port (remote_addr r) of
      None \<Rightarrow> remote_addr r
    | Some (peer, port) \<Rightarrow>
        if peer_trusted srv peer
        then (case forwarded_ip r of Some ip \<Rightarrow> ip | None \<Rightarrow> peer)
        else peer)"

text \<open>\<open>subtle.ConstantTimeCompare\<close>: 0 on unequal lengths, else the bytes' differences are or-ed together.\<close>

definition ct_diff :: "bytes \<Rightarrow> bytes \<Rightarrow> nat" where
  "ct_diff a b = foldl (\<lambda>v (x, y). or v (xor (of_char x) (of_char y))) 0 (zip a b)"

definition constant_time_equal :: "bytes \<Rightarrow> bytes \<Rightarrow> bool" where
  "constant_time_equal a b = (if length a \<noteq> length b then False else ct_diff a b = 0)"

section \<open>Middleware\<close>

definition security_headers :: "'db handler \<Rightarrow> 'db handler" where
  "security_headers next r c =
    (let c = set_header ''X-Content-Type-Options'' ''nosniff'' c;
         c = set_header ''X-Frame-Options'' ''DENY'' c;
         c = set_header ''Referrer-Policy'' ''no-referrer'' c;
         c = set_header ''Content-Security-Policy'' (''default-src '' @ [CHR 0x27] @ ''self'' @ [CHR 0x27]) c
     in next r c)"

definition auth :: "'db server \<Rightarrow> 'db handler \<Rightarrow> 'db handler" where
  "auth srv next r c =
    (if o_api_key (opts srv) \<noteq> [] \<and> \<not> is_ui_path (url_path r)
        \<and> \<not> constant_time_equal (header r ''X-API-Key'') (o_api_key (opts srv))
     then (Returns (), write_error 401 ''unauthorized'' c)
     else next r c)"

definition rate_limit :: "'db server \<Rightarrow> 'db handler \<Rightarrow> 'db handler" where
  "rate_limit srv next r c =
    (let c = (if o_trusted (opts srv) \<noteq> []
              then let (t, c) = read_clock srv c in c\<lparr>rate := prune (rate c) (tz srv) t\<rparr>
              else c);
         (now, c) = read_clock srv c;
         ((ok, retry_after), rl) = allow (rate c) (client_ip srv r) now;
         c = c\<lparr>rate := rl\<rparr>
     in if \<not> ok
        then (Returns (), write_error 429 ''rate limited'' (set_header ''Retry-After'' (int_text retry_after) c))
        else next r c)"

definition recorded :: "'db conn \<Rightarrow> int \<times> int" where
  "recorded c = (case recorder c of None \<Rightarrow> (0, 0) | Some p \<Rightarrow> p)"

text \<open>
  The deferred in-flight decrement runs on both exits, last; the duration, the
  counters and the line only when the handler returned. Afterwards the caller's
  unwrapped writer is in use again.
\<close>

definition access_log :: "'db server \<Rightarrow> 'db handler \<Rightarrow> 'db handler" where
  "access_log srv next r c =
    (let (start, c) = read_clock srv c;
         outer = recorder c;
         c = c\<lparr>recorder := Some (0, 0), body_read := 0\<rparr>;
         meth = req_method r; path = url_path r; rt = route_for_path path;
         c = emit srv (MRequestInFlight meth rt path 1) c
     in case next r c of
          (Panics p, c) \<Rightarrow>
            (Panics p, (emit srv (MRequestInFlight meth rt path (- 1)) c)\<lparr>recorder := outer\<rparr>)
        | (Returns _, c) \<Rightarrow>
            (let (status, nbytes) = recorded c;
                 status = (if status = 0 then 200 else status);
                 (fin, c) = read_clock srv c;
                 latency = time_sub fin start;
                 c = emit srv (MRequestDuration meth rt path latency) c;
                 c = emit srv (MRequest meth rt path (int_text status)) c;
                 c = (if 400 \<le> status then emit srv (MError rt path (int_text status)) c else c);
                 c = log_it (LogRequest \<lparr>al_method = meth, al_path = path, al_route = rt, al_status = status,
                       al_latency_ms = f64 (f64 (of_int (latency sdiv 1000)) / 1000),
                       al_sent = nbytes, al_received = body_read c, al_total = nbytes + body_read c,
                       al_ip = client_ip srv r, al_request_id = ctx_id r, al_trace = trace_ids r\<rparr>) c;
                 c = emit srv (MRequestInFlight meth rt path (- 1)) c
             in (Returns (), c\<lparr>recorder := outer\<rparr>)))"

definition request_id :: "'db server \<Rightarrow> 'db handler \<Rightarrow> 'db handler" where
  "request_id srv next r c =
    (let rid = header r ''X-Request-ID'';
         (rid, c) = (if rid = [] then (fresh_id srv (ids c), c\<lparr>ids := Suc (ids c)\<rparr>) else (rid, c));
         c = set_header ''X-Request-ID'' rid c
     in next (r\<lparr>ctx_id := rid\<rparr>) c)"

definition recover_middleware :: "'db handler \<Rightarrow> 'db handler" where
  "recover_middleware next r c =
    (case next r c of
       (Panics p, c) \<Rightarrow>
         (Returns (), write_error 500 ''internal error'' (log_it (LogPanic p (ctx_id r)) c))
     | (Returns u, c) \<Rightarrow> (Returns u, c))"

text \<open>\<open>Server.handler\<close>.\<close>

definition handler :: "'db server \<Rightarrow> 'db handler" where
  "handler srv =
    (let h = route srv;
         h = security_headers h;
         h = auth srv h;
         h = rate_limit srv h;
         h = access_log srv h;
         h = request_id srv h;
         h = recover_middleware h
     in case o_wrap (opts srv) of Some f \<Rightarrow> f h | None \<Rightarrow> h)"

text \<open>
  One exchange: a fresh response, the handler, and the 200 \<open>net/http\<close> sends when the
  handler wrote nothing.
\<close>

definition open_conn :: "bool list \<Rightarrow> 'db world \<Rightarrow> 'db conn" where
  "open_conn fs w = world.extend w (conn.fields [] None [] fs None 0)"

definition serve :: "'db server \<Rightarrow> bool list \<Rightarrow> request \<Rightarrow> 'db world \<Rightarrow> 'db conn" where
  "serve srv fs r w = raw_write_header 200 (snd (handler srv r (open_conn fs w)))"

definition status_of :: "'db conn \<Rightarrow> int" where
  "status_of c = (case sent c of Some (s, h) \<Rightarrow> s | None \<Rightarrow> 0)"

definition header_of :: "'db conn \<Rightarrow> string \<Rightarrow> string option" where
  "header_of c k = (case sent c of Some (s, h) \<Rightarrow> map_of h k | None \<Rightarrow> None)"

end
