(* ===== verification/Server_Laws.thy ===== *)
theory Server_Laws
  imports Server_Handlers Store_Runs
begin

text \<open>
  What an exchange does. \<open>mirrors\<close> is the invariant between the response recorder
  and the writer it wraps. \<open>refusal\<close>, \<open>store_call\<close> and \<open>reply_answer\<close> are the
  reference: which requests are turned away and how, which single store call
  the others make, and how its reply is answered; \<open>exchange_spec\<close> shows the
  middleware chain and the handlers implement it.
\<close>

section \<open>The recorder mirrors the writer\<close>

definition mirrors :: "'db conn \<Rightarrow> bool" where
  "mirrors c \<longleftrightarrow> (case recorder c of None \<Rightarrow> False | Some (s, n) \<Rightarrow>
     n = int (length (out c)) \<and> (case sent c of None \<Rightarrow> s = 0 \<and> out c = [] | Some (s', h) \<Rightarrow> s' = s \<and> s \<noteq> 0))"

lemma mirrors_cong:
  "recorder c = recorder d \<Longrightarrow> out c = out d \<Longrightarrow> sent c = sent d \<Longrightarrow> mirrors c = mirrors d"
  by (simp add: mirrors_def split: option.split)

lemma mirrors_frames [simp]:
  "mirrors (set_header k v c) = mirrors c" "mirrors (emit srv m c) = mirrors c" "mirrors (log_it l c) = mirrors c"
  "mirrors (c\<lparr>kv := s\<rparr>) = mirrors c" "mirrors (c\<lparr>rate := rl\<rparr>) = mirrors c" "mirrors (c\<lparr>ticks := n\<rparr>) = mirrors c"
  "mirrors (c\<lparr>spawned := n\<rparr>) = mirrors c" "mirrors (c\<lparr>body_read := b\<rparr>) = mirrors c"
  by (rule mirrors_cong; simp)+

lemma mirrors_write_header: "mirrors c \<Longrightarrow> s \<noteq> 0 \<Longrightarrow> mirrors (write_header s c)"
  by (auto simp: mirrors_def write_header_def raw_write_header_def split: option.splits prod.splits)

lemma raw_write_out:
  "raw_write b c = ((n, e), c') \<Longrightarrow> (\<exists>b'. out c' = out c @ b' \<and> n = int (length b')) \<and> recorder c' = recorder c
     \<and> sent c' = (if sent c = None then Some (200, hdr c) else sent c)"
  by (auto simp: raw_write_def raw_write_header_def Let_def split: list.splits bool.splits if_splits)

lemma mirrors_write: "mirrors c \<Longrightarrow> mirrors (snd (resp_write b c))"
proof -
  assume m: "mirrors c"
  then obtain s n where r: "recorder c = Some (s, n)" by (auto simp: mirrors_def split: option.splits)
  define d where "d = (if s = 0 then write_header 200 c else c)"
  have d: "mirrors d" using m mirrors_write_header [of c 200] by (simp add: d_def)
  then obtain s' n' where rd: "recorder d = Some (s', n')" by (auto simp: mirrors_def split: option.splits)
  have sd: "sent d \<noteq> None"
    using m r by (auto simp: d_def mirrors_def write_header_def raw_write_header_def split: option.splits if_splits)
  obtain k e d' where w: "raw_write b d = ((k, e), d')" by (metis surj_pair)
  from raw_write_out [OF w] d rd sd have "mirrors (d'\<lparr>recorder := Some (s', n' + k)\<rparr>)" "recorder d' = Some (s', n')"
    by (auto simp: mirrors_def split: option.splits)
  then show ?thesis using r w by (simp add: resp_write_def d_def Let_def)
qed

lemma mirrors_write_error: "mirrors c \<Longrightarrow> s \<noteq> 0 \<Longrightarrow> mirrors (write_error s m c)"
  by (simp add: write_error_def Let_def mirrors_write mirrors_write_header)

lemma mirrors_io_copy: "mirrors c \<Longrightarrow> mirrors (snd (io_copy bs e c))"
proof (induction bs arbitrary: c)
  case (Cons b bs)
  then show ?case using mirrors_write [OF Cons.prems, of b]
    by (auto split: prod.split option.split)
qed simp

lemmas mirrors_intros = mirrors_write mirrors_write_header mirrors_write_error mirrors_io_copy

section \<open>Answers\<close>

text \<open>What a first answer leaves on the writer.\<close>

definition fresh_writer :: "'db conn \<Rightarrow> bool" where
  "fresh_writer c \<longleftrightarrow> sent c = None \<and> recorder c = Some (0, 0) \<and> out c = []"

definition answers :: "int \<Rightarrow> bytes \<Rightarrow> 'db conn \<Rightarrow> 'db conn \<Rightarrow> bool" where
  "answers s b c c' \<longleftrightarrow> (\<exists>h. sent c' = Some (s, h)) \<and> (write_faults c = [] \<longrightarrow> out c' = b)"

lemma fresh_writer_frames [simp]:
  "fresh_writer (set_header k v c) = fresh_writer c" "fresh_writer (emit srv m c) = fresh_writer c"
  "fresh_writer (log_it l c) = fresh_writer c" "fresh_writer (c\<lparr>kv := st\<rparr>) = fresh_writer c"
  "fresh_writer (c\<lparr>rate := rl\<rparr>) = fresh_writer c" "fresh_writer (c\<lparr>ticks := n\<rparr>) = fresh_writer c"
  "fresh_writer (c\<lparr>spawned := n\<rparr>) = fresh_writer c" "fresh_writer (c\<lparr>body_read := i\<rparr>) = fresh_writer c"
  by (simp_all add: fresh_writer_def)

lemma fresh_mirrors: "fresh_writer c \<Longrightarrow> mirrors c"
  by (simp add: fresh_writer_def mirrors_def)

lemma answer_write:
  assumes "fresh_writer c" "s \<noteq> 0"
  shows "sent (snd (resp_write b (write_header s c))) = Some (s, hdr c)"
    "write_faults c = [] \<Longrightarrow> out (snd (resp_write b (write_header s c))) = b"
  using assms by (auto simp: fresh_writer_def resp_write_def write_header_def raw_write_def raw_write_header_def Let_def
      split: list.splits bool.splits)

lemma answer_error:
  assumes "fresh_writer c" "s \<noteq> 0"
  shows "sent (write_error s m c) = Some (s, AList.update ''Content-Type'' ''application/json'' (hdr c))"
    "write_faults c = [] \<Longrightarrow> out (write_error s m c) = json_error m"
  using assms answer_write [of "set_header ''Content-Type'' ''application/json'' c" s "json_error m"]
  by (simp_all add: write_error_def Let_def)

section \<open>The reference\<close>

text \<open>Requests for a key that are turned away before the store is asked, with the answer.\<close>

definition refusal :: "'db server \<Rightarrow> request \<Rightarrow> (int \<times> string) option" where
  "refusal srv r =
    (let o1 = opts srv; k = tl (url_path r) in
     if o_api_key o1 \<noteq> [] \<and> header r ''X-API-Key'' \<noteq> o_api_key o1 then Some (401, ''unauthorized'')
     else if url_path r = [] then Some (500, ''internal error'')
     else if k = [] then Some (400, ''key required'')
     else if o_max_key o1 < int (length k) then Some (400, ''key too long'')
     else if req_method r = ''GET'' then None
     else if req_method r = ''POST'' then
       (if o_max_body o1 < int (length (fst (body r))) then Some (413, ''payload too large'')
        else if snd (body r) \<noteq> None then Some (400, ''invalid request body'')
        else if resolve_mode srv r = None then Some (400, ''invalid X-Commit-Mode'') else None)
     else Some (405, ''method not allowed''))"

text \<open>The store call of a request that is not refused, at an instant.\<close>

definition store_call :: "'db server \<Rightarrow> request \<Rightarrow> gotime \<Rightarrow> op" where
  "store_call srv r now =
    (if req_method r = ''GET'' then OpGet now (tl (url_path r))
     else OpPut (tz srv) now (tl (url_path r)) (fst (body r)) (o_ttl (opts srv)) (the (resolve_mode srv r)))"

fun reply_answer :: "bool \<Rightarrow> op \<Rightarrow> reply \<Rightarrow> int \<times> bytes" where
  "reply_answer memory c (RGet g (Some e)) = (500, json_error ''internal error'')"
| "reply_answer memory c (RGet g None) =
     (if \<not> found g then (404, json_error ''key not found'')
      else if expired g then (404, json_error ''key expired'') else (200, result_value g))"
| "reply_answer memory c (RPut (Some e)) = (500, json_error ''internal error'')"
| "reply_answer memory (OpPut z now k v t mode) (RPut None) =
     (if mode = PutAsync \<and> memory then (202, ''accepted'') else (201, ''stored''))"
| "reply_answer memory c r = (0, [])"

lemma put_downgraded: "put_with_mode E z now k v t (if mode \<noteq> PutSync \<and> \<not> caching s then PutSync else mode) s
    = put_with_mode E z now k v t mode s"
  by (simp add: put_with_mode_def)

lemma serve_get_spec:
  fixes srv :: "'db server"
  assumes "fresh_writer c" "req_method r = ''GET''"
  defines "call \<equiv> store_call srv r (clk srv (Suc (ticks c)))"
  shows "kv (serve_get srv r (tl (url_path r)) c) = snd (step (engine srv) call (kv c))"
    "\<exists>s b. reply_answer m call (fst (step (engine srv) call (kv c))) = (s, b)
       \<and> answers s b c (serve_get srv r (tl (url_path r)) c)"
proof -
  obtain g e s' where g: "get (engine srv) (clk srv (Suc (ticks c))) (tl (url_path r)) (kv c) = ((g, e), s')"
    by (metis surj_pair)
  have call: "call = OpGet (clk srv (Suc (ticks c))) (tl (url_path r))"
    using assms(2) by (simp add: call_def store_call_def)
  show "kv (serve_get srv r (tl (url_path r)) c) = snd (step (engine srv) call (kv c))"
    unfolding call by (simp add: serve_get_def internal_error_def read_clock_def Let_def g split: option.split)
  show "\<exists>s b. reply_answer m call (fst (step (engine srv) call (kv c))) = (s, b)
       \<and> answers s b c (serve_get srv r (tl (url_path r)) c)"
    unfolding call answers_def
    by (cases e) (simp_all add: serve_get_def internal_error_def read_clock_def Let_def g answer_error answer_write assms(1))
qed

lemma serve_post_refused:
  assumes "fresh_writer c" "refusal srv r = Some (s, m)" "req_method r = ''POST''" "url_path r \<noteq> []"
    "tl (url_path r) \<noteq> []" "int (length (tl (url_path r))) \<le> o_max_key (opts srv)"
    "o_api_key (opts srv) = [] \<or> header r ''X-API-Key'' = o_api_key (opts srv)"
  shows "kv (serve_post srv r (tl (url_path r)) c) = kv c"
    "answers s (json_error m) c (serve_post srv r (tl (url_path r)) c)"
proof -
  obtain data f where b: "body r = (data, f)" by (metis surj_pair)
  consider (big) "o_max_body (opts srv) < int (length data)" "s = 413" "m = ''payload too large''"
    | (broken) e where "\<not> o_max_body (opts srv) < int (length data)" "f = Some e" "s = 400" "m = ''invalid request body''"
    | (mode) "\<not> o_max_body (opts srv) < int (length data)" "f = None" "resolve_mode srv r = None" "s = 400"
        "m = ''invalid X-Commit-Mode''"
    using assms(2-) b by (cases f) (simp_all add: refusal_def Let_def split: if_splits)
  then show "kv (serve_post srv r (tl (url_path r)) c) = kv c"
    "answers s (json_error m) c (serve_post srv r (tl (url_path r)) c)"
    using assms(1) b unfolding answers_def
    by (cases; simp add: serve_post_def read_limited_def Let_def answer_error)+
qed

lemma serve_post_spec:
  fixes srv :: "'db server"
  assumes "fresh_writer c" "refusal srv r = None" "req_method r = ''POST''"
  defines "call \<equiv> store_call srv r (clk srv (Suc (ticks c)))"
  shows "kv (serve_post srv r (tl (url_path r)) c) = snd (step (engine srv) call (kv c))"
    "\<exists>s b. reply_answer (caching (kv c)) call (fst (step (engine srv) call (kv c))) = (s, b)
       \<and> answers s b c (serve_post srv r (tl (url_path r)) c)"
proof -
  from assms(2,3) obtain data mode where b: "body r = (data, None)" "int (length data) \<le> o_max_body (opts srv)"
    "resolve_mode srv r = Some mode"
    by (cases "body r") (auto simp: refusal_def Let_def split: if_splits)
  have call: "call = OpPut (tz srv) (clk srv (Suc (ticks c))) (tl (url_path r)) data (o_ttl (opts srv)) mode"
    using assms(3) b by (simp add: call_def store_call_def)
  obtain err s' where p: "put_with_mode (engine srv) (tz srv) (clk srv (Suc (ticks c))) (tl (url_path r)) data
      (o_ttl (opts srv)) mode (kv c) = (err, s')" by (metis surj_pair)
  then have p': "put_with_mode (engine srv) (tz srv) (clk srv (Suc (ticks c))) (tl (url_path r)) data
      (o_ttl (opts srv)) (if mode \<noteq> PutSync \<and> \<not> caching (kv c) then PutSync else mode) (kv c) = (err, s')"
    by (simp only: put_downgraded)
  show "kv (serve_post srv r (tl (url_path r)) c) = snd (step (engine srv) call (kv c))"
    using assms(1) b p p' unfolding call
    by (cases err) (simp_all add: serve_post_def read_limited_def internal_error_def read_clock_def Let_def)
  show "\<exists>s b. reply_answer (caching (kv c)) call (fst (step (engine srv) call (kv c))) = (s, b)
       \<and> answers s b c (serve_post srv r (tl (url_path r)) c)"
    using assms(1) b p p' unfolding call answers_def
    by (cases err) (auto simp: serve_post_def read_limited_def internal_error_def read_clock_def Let_def
        answer_error answer_write)
qed

lemma or_xor_zero: "or v (w :: nat) = 0 \<longleftrightarrow> v = 0 \<and> w = 0" "xor v w = 0 \<longleftrightarrow> v = w"
  by (auto simp: bit_eq_iff bit_or_iff bit_xor_iff)

lemma ct_fold: "foldl (\<lambda>v (x, y). or v (xor (of_char x) (of_char y))) v ps = 0
    \<longleftrightarrow> v = (0::nat) \<and> (\<forall>(x, y) \<in> set ps. x = y)"
  by (induction ps arbitrary: v) (auto simp: or_xor_zero)

lemma constant_time_equal_iff: "constant_time_equal a b \<longleftrightarrow> a = b"
proof (cases "length a = length b")
  case True
  then have "(\<forall>(x, y) \<in> set (zip a b). x = y) \<longleftrightarrow> a = b"
    by (induction a b rule: list_induct2) auto
  with True show ?thesis by (simp add: constant_time_equal_def ct_diff_def ct_fold)
qed (auto simp: constant_time_equal_def)

section \<open>The key routes\<close>

lemma resolve_mode_ctx [simp]: "resolve_mode srv (r\<lparr>ctx_id := x\<rparr>) = resolve_mode srv r"
  "resolve_mode srv (r\<lparr>trace_ids := y\<rparr>) = resolve_mode srv r"
  by (simp_all add: resolve_mode_def Let_def)

lemma refusal_ctx [simp]: "refusal srv (r\<lparr>ctx_id := x\<rparr>) = refusal srv r"
  "refusal srv (r\<lparr>trace_ids := y\<rparr>) = refusal srv r"
  by (simp_all add: refusal_def Let_def)

lemma store_call_ctx [simp]: "store_call srv (r\<lparr>ctx_id := x\<rparr>) now = store_call srv r now"
  "store_call srv (r\<lparr>trace_ids := y\<rparr>) now = store_call srv r now"
  by (simp_all add: store_call_def)

lemma client_ip_ctx [simp]: "client_ip srv (r\<lparr>ctx_id := x\<rparr>) = client_ip srv r"
  "client_ip srv (r\<lparr>trace_ids := y\<rparr>) = client_ip srv r"
  by (simp_all add: client_ip_def forwarded_ip_def Let_def split: option.split)

lemma answers_frames [simp]:
  "answers s b (set_header k v c) = answers s b c" "answers s b (c\<lparr>ticks := n\<rparr>) = answers s b c"
  "answers s b (c\<lparr>rate := rl\<rparr>) = answers s b c"
  by (simp_all add: answers_def fun_eq_iff)

text \<open>The request as the limiter admits it: refused with an error, or one store call.\<close>

lemma auth_route_spec:
  fixes srv :: "'db server"
  assumes "fresh_writer c" "url_path r \<notin> set ui_paths"
  defines "h \<equiv> auth srv (security_headers (route srv))"
    and "call \<equiv> store_call srv r (clk srv (Suc (ticks c)))"
  shows "refusal srv r = Some (s, m) \<Longrightarrow> kv (snd (h r c)) = kv c
      \<and> (if s = 500 then \<exists>p. fst (h r c) = Panics p \<and> sent (snd (h r c)) = None \<and> m = ''internal error''
           \<and> out (snd (h r c)) = [] \<and> write_faults (snd (h r c)) = write_faults c
         else fst (h r c) = Returns () \<and> answers s (json_error m) c (snd (h r c)))"
    "refusal srv r = None \<Longrightarrow> fst (h r c) = Returns () \<and> kv (snd (h r c)) = snd (step (engine srv) call (kv c))
      \<and> (\<exists>s b. reply_answer (caching (kv c)) call (fst (step (engine srv) call (kv c))) = (s, b) \<and> answers s b c (snd (h r c)))"
proof -
  define d where "d = set_header ''Content-Security-Policy'' (''default-src '' @ [CHR 0x27] @ ''self'' @ [CHR 0x27])
    (set_header ''Referrer-Policy'' ''no-referrer'' (set_header ''X-Frame-Options'' ''DENY''
      (set_header ''X-Content-Type-Options'' ''nosniff'' c)))"
  have d: "fresh_writer d" "kv d = kv c" "ticks d = ticks c" "answers t b d = answers t b c"
    "write_faults d = write_faults c" "sent d = None" "out d = []" for t b
    using assms(1) by (simp_all add: d_def) (simp_all add: fresh_writer_def)
  let ?keyed = "o_api_key (opts srv) = [] \<or> header r ''X-API-Key'' = o_api_key (opts srv)"
  have ui: "\<not> is_ui_path (url_path r)" using assms(2) by (simp add: is_ui_path_def)
  have h: "h r c = (if \<not> ?keyed then (Returns (), write_error 401 ''unauthorized'' c)
      else if url_path r = [] then (Panics ''runtime error: slice bounds out of range [1:0]'', d)
      else (Returns (), serve_key_direct srv r (tl (url_path r)) d))"
    using assms(2) ui
    by (simp add: h_def auth_def security_headers_def route_def d_def Let_def constant_time_equal_iff)
  let ?k = "tl (url_path r)"
  {
    assume ref: "refusal srv r = Some (s, m)"
    consider (key) "\<not> ?keyed" "s = 401" "m = ''unauthorized''"
      | (panic) "?keyed" "url_path r = []" "s = 500" "m = ''internal error''"
      | (none) "?keyed" "url_path r \<noteq> []" "?k = []" "s = 400" "m = ''key required''"
      | (long) "?keyed" "url_path r \<noteq> []" "?k \<noteq> []" "o_max_key (opts srv) < int (length ?k)" "s = 400" "m = ''key too long''"
      | (post) "?keyed" "url_path r \<noteq> []" "?k \<noteq> []" "int (length ?k) \<le> o_max_key (opts srv)" "req_method r = ''POST''"
          "s \<in> {413, 400}"
      | (meth) "?keyed" "url_path r \<noteq> []" "?k \<noteq> []" "int (length ?k) \<le> o_max_key (opts srv)"
          "req_method r \<noteq> ''GET''" "req_method r \<noteq> ''POST''" "s = 405" "m = ''method not allowed''"
      using ref by (auto simp: refusal_def Let_def not_less split: if_splits)
    then show "kv (snd (h r c)) = kv c
      \<and> (if s = 500 then \<exists>p. fst (h r c) = Panics p \<and> sent (snd (h r c)) = None \<and> m = ''internal error''
           \<and> out (snd (h r c)) = [] \<and> write_faults (snd (h r c)) = write_faults c
         else fst (h r c) = Returns () \<and> answers s (json_error m) c (snd (h r c)))"
    proof cases
      case key
      then show ?thesis using assms(1) by (simp add: h answers_def answer_error)
    next
      case panic
      then show ?thesis by (simp add: h d)
    next
      case none
      then show ?thesis using d(1) by (simp add: h serve_key_direct_def d) (simp add: answers_def answer_error d)
    next
      case long
      then show ?thesis using d(1) by (simp add: h serve_key_direct_def d) (simp add: answers_def answer_error d)
    next
      case post
      note p = serve_post_refused [OF d(1) ref post(5,2,3,4,1)]
      have "h r c = (Returns (), serve_post srv r ?k d)" using post by (simp add: h serve_key_direct_def not_less)
      with p post(6) show ?thesis by (auto simp: d)
    next
      case meth
      then show ?thesis using d(1)
        by (simp add: h serve_key_direct_def method_not_allowed_def Let_def d not_less) (simp add: answers_def answer_error d)
    qed
  next
    assume ref: "refusal srv r = None"
    then have k: "?keyed" "url_path r \<noteq> []" "?k \<noteq> []" "\<not> o_max_key (opts srv) < int (length ?k)"
      "req_method r = ''GET'' \<or> req_method r = ''POST''"
      by (auto simp: refusal_def Let_def split: if_splits)
    from k(5) show "fst (h r c) = Returns () \<and> kv (snd (h r c)) = snd (step (engine srv) call (kv c))
      \<and> (\<exists>s b. reply_answer (caching (kv c)) call (fst (step (engine srv) call (kv c))) = (s, b) \<and> answers s b c (snd (h r c)))"
    proof
      assume g: "req_method r = ''GET''"
      then have "h r c = (Returns (), serve_get srv r ?k d)" using k by (simp add: h serve_key_direct_def)
      with serve_get_spec(1) [OF d(1) g, where srv = srv] serve_get_spec(2) [OF d(1) g, where m = "caching (kv c)" and srv = srv]
      show ?thesis
        by (simp add: d call_def)
    next
      assume g: "req_method r = ''POST''"
      then have "h r c = (Returns (), serve_post srv r ?k d)" using k by (simp add: h serve_key_direct_def)
      with serve_post_spec [OF d(1) ref g] show ?thesis by (simp add: d call_def)
    qed
  }
qed

section \<open>The chain\<close>

text \<open>
  \<open>Wrap\<close> is third-party: all that is assumed of it is that it adds trace ids to the
  request, whatever the state, and calls the chain.
\<close>

definition traces :: "('db handler \<Rightarrow> 'db handler) \<Rightarrow> bool" where
  "traces f \<longleftrightarrow> (\<forall>r. \<exists>tr. \<forall>h c. f h r c = h (r\<lparr>trace_ids := tr\<rparr>) c)"

definition plain_wrap :: "'db server \<Rightarrow> bool" where
  "plain_wrap srv \<longleftrightarrow> (case o_wrap (opts srv) of None \<Rightarrow> True | Some f \<Rightarrow> traces f)"

definition limited :: "'db server \<Rightarrow> 'db handler" where
  "limited srv = rate_limit srv (auth srv (security_headers (route srv)))"

definition core :: "'db server \<Rightarrow> 'db handler" where
  "core srv = recover_middleware (request_id srv (access_log srv (limited srv)))"

lemma handler_core:
  assumes "plain_wrap srv"
  shows "\<exists>tr. \<forall>c. handler srv r c = core srv (r\<lparr>trace_ids := tr\<rparr>) c"
proof (cases "o_wrap (opts srv)")
  case None
  then have "\<forall>c. handler srv r c = core srv (r\<lparr>trace_ids := trace_ids r\<rparr>) c"
    by (simp add: handler_def core_def limited_def)
  then show ?thesis ..
next
  case (Some f)
  with assms have "traces f" by (simp add: plain_wrap_def)
  then obtain tr where "\<forall>c. f (core srv) r c = core srv (r\<lparr>trace_ids := tr\<rparr>) c" unfolding traces_def by metis
  then have "\<forall>c. handler srv r c = core srv (r\<lparr>trace_ids := tr\<rparr>) c"
    using Some by (simp add: handler_def core_def limited_def)
  then show ?thesis ..
qed

text \<open>The request and the connection as they reach the rate limiter.\<close>

definition tagged :: "'db server \<Rightarrow> request \<Rightarrow> 'db world \<Rightarrow> request" where
  "tagged srv r w = r\<lparr>ctx_id := (if header r ''X-Request-ID'' = [] then fresh_id srv (ids w) else header r ''X-Request-ID'')\<rparr>"

definition entered :: "'db server \<Rightarrow> bool list \<Rightarrow> request \<Rightarrow> 'db world \<Rightarrow> 'db conn" where
  "entered srv fs r w =
    emit srv (MRequestInFlight (req_method r) (route_for_path (url_path r)) (url_path r) 1)
      ((set_header ''X-Request-ID'' (ctx_id (tagged srv r w))
          ((open_conn fs w)\<lparr>ids := (if header r ''X-Request-ID'' = [] then Suc (ids w) else ids w)\<rparr>))
        \<lparr>ticks := Suc (ticks w), recorder := Some (0, 0), body_read := 0\<rparr>)"

text \<open>What \<open>access_log\<close> does once the rest of the chain has returned.\<close>

definition epilogue :: "'db server \<Rightarrow> request \<Rightarrow> gotime \<Rightarrow> 'db conn \<Rightarrow> 'db conn" where
  "epilogue srv r start c =
    (let (status, nbytes) = recorded c;
         status = (if status = 0 then 200 else status);
         meth = req_method r; path = url_path r; rt = route_for_path path;
         latency = time_sub (clk srv (ticks c)) start;
         c = c\<lparr>ticks := Suc (ticks c)\<rparr>;
         c = emit srv (MRequestDuration meth rt path latency) c;
         c = emit srv (MRequest meth rt path (int_text status)) c;
         c = (if 400 \<le> status then emit srv (MError rt path (int_text status)) c else c);
         c = log_it (LogRequest \<lparr>al_method = meth, al_path = path, al_route = rt, al_status = status,
               al_latency_ms = f64 (f64 (of_int (latency sdiv 1000)) / 1000),
               al_sent = nbytes, al_received = body_read c, al_total = nbytes + body_read c,
               al_ip = client_ip srv r, al_request_id = ctx_id r, al_trace = trace_ids r\<rparr>) c
     in (emit srv (MRequestInFlight meth rt path (- 1)) c)\<lparr>recorder := None\<rparr>)"

lemma open_conn_simps [simp]:
  "kv (open_conn fs w) = kv w" "rate (open_conn fs w) = rate w" "ticks (open_conn fs w) = ticks w"
  "ids (open_conn fs w) = ids w" "logs (open_conn fs w) = logs w" "events (open_conn fs w) = events w"
  "spawned (open_conn fs w) = spawned w" "hdr (open_conn fs w) = []" "sent (open_conn fs w) = None"
  "out (open_conn fs w) = []" "write_faults (open_conn fs w) = fs" "recorder (open_conn fs w) = None"
  "body_read (open_conn fs w) = 0"
  by (simp_all add: open_conn_def world.defs conn.defs)

lemma entered_simps [simp]:
  "fresh_writer (entered srv fs r w)" "kv (entered srv fs r w) = kv w" "rate (entered srv fs r w) = rate w"
  "ticks (entered srv fs r w) = Suc (ticks w)" "write_faults (entered srv fs r w) = fs"
  "logs (entered srv fs r w) = logs w" "spawned (entered srv fs r w) = spawned w" "body_read (entered srv fs r w) = 0"
  "hdr (entered srv fs r w) = [(''X-Request-ID'', ctx_id (tagged srv r w))]"
  by (simp_all add: entered_def fresh_writer_def)

lemma open_conn_ids [simp]: "(open_conn fs w)\<lparr>ids := ids w\<rparr> = open_conn fs w"
  by (simp add: open_conn_def world.defs)

lemma core_open:
  "core srv r (open_conn fs w) = (case limited srv (tagged srv r w) (entered srv fs r w) of
      (Panics p, c) \<Rightarrow> (Returns (), write_error 500 ''internal error'' (log_it (LogPanic p (ctx_id r))
        ((emit srv (MRequestInFlight (req_method r) (route_for_path (url_path r)) (url_path r) (- 1)) c)\<lparr>recorder := None\<rparr>)))
    | (Returns u, c) \<Rightarrow> (Returns (), epilogue srv (tagged srv r w) (clk srv (ticks w)) c))"
proof -
  let ?id = "if header r ''X-Request-ID'' = [] then fresh_id srv (ids w) else header r ''X-Request-ID''"
  let ?c = "set_header ''X-Request-ID'' ?id ((open_conn fs w)\<lparr>ids := (if header r ''X-Request-ID'' = [] then Suc (ids w) else ids w)\<rparr>)"
  have t: "tagged srv r w = r\<lparr>ctx_id := ?id\<rparr>" by (simp add: tagged_def)
  have rid: "request_id srv h r (open_conn fs w) = h (tagged srv r w) ?c" for h
    by (simp add: request_id_def t Let_def)
  have ent: "entered srv fs r w = emit srv (MRequestInFlight (req_method r) (route_for_path (url_path r)) (url_path r) 1)
      (?c\<lparr>ticks := Suc (ticks w), recorder := Some (0, 0), body_read := 0\<rparr>)"
    by (simp only: entered_def t) simp
  have acc: "access_log srv h (tagged srv r w) ?c = (case h (tagged srv r w) (entered srv fs r w) of
      (Panics p, c) \<Rightarrow> (Panics p, (emit srv (MRequestInFlight (req_method r) (route_for_path (url_path r)) (url_path r) (- 1)) c)\<lparr>recorder := None\<rparr>)
    | (Returns u, c) \<Rightarrow> (Returns (), epilogue srv (tagged srv r w) (clk srv (ticks w)) c))" for h
    unfolding ent access_log_def epilogue_def
    by (simp add: read_clock_def Let_def tagged_def split: prod.split outcome.split)
  show ?thesis
    unfolding core_def recover_middleware_def rid acc by (simp split: prod.split outcome.split)
qed

text \<open>The limiter's decision: the answer, the limiter afterwards, the next clock reading.\<close>

definition rate_decision :: "'db server \<Rightarrow> request \<Rightarrow> 'db world \<Rightarrow> ((bool \<times> int) \<times> limiter) \<times> nat" where
  "rate_decision srv r w =
    (if o_trusted (opts srv) \<noteq> []
     then (allow (prune (rate w) (tz srv) (clk srv (Suc (ticks w)))) (client_ip srv r) (clk srv (ticks w + 2)), ticks w + 3)
     else (allow (rate w) (client_ip srv r) (clk srv (Suc (ticks w))), ticks w + 2))"

lemma rate_decision_ctx [simp]: "rate_decision srv (r\<lparr>trace_ids := x\<rparr>) w = rate_decision srv r w"
  by (simp add: rate_decision_def)

lemma tagged_simps [simp]:
  "client_ip srv (tagged srv r w) = client_ip srv r" "refusal srv (tagged srv r w) = refusal srv r"
  "store_call srv (tagged srv r w) now = store_call srv r now" "url_path (tagged srv r w) = url_path r"
  "req_method (tagged srv r w) = req_method r" "header (tagged srv r w) = header r" "body (tagged srv r w) = body r"
  "trace_ids (tagged srv r w) = trace_ids r"
  by (simp_all add: tagged_def)

lemma limited_entered:
  fixes fs :: "bool list"
  assumes "rate_decision srv r w = (((ok, retry), rl), n)"
  defines "c \<equiv> (entered srv fs r w)\<lparr>ticks := n, rate := rl\<rparr>"
  shows "limited srv (tagged srv r w) (entered srv fs r w) =
    (if ok then auth srv (security_headers (route srv)) (tagged srv r w) c
     else (Returns (), write_error 429 ''rate limited'' (set_header ''Retry-After'' (int_text retry) c)))"
  using assms(1) unfolding c_def
  by (auto simp: limited_def rate_limit_def rate_decision_def read_clock_def Let_def numeral_2_eq_2 numeral_3_eq_3
      split: if_splits)

lemma epilogue_simps [simp]:
  "kv (epilogue srv r t c) = kv c" "rate (epilogue srv r t c) = rate c" "sent (epilogue srv r t c) = sent c"
  "out (epilogue srv r t c) = out c" "spawned (epilogue srv r t c) = spawned c" "hdr (epilogue srv r t c) = hdr c"
  "body_read (epilogue srv r t c) = body_read c"
  by (simp_all add: epilogue_def Let_def split: prod.split)

text \<open>
  The reference for a whole exchange on a key path: the limiter decides, a refused
  request gets its error, any other makes its one store call and gets its reply.
\<close>

definition exchange :: "'db server \<Rightarrow> request \<Rightarrow> 'db world \<Rightarrow> (int \<times> bytes) \<times> 'db store \<times> limiter" where
  "exchange srv r w =
    (case rate_decision srv r w of (((ok, retry), rl), n) \<Rightarrow>
       if \<not> ok then ((429, json_error ''rate limited''), kv w, rl)
       else case refusal srv r of
         Some (s, m) \<Rightarrow> ((s, json_error m), kv w, rl)
       | None \<Rightarrow>
           (let call = store_call srv r (clk srv (Suc n))
            in case step (engine srv) call (kv w) of (reply, s) \<Rightarrow>
                 (reply_answer (caching (kv w)) call reply, s, rl)))"

lemma answers_status: "answers s b c c' \<Longrightarrow> sent c'' = sent c' \<Longrightarrow> status_of (raw_write_header 200 c'') = s"
  by (auto simp: answers_def status_of_def raw_write_header_def)

lemma raw_header_simps [simp]:
  "kv (raw_write_header s c) = kv c" "rate (raw_write_header s c) = rate c" "out (raw_write_header s c) = out c"
  "logs (raw_write_header s c) = logs c" "events (raw_write_header s c) = events c" "spawned (raw_write_header s c) = spawned c"
  by (simp_all add: raw_write_header_def)

section \<open>What a handler may touch\<close>

text \<open>
  \<open>serves c c'\<close>: from \<open>c\<close> to \<open>c'\<close> the limiter and the id counter stand still, the
  events added are those of the key handlers, the lines added report internal
  errors, and the recorder still mirrors the writer.
\<close>

fun handler_event :: "metric \<Rightarrow> bool" where
  "handler_event (MDBQuery q d) = True"
| "handler_event (MKeyStored m) = True"
| "handler_event MKeyExpired = True"
| "handler_event _ = False"

fun internal_line :: "log_line \<Rightarrow> bool" where
  "internal_line (LogInternal q e i t) = True"
| "internal_line _ = False"

definition serves :: "'db conn \<Rightarrow> 'db conn \<Rightarrow> bool" where
  "serves c c' \<longleftrightarrow> rate c' = rate c \<and> ids c' = ids c
     \<and> (\<exists>evs. events c' = events c @ evs \<and> list_all handler_event evs)
     \<and> (\<exists>ls. logs c' = logs c @ ls \<and> list_all internal_line ls) \<and> (mirrors c \<longrightarrow> mirrors c')"

named_theorems serves_intro \<open>what keeps \<open>serves\<close>\<close>

lemma serves_refl [serves_intro]: "serves c c"
  by (simp add: serves_def)

lemma serves_same [simp]:
  "serves c (set_header k v d) = serves c d" "serves c (d\<lparr>kv := s\<rparr>) = serves c d"
  "serves c (d\<lparr>ticks := n\<rparr>) = serves c d" "serves c (d\<lparr>spawned := n\<rparr>) = serves c d"
  "serves c (d\<lparr>body_read := b\<rparr>) = serves c d"
  by (simp_all add: serves_def)

lemma serves_emit [serves_intro]: "serves c d \<Longrightarrow> handler_event m \<Longrightarrow> serves c (emit srv m d)"
  by (auto simp: serves_def events_emit)

lemma serves_log [serves_intro]: "serves c d \<Longrightarrow> internal_line l \<Longrightarrow> serves c (log_it l d)"
  by (auto simp: serves_def)

lemma serves_writes [serves_intro]:
  "serves c d \<Longrightarrow> s \<noteq> 0 \<Longrightarrow> serves c (write_header s d)"
  "serves c d \<Longrightarrow> serves c (snd (resp_write b d))"
  "serves c d \<Longrightarrow> s \<noteq> 0 \<Longrightarrow> serves c (write_error s m d)"
  by (auto simp: serves_def mirrors_intros)

lemma serves_internal_error [serves_intro]: "serves c d \<Longrightarrow> serves c (internal_error r q e d)"
  by (auto simp: internal_error_def Let_def intro!: serves_intro)

lemma serves_io_copy: "io_copy bs e d = (x, d') \<Longrightarrow> serves c d \<Longrightarrow> serves c d'"
proof (induction bs arbitrary: d)
  case (Cons b bs)
  have "serves c (snd (resp_write b d))" using Cons.prems(2) by (rule serves_writes)
  with Cons show ?case by (auto split: prod.splits option.splits)
qed simp

lemma serves_get: "serves c (serve_get srv r k c)"
  by (simp add: serve_get_def Let_def case_prod_beta serves_intro split: option.split)

lemma serves_post: "serves c (serve_post srv r k c)"
  by (auto simp: serve_post_def read_limited_def Let_def case_prod_beta
      split: option.split sum.split body_error.split intro!: serves_intro)

lemma serves_key: "serves c (serve_key_direct srv r k c)"
  by (simp add: serve_key_direct_def method_not_allowed_def serves_get serves_post serves_intro Let_def)

lemma serves_ui: "serves c (snd (serve_ui srv r name c))"
  by (auto simp: serve_ui_def Let_def split: option.split sum.split prod.split intro!: serves_intro
      dest: serves_io_copy [where c = c])

lemma serves_headers:
  "serves (set_header k1 v1 (set_header k2 v2 (set_header k3 v3 (set_header k4 v4 c)))) d \<Longrightarrow> serves c d"
  by (simp add: serves_def)

lemma serves_route: "serves c (snd (auth srv (security_headers (route srv)) r c))"
proof -
  have "serves d (snd (route srv r d))" for d
    by (auto simp: route_def serves_key serves_ui method_not_allowed_def Let_def intro!: serves_intro)
  then have "serves c (snd (route srv r (set_header k1 v1 (set_header k2 v2 (set_header k3 v3 (set_header k4 v4 c))))))"
    for k1 v1 k2 v2 k3 v3 k4 v4 by (rule serves_headers)
  then show ?thesis by (simp add: auth_def security_headers_def Let_def serves_intro)
qed

end
