(* ===== verification/Server_Exchange.thy ===== *)
theory Server_Exchange
  imports Server_Laws
begin

text \<open>
  The properties of an exchange: the answer and the store call of every request
  (\<open>exchange_spec\<close>), that a refused request neither reads nor changes the store
  (\<open>refused_blind\<close>), that what is posted can be read back, what is logged and
  metered, and who a request is attributed to.
\<close>

section \<open>The answer to a request\<close>

lemma limited_answer:
  fixes srv :: "'db server" and fs :: "bool list"
  assumes "url_path r \<notin> set ui_paths" "exchange srv r w = ((s, b), s', rl)"
  defines "res \<equiv> limited srv (tagged srv r w) (entered srv fs r w)"
  shows "kv (snd res) = s'" "rate (snd res) = rl"
    "(\<exists>p. fst res = Panics p) \<and> sent (snd res) = None \<and> s = 500 \<and> b = json_error ''internal error''
        \<and> write_faults (snd res) = fs \<and> out (snd res) = []
      \<or> fst res = Returns () \<and> answers s b (entered srv fs r w) (snd res)"
proof -
  obtain ok retry rl' n where d: "rate_decision srv r w = (((ok, retry), rl'), n)" by (metis surj_pair)
  define c where "c = (entered srv fs r w)\<lparr>ticks := n, rate := rl'\<rparr>"
  define h where "h = auth srv (security_headers (route srv))"
  have c: "fresh_writer c" "kv c = kv w" "ticks c = n" "rate c = rl'" "write_faults c = fs"
    "answers t x c = answers t x (entered srv fs r w)" for t x
    by (simp_all add: c_def)
  have res: "res = (if ok then h (tagged srv r w) c
      else (Returns (), write_error 429 ''rate limited'' (set_header ''Retry-After'' (int_text retry) c)))"
    unfolding res_def h_def c_def by (rule limited_entered [OF d])
  have rate: "rate (snd (h (tagged srv r w) c)) = rl'"
    using serves_route [of c srv "tagged srv r w"] c(4) by (simp add: serves_def h_def)
  note spec = auth_route_spec [OF c(1), of "tagged srv r w" srv, folded h_def, simplified, OF assms(1)]
  have "kv (snd res) = s' \<and> rate (snd res) = rl
    \<and> ((\<exists>p. fst res = Panics p) \<and> sent (snd res) = None \<and> s = 500 \<and> b = json_error ''internal error''
        \<and> write_faults (snd res) = fs \<and> out (snd res) = []
      \<or> fst res = Returns () \<and> answers s b (entered srv fs r w) (snd res))"
  proof (cases ok)
    case False
    then have "s = 429" "b = json_error ''rate limited''" "s' = kv w" "rl = rl'"
      using assms(2) d by (simp_all add: exchange_def)
    with False c(1) show ?thesis
      by (simp add: res c(2,4,5,6) [symmetric]) (simp add: answers_def answer_error c)
  next
    case True
    show ?thesis
    proof (cases "refusal srv r")
      case (Some sm)
      then obtain m where m: "refusal srv r = Some (s, m)" "b = json_error m" "s' = kv w" "rl = rl'"
        using assms(2) d True by (cases sm) (simp add: exchange_def)
      from spec(1) [OF m(1)] show ?thesis using True rate m by (auto simp: res c split: if_splits)
    next
      case None
      then show ?thesis
        using spec(2) [OF None] assms(2) d True rate by (auto simp: res c exchange_def Let_def split: prod.splits)
    qed
  qed
  then show "kv (snd res) = s'" "rate (snd res) = rl"
    "(\<exists>p. fst res = Panics p) \<and> sent (snd res) = None \<and> s = 500 \<and> b = json_error ''internal error''
        \<and> write_faults (snd res) = fs \<and> out (snd res) = []
      \<or> fst res = Returns () \<and> answers s b (entered srv fs r w) (snd res)" by blast+
qed

lemma exchange_ctx [simp]: "exchange srv (r\<lparr>trace_ids := x\<rparr>) w = exchange srv r w"
  by (simp add: exchange_def Let_def split: prod.split option.split)

lemma serve_answer:
  fixes srv :: "'db server" and fs :: "bool list"
  assumes "plain_wrap srv" "url_path r \<notin> set ui_paths" "exchange srv r w = ((s, b), s', rl)"
  shows "status_of (serve srv fs r w) = s" "fs = [] \<Longrightarrow> out (serve srv fs r w) = b"
    "kv (serve srv fs r w) = s'" "rate (serve srv fs r w) = rl"
proof -
  obtain tr where tr: "\<And>c. handler srv r c = core srv (r\<lparr>trace_ids := tr\<rparr>) c"
    using handler_core [OF assms(1)] by blast
  let ?r = "r\<lparr>trace_ids := tr\<rparr>"
  obtain u c where l: "limited srv (tagged srv ?r w) (entered srv fs ?r w) = (u, c)" by (metis surj_pair)
  note a = limited_answer [of ?r srv w s b s' rl fs, simplified, OF assms(2,3), unfolded l, simplified]
  have "status_of (serve srv fs r w) = s \<and> (fs = [] \<longrightarrow> out (serve srv fs r w) = b)
    \<and> kv (serve srv fs r w) = s' \<and> rate (serve srv fs r w) = rl"
  proof (cases u)
    case (Returns x)
    then have c: "answers s b (entered srv fs ?r w) c" using a(3) by simp
    have "serve srv fs r w = raw_write_header 200 (epilogue srv (tagged srv ?r w) (clk srv (ticks w)) c)"
      using l Returns by (simp add: serve_def tr core_open)
    then have "out (serve srv fs r w) = out c" "kv (serve srv fs r w) = kv c" "rate (serve srv fs r w) = rate c"
      "status_of (serve srv fs r w) = s"
      using answers_status [OF c epilogue_simps(3)] by simp_all
    with c a(1,2) show ?thesis by (intro conjI impI) (simp_all add: answers_def)
  next
    case (Panics p)
    then have s: "s = 500" "b = json_error ''internal error''" "sent c = None" "out c = []" "write_faults c = fs"
      using a(3) by simp_all
    let ?d = "log_it (LogPanic p (ctx_id ?r)) ((emit srv (MRequestInFlight (req_method r) (route_for_path (url_path r)) (url_path r) (- 1)) c)\<lparr>recorder := None\<rparr>)"
    have serve: "serve srv fs r w = raw_write_header 200 (write_error 500 ''internal error'' ?d)"
      using l Panics by (simp add: serve_def tr core_open)
    have "\<exists>h. sent (write_error 500 ''internal error'' ?d) = Some (500, h)"
      "fs = [] \<longrightarrow> out (write_error 500 ''internal error'' ?d) = json_error ''internal error''"
      using s(3-5) by (auto simp: write_error_def Let_def resp_write_def write_header_def raw_write_def raw_write_header_def
          split: list.split bool.split)
    then have "status_of (serve srv fs r w) = 500" "fs = [] \<longrightarrow> out (serve srv fs r w) = json_error ''internal error''"
      "kv (serve srv fs r w) = kv c" "rate (serve srv fs r w) = rate c"
      unfolding serve by (auto simp: status_of_def raw_write_header_def)
    with s a(1,2) show ?thesis by (intro conjI impI) simp_all
  qed
  then show "status_of (serve srv fs r w) = s" "fs = [] \<Longrightarrow> out (serve srv fs r w) = b"
    "kv (serve srv fs r w) = s'" "rate (serve srv fs r w) = rl" by simp_all
qed

text \<open>C5: A request for a key path is answered as the reference says: the client's
  bucket decides first (429), then the API key (401), the key and the method
  (400, 405, and 500 for the empty path), the body and the commit mode (413, 400);
  only a request that passes all of them makes its one store call, and its answer
  is determined by that call's reply. Nothing else touches the store or the limiter.\<close>

theorem exchange_spec:
  assumes "plain_wrap srv" "url_path r \<notin> set ui_paths"
  shows "(let c = serve srv [] r w in ((status_of c, out c), kv c, rate c)) = exchange srv r w"
proof -
  obtain s b s' rl where e: "exchange srv r w = ((s, b), s', rl)" by (metis surj_pair)
  note a = serve_answer [OF assms e, of "[]"]
  then show ?thesis by (simp add: e Let_def)
qed

section \<open>Sample server\<close>

definition sample_options :: "ref_db options" where
  "sample_options = \<lparr>o_max_body = 4, o_max_key = 3, o_ttl = 10 * second, o_api_key = ''s3'', o_commit_mode = ''async'',
     o_rps = 1, o_burst = 5, o_trusted = [], o_ui = Some (\<lambda>_. Inr ([''page''], None)), o_metrics = True,
     o_after_write = True, o_wrap = None\<rparr>"

definition sample_server :: "ref_db server" where
  "sample_server = fst (new_server ref_engine (\<lambda>n. sample_time (int n)) utc (\<lambda>n. ''id'') sample_options)"

definition sample_world :: "ref_db world" where
  "sample_world = \<lparr>kv = sample_store 1000 [], rate = snd (new_server ref_engine (\<lambda>n. sample_time (int n)) utc (\<lambda>n. ''id'') sample_options),
     ticks = 0, ids = 0, logs = [], events = [], spawned = 0\<rparr>"

definition sample_request :: "string \<Rightarrow> string \<Rightarrow> string \<Rightarrow> bytes \<Rightarrow> request" where
  "sample_request meth path key_header data = \<lparr>req_method = meth, url_path = path,
     header = (\<lambda>h. if h = ''X-API-Key'' then key_header else []), body = (data, None),
     remote_addr = ''10.0.0.1:80'', ctx_id = [], trace_ids = None\<rparr>"

lemma sample_server_simps [simp]:
  "engine sample_server = ref_engine" "opts sample_server = sample_options" "default_mode sample_server = PutAsync"
  "clk sample_server n = sample_time (int n)" "tz sample_server = utc" "plain_wrap sample_server"
  by (simp_all add: sample_server_def new_server_def sample_options_def parse_put_mode_def Let_def to_lower_def
      plain_wrap_def second_def) code_simp?

lemma sample_decision:
  "rate_decision sample_server (sample_request m p k d) (sample_world\<lparr>kv := st, ticks := t\<rparr>)
    = (((True, 0), \<lparr>rps = 1, burst = 5, buckets = [(''10.0.0.1'', \<lparr>tokens = 4, seen = sample_time (int (Suc t))\<rparr>)]\<rparr>), t + 2)"
  "rate_decision sample_server (sample_request m p k d) sample_world
    = (((True, 0), \<lparr>rps = 1, burst = 5, buckets = [(''10.0.0.1'', \<lparr>tokens = 4, seen = sample_time 1\<rparr>)]\<rparr>), 2)"
proof -
  have ip: "client_ip sample_server (sample_request m p k d) = ''10.0.0.1''"
    unfolding sample_server_def sample_options_def sample_request_def by code_simp
  show "rate_decision sample_server (sample_request m p k d) (sample_world\<lparr>kv := st, ticks := t\<rparr>)
    = (((True, 0), \<lparr>rps = 1, burst = 5, buckets = [(''10.0.0.1'', \<lparr>tokens = 4, seen = sample_time (int (Suc t))\<rparr>)]\<rparr>), t + 2)"
    "rate_decision sample_server (sample_request m p k d) sample_world
    = (((True, 0), \<lparr>rps = 1, burst = 5, buckets = [(''10.0.0.1'', \<lparr>tokens = 4, seen = sample_time 1\<rparr>)]\<rparr>), 2)"
    using seconds_whole [of 0]
    by (simp_all add: rate_decision_def ip sample_options_def sample_world_def new_server_def Let_def new_rate_limiter_def
        allow_def bucket_of_def refill_def second_def time_sub_def max_duration_def)
qed

lemma sample_kv [simp]: "kv sample_world = sample_store 1000 []"
  by (simp add: sample_world_def)

abbreviation sample_post :: request where
  "sample_post \<equiv> sample_request ''POST'' ''/k'' ''s3'' ''v''"

abbreviation sample_get :: request where
  "sample_get \<equiv> sample_request ''GET'' ''/k'' ''s3'' []"

definition posted_store :: "ref_db store" where
  "posted_store = snd (put_with_mode ref_engine utc (sample_time 3) ''k'' ''v'' (10 * second) PutAsync (sample_store 1000 []))"

lemma sample_posted: "exchange sample_server sample_post sample_world
    = ((202, ''accepted''), posted_store, snd (fst (rate_decision sample_server sample_post sample_world)))"
proof -
  have ref: "refusal sample_server sample_post = None"
    by (simp add: refusal_def sample_request_def sample_options_def resolve_mode_def)
  have call: "store_call sample_server sample_post (sample_time 3) = OpPut utc (sample_time 3) ''k'' ''v'' (10 * second) PutAsync"
    by (simp add: store_call_def sample_request_def resolve_mode_def) (simp add: sample_options_def)
  show ?thesis
    by (simp add: exchange_def sample_decision(2) ref call posted_store_def put_with_mode_def)
qed

theorem exchange_spec_witness:
  "fst (exchange sample_server sample_post sample_world) = (202, ''accepted'')
   \<and> (let c = serve sample_server [] sample_post sample_world in ((status_of c, out c), kv c, rate c))
      = exchange sample_server sample_post sample_world"
proof
  show "fst (exchange sample_server sample_post sample_world) = (202, ''accepted'')"
    by (simp add: sample_posted)
  show "(let c = serve sample_server [] sample_post sample_world in ((status_of c, out c), kv c, rate c))
      = exchange sample_server sample_post sample_world"
    by (rule exchange_spec) (simp_all add: sample_request_def ui_paths_def)
qed

section \<open>Refused requests are blind\<close>

text \<open>\<open>blind\<close>: run with another store, a handler gives the same outcome and leaves that store alone.\<close>

definition with_kv :: "'db store \<Rightarrow> 'a \<times> 'db conn \<Rightarrow> 'a \<times> 'db conn" where
  "with_kv s p = (fst p, (snd p)\<lparr>kv := s\<rparr>)"

lemma with_kv_pair [simp]: "with_kv s (x, c) = (x, c\<lparr>kv := s\<rparr>)" "fst (with_kv s p) = fst p" "snd (with_kv s p) = (snd p)\<lparr>kv := s\<rparr>"
  by (simp_all add: with_kv_def)

lemma kv_out [simp]:
  fixes c :: "'db conn"
  shows "(c\<lparr>kv := s\<rparr>)\<lparr>rate := a\<rparr> = (c\<lparr>rate := a\<rparr>)\<lparr>kv := s\<rparr>"
    "(c\<lparr>kv := s\<rparr>)\<lparr>ticks := n\<rparr> = (c\<lparr>ticks := n\<rparr>)\<lparr>kv := s\<rparr>"
    "(c\<lparr>kv := s\<rparr>)\<lparr>ids := n\<rparr> = (c\<lparr>ids := n\<rparr>)\<lparr>kv := s\<rparr>"
    "(c\<lparr>kv := s\<rparr>)\<lparr>recorder := q\<rparr> = (c\<lparr>recorder := q\<rparr>)\<lparr>kv := s\<rparr>"
    "(c\<lparr>kv := s\<rparr>)\<lparr>body_read := b\<rparr> = (c\<lparr>body_read := b\<rparr>)\<lparr>kv := s\<rparr>"
    "(c\<lparr>kv := s\<rparr>)\<lparr>sent := x\<rparr> = (c\<lparr>sent := x\<rparr>)\<lparr>kv := s\<rparr>"
    "(c\<lparr>kv := s\<rparr>)\<lparr>out := y\<rparr> = (c\<lparr>out := y\<rparr>)\<lparr>kv := s\<rparr>"
    "(c\<lparr>kv := s\<rparr>)\<lparr>write_faults := z\<rparr> = (c\<lparr>write_faults := z\<rparr>)\<lparr>kv := s\<rparr>"
  by simp_all

lemma kv_out_calls [simp]:
  "set_header k v (c\<lparr>kv := s\<rparr>) = (set_header k v c)\<lparr>kv := s\<rparr>"
  "emit srv m (c\<lparr>kv := s\<rparr>) = (emit srv m c)\<lparr>kv := s\<rparr>"
  "log_it l (c\<lparr>kv := s\<rparr>) = (log_it l c)\<lparr>kv := s\<rparr>"
  "raw_write_header n (c\<lparr>kv := s\<rparr>) = (raw_write_header n c)\<lparr>kv := s\<rparr>"
  by (simp_all add: set_header_def emit_def log_it_def raw_write_header_def)

lemma kv_out_writes [simp]:
  "write_header n (c\<lparr>kv := s\<rparr>) = (write_header n c)\<lparr>kv := s\<rparr>"
  "raw_write b (c\<lparr>kv := s\<rparr>) = with_kv s (raw_write b c)"
  by (simp_all add: write_header_def raw_write_def Let_def split: option.split list.split bool.split)

lemma kv_out_write [simp]: "resp_write b (c\<lparr>kv := s\<rparr>) = with_kv s (resp_write b c)"
  by (simp add: resp_write_def Let_def case_prod_beta split: option.split)

lemma kv_out_errors [simp]:
  "write_error n m (c\<lparr>kv := s\<rparr>) = (write_error n m c)\<lparr>kv := s\<rparr>"
  "internal_error r q e (c\<lparr>kv := s\<rparr>) = (internal_error r q e c)\<lparr>kv := s\<rparr>"
  "method_not_allowed ms (c\<lparr>kv := s\<rparr>) = (method_not_allowed ms c)\<lparr>kv := s\<rparr>"
  "open_conn fs (w\<lparr>kv := s\<rparr>) = (open_conn fs w)\<lparr>kv := s\<rparr>"
  by (simp_all add: write_error_def internal_error_def method_not_allowed_def open_conn_def world.defs Let_def)

lemma kv_out_copy [simp]: "io_copy bs e (c\<lparr>kv := s\<rparr>) = with_kv s (io_copy bs e c)"
  by (induction bs arbitrary: c) (auto simp: with_kv_def split: prod.split option.split)

lemma kv_out_ui [simp]: "serve_ui srv r n (c\<lparr>kv := s\<rparr>) = with_kv s (serve_ui srv r n c)"
  by (cases "o_ui (opts srv)") (simp_all add: serve_ui_def Let_def case_prod_beta split: option.split sum.split)

lemma kv_out_recorded [simp]: "recorded (c\<lparr>kv := s\<rparr>) = recorded c"
  by (simp add: recorded_def)

lemma kv_out_post:
  assumes "o_max_body (opts srv) < int (length (fst (body r))) \<or> snd (body r) \<noteq> None \<or> resolve_mode srv r = None"
  shows "serve_post srv r k (c\<lparr>kv := s\<rparr>) = (serve_post srv r k c)\<lparr>kv := s\<rparr>"
  using assms by (cases "body r") (auto simp: serve_post_def read_limited_def Let_def split: option.split)

lemma kv_out_key:
  assumes "refusal srv r \<noteq> None" "url_path r \<noteq> []" "o_api_key (opts srv) = [] \<or> header r ''X-API-Key'' = o_api_key (opts srv)"
  shows "serve_key_direct srv r (tl (url_path r)) (c\<lparr>kv := s\<rparr>) = (serve_key_direct srv r (tl (url_path r)) c)\<lparr>kv := s\<rparr>"
proof -
  consider "tl (url_path r) = []" | "o_max_key (opts srv) < int (length (tl (url_path r)))"
    | "req_method r = ''POST''" "o_max_body (opts srv) < int (length (fst (body r))) \<or> snd (body r) \<noteq> None \<or> resolve_mode srv r = None"
    | "req_method r \<noteq> ''GET''" "req_method r \<noteq> ''POST''"
    using assms by (auto simp: refusal_def Let_def split: if_splits)
  then show ?thesis by cases (simp_all add: serve_key_direct_def kv_out_post)
qed

lemma kv_out_route:
  assumes "url_path r \<in> set ui_paths \<or> refusal srv r \<noteq> None"
  shows "auth srv (security_headers (route srv)) r (c\<lparr>kv := s\<rparr>) = with_kv s (auth srv (security_headers (route srv)) r c)"
proof -
  let ?keyed = "o_api_key (opts srv) = [] \<or> header r ''X-API-Key'' = o_api_key (opts srv) \<or> is_ui_path (url_path r)"
  have "route srv r (d\<lparr>kv := s\<rparr>) = with_kv s (route srv r d)" if ?keyed for d
    using assms that kv_out_key [of srv r s d] by (auto simp: route_def is_ui_path_def)
  then show ?thesis by (auto simp: auth_def security_headers_def Let_def constant_time_equal_iff)
qed

definition denied :: "'db server \<Rightarrow> request \<Rightarrow> 'db world \<Rightarrow> bool" where
  "denied srv r w \<longleftrightarrow> \<not> fst (fst (fst (rate_decision srv r w)))"

lemma kv_out_decision [simp]: "rate_decision srv r (w\<lparr>kv := s\<rparr>) = rate_decision srv r w"
  "tagged srv r (w\<lparr>kv := s\<rparr>) = tagged srv r w"
  by (simp_all add: rate_decision_def tagged_def)

lemma kv_out_entered [simp]: "entered srv fs r (w\<lparr>kv := s\<rparr>) = (entered srv fs r w)\<lparr>kv := s\<rparr>"
  by (simp add: entered_def)

lemma kv_out_epilogue [simp]: "epilogue srv r t (c\<lparr>kv := s\<rparr>) = (epilogue srv r t c)\<lparr>kv := s\<rparr>"
  by (simp add: epilogue_def Let_def split: prod.split)

lemma kv_out_limited:
  assumes "denied srv r w \<or> url_path r \<in> set ui_paths \<or> refusal srv r \<noteq> None"
  shows "limited srv (tagged srv r w) ((entered srv fs r w)\<lparr>kv := s\<rparr>) = with_kv s (limited srv (tagged srv r w) (entered srv fs r w))"
proof -
  obtain ok retry rl n where d: "rate_decision srv r w = (((ok, retry), rl), n)" by (metis surj_pair)
  then have d': "rate_decision srv r (w\<lparr>kv := s\<rparr>) = (((ok, retry), rl), n)" by simp
  have "limited srv (tagged srv r (w\<lparr>kv := s\<rparr>)) (entered srv fs r (w\<lparr>kv := s\<rparr>))
      = with_kv s (limited srv (tagged srv r w) (entered srv fs r w))"
    unfolding limited_entered [OF d] limited_entered [OF d']
    using assms d kv_out_route [of "tagged srv r w" srv] by (cases ok) (simp_all add: denied_def)
  then show ?thesis by simp
qed

text \<open>C6: A request that is rate limited, refused, or for the page is served in the same
  way whatever the store holds: with any other store the answer, its headers, the
  log lines, the metrics and the limiter are the same, and that store is left as it
  was. Without the API key, in particular, nothing can be learned or changed.\<close>

theorem refused_blind:
  assumes "plain_wrap srv" "denied srv r w \<or> url_path r \<in> set ui_paths \<or> refusal srv r \<noteq> None"
  shows "serve srv fs r (w\<lparr>kv := s\<rparr>) = (serve srv fs r w)\<lparr>kv := s\<rparr>"
proof -
  obtain tr where tr: "\<And>c. handler srv r c = core srv (r\<lparr>trace_ids := tr\<rparr>) c"
    using handler_core [OF assms(1)] by blast
  let ?r = "r\<lparr>trace_ids := tr\<rparr>"
  obtain u c where l: "limited srv (tagged srv ?r w) (entered srv fs ?r w) = (u, c)" by (metis surj_pair)
  have l': "limited srv (tagged srv ?r (w\<lparr>kv := s\<rparr>)) (entered srv fs ?r (w\<lparr>kv := s\<rparr>)) = (u, c\<lparr>kv := s\<rparr>)"
    using kv_out_limited [of srv ?r w s fs] assms(2) l by (simp add: denied_def)
  show ?thesis
    unfolding serve_def tr core_open l l' by (cases u) simp_all
qed

theorem refused_blind_witness:
  "refusal sample_server (sample_request ''GET'' ''/k'' ''wrong'' []) = Some (401, ''unauthorized'')
   \<and> serve sample_server [] (sample_request ''GET'' ''/k'' ''wrong'' []) (sample_world\<lparr>kv := sample_store 0 [True]\<rparr>)
    = (serve sample_server [] (sample_request ''GET'' ''/k'' ''wrong'' []) sample_world)\<lparr>kv := sample_store 0 [True]\<rparr>"
proof -
  have "refusal sample_server (sample_request ''GET'' ''/k'' ''wrong'' []) = Some (401, ''unauthorized'')"
    by (simp add: refusal_def sample_request_def sample_options_def)
  then show ?thesis by (simp add: refused_blind)
qed

section \<open>What is posted is read back\<close>

fun puts_key :: "key \<Rightarrow> op \<Rightarrow> bool" where
  "puts_key k (OpPut z now k' v t mode) \<longleftrightarrow> k' = k"
| "puts_key k _ \<longleftrightarrow> False"

lemma writes_other:
  assumes "list_all (\<lambda>c. \<not> puts_key k c) cs"
  shows "writes cs rs m k = m k"
  using assms by (induction cs rs m rule: writes.induct) auto

lemma reply_put: "(case put_with_mode E z now k v t mode s of (e, s') \<Rightarrow> (RPut e, s'))
    = (RPut (fst (put_with_mode E z now k v t mode s)), snd (put_with_mode E z now k v t mode s))"
  by (simp add: case_prod_beta)

text \<open>An answer 201 or 202 to a POST means its write succeeded.\<close>

lemma posted:
  assumes "plain_wrap srv" "url_path r \<notin> set ui_paths" "req_method r = ''POST''"
    "status_of (serve srv fs r w) \<in> {201, 202}"
  obtains n where "n = snd (rate_decision srv r w)" "url_path r \<noteq> []" "refusal srv r = None"
    "step (engine srv) (store_call srv r (clk srv (Suc n))) (kv w) = (RPut None, kv (serve srv fs r w))"
proof -
  obtain ok retry rl n where d: "rate_decision srv r w = (((ok, retry), rl), n)" by (metis surj_pair)
  obtain s b s' rl' where e: "exchange srv r w = ((s, b), s', rl')" by (metis surj_pair)
  note a = serve_answer [OF assms(1,2) e, where fs = fs]
  have s: "s \<in> {201, 202}" using assms(4) a(1) by simp
  have ok: "ok" and ref: "refusal srv r = None"
    using e s d by (auto simp: exchange_def refusal_def Let_def split: if_splits)
  obtain e' where st: "step (engine srv) (store_call srv r (clk srv (Suc n))) (kv w) = (RPut e', s')"
    using e d ok ref assms(3) by (auto simp: exchange_def store_call_def Let_def reply_put)
  have "e' = None"
    using e d ok ref st s by (cases e') (auto simp: exchange_def Let_def)
  moreover have "url_path r \<noteq> []" using ref by (auto simp: refusal_def Let_def split: if_splits)
  ultimately show ?thesis using that [of n] d ref st a(3) by simp
qed

text \<open>C1: What a POST answered 201 or 202 stored is what a later GET of the same key
  returns. Whatever store calls come in between, in every commit mode, a GET of a key
  that no call in between has written and whose entry has not expired, when it is answered
  from the store (not 401, 429 or 500), is 200 with exactly the posted bytes, or, only if an
  eviction is among the calls in between, 404. No call in between may have read a later
  clock than the GET, nor may the POST. With a memory layer nothing else is assumed; without one
  the expiries in the rows, the expiries written and the times of the sweeps must be
  times whose texts are ordered as the times are, since sweeps compare the texts.\<close>

theorem posted_is_read:
  assumes "sql_engine (engine srv) tbl pend" "plain_wrap srv"
    and post: "url_path p \<notin> set ui_paths" "req_method p = ''POST''" "status_of (serve srv fs p w) \<in> {201, 202}"
    and get: "url_path g = url_path p" "req_method g = ''GET''"
    and times: "now = clk srv (Suc (snd (rate_decision srv p w)))" "later = clk srv (Suc (snd (rate_decision srv g w')))"
      "\<not> after later (time_add (tz srv) now (o_ttl (opts srv)))" "\<not> after now later"
    and contract: "in_contract T tbl (kv w)" "list_all orders_ok cs"
      "caching (kv w) \<or> list_all (times_in T) (store_call srv p now # cs)"
    and between: "run (engine srv) cs (kv (serve srv fs p w)) = (rs, kv w')"
      "list_all (\<lambda>c. no_later later c \<and> \<not> puts_key (tl (url_path p)) c) cs"
    and answered: "status_of (serve srv [] g w') \<notin> {401, 429, 500}"
  shows "status_of (serve srv [] g w') = 200 \<and> out (serve srv [] g w') = fst (body p)
    \<or> status_of (serve srv [] g w') = 404 \<and> list_ex is_evict cs"
proof -
  let ?k = "tl (url_path p)"
  obtain n where n: "n = snd (rate_decision srv p w)" "refusal srv p = None"
    "step (engine srv) (store_call srv p (clk srv (Suc n))) (kv w) = (RPut None, kv (serve srv fs p w))"
    by (rule posted [OF assms(2) post])
  then have put: "step (engine srv) (store_call srv p now) (kv w) = (RPut None, kv (serve srv fs p w))"
    using times(1) by simp
  have call: "store_call srv p now = OpPut (tz srv) now ?k (fst (body p)) (o_ttl (opts srv)) (the (resolve_mode srv p))"
    using post(2) by (simp add: store_call_def)
  have run: "run (engine srv) (store_call srv p now # cs) (kv w) = (RPut None # rs, kv w')"
    using put between(1) by simp
  obtain ok retry rl m where d: "rate_decision srv g w' = (((ok, retry), rl), m)" by (metis surj_pair)
  obtain s b s' rl' where e: "exchange srv g w' = ((s, b), s', rl')" by (metis surj_pair)
  have gpath: "url_path g \<notin> set ui_paths" using get post by simp
  note a = serve_answer [OF assms(2) gpath e, where fs = "[]"]
  have s: "s \<noteq> 401" "s \<noteq> 429" "s \<noteq> 500" using answered a(1) by simp_all
  have ok: ok using e d s by (cases ok) (simp_all add: exchange_def)
  have "s2 = 401" if "refusal srv g = Some (s2, m2)" for s2 m2
    using n(2) get post(2) that by (auto simp: refusal_def Let_def split: if_splits)
  then have ref: "refusal srv g = None"
    using e d ok s by (cases "refusal srv g") (auto simp: exchange_def)
  have "store_call srv g later = OpGet later ?k" using get by (simp add: store_call_def)
  moreover obtain r err s'' where r: "Store_Core.get (engine srv) later ?k (kv w') = ((r, err), s'')" by (metis surj_pair)
  ultimately have e': "((s, b), s', rl') = (reply_answer (caching (kv w')) (OpGet later ?k) (RGet r err), s'', rl)"
    using e d ok ref times(2) by (simp add: exchange_def Let_def)
  have err: "err = None" using e' answered a(1) by (cases err) auto
  have written: "live later (writes (store_call srv p now # cs) (RPut None # rs) (abs_store tbl (kv w))) ?k
      = Some (fst (body p))"
  proof -
    have "writes cs rs ((abs_store tbl (kv w))(?k \<mapsto> (fst (body p), time_add (tz srv) now (o_ttl (opts srv))))) ?k
        = Some (fst (body p), time_add (tz srv) now (o_ttl (opts srv)))"
      using between(2) by (subst writes_other) (auto simp: list_all_iff)
    then show ?thesis using times(3) by (simp add: call live_def)
  qed
  have orders: "list_all orders_ok (store_call srv p now # cs)" "list_all (no_later later) (store_call srv p now # cs)"
    using contract(2) between(2) times(4) by (auto simp: call no_later_def list_all_iff)
  note live = sql_engine.live_run [OF assms(1) run contract(1) orders(1) contract(3) orders(2)]
  have "in_contract T tbl (kv w')" using sql_engine.run_ok [OF assms(1) run contract(1) orders(1) contract(3)] by simp
  note got = sql_engine.get_found [OF assms(1) r [unfolded err] this]
  have "live later (abs_store tbl (kv w')) ?k \<in> {Some (fst (body p)), None}"
    using live(1) written unfolding map_le_def by (metis domIff insertCI)
  moreover have "live later (abs_store tbl (kv w')) ?k = Some (fst (body p))" if "\<not> list_ex is_evict cs"
    using live(2) written that by (simp add: call list_all_iff list_ex_iff)
  moreover have "s = 404 \<and> (\<not> found r \<or> expired r) \<or> s = 200 \<and> b = result_value r \<and> found r \<and> \<not> expired r"
    using e' err by (auto split: if_splits)
  ultimately show ?thesis
    using got a(1,2) by (cases "list_ex is_evict cs") auto
qed

lemma sample_got: "exchange sample_server sample_get (sample_world\<lparr>kv := posted_store, ticks := 6\<rparr>)
    = ((200, ''v''), posted_store, snd (fst (rate_decision sample_server sample_get (sample_world\<lparr>kv := posted_store, ticks := 6\<rparr>))))"
proof -
  have ref: "refusal sample_server sample_get = None"
    by (simp add: refusal_def sample_request_def sample_options_def)
  have call: "store_call sample_server sample_get (sample_time 9) = OpGet (sample_time 9) ''k''"
    by (simp add: store_call_def sample_request_def)
  have get: "get ref_engine (sample_time 9) ''k'' posted_store = ((\<lparr>found = True, expired = False, result_value = ''v''\<rparr>, None), posted_store)"
    unfolding posted_store_def
    by (simp add: put_with_mode_def get_def get_cached_def no_result_def)
  show ?thesis by (simp add: exchange_def sample_decision(1) ref call get)
qed

theorem posted_is_read_witness:
  "status_of (serve sample_server [] sample_get (sample_world\<lparr>kv := posted_store, ticks := 6\<rparr>)) = 200
   \<and> out (serve sample_server [] sample_get (sample_world\<lparr>kv := posted_store, ticks := 6\<rparr>)) = fst (body sample_post)"
proof -
  have "status_of (serve sample_server [] sample_get (sample_world\<lparr>kv := posted_store, ticks := 6\<rparr>)) = 200
     \<and> out (serve sample_server [] sample_get (sample_world\<lparr>kv := posted_store, ticks := 6\<rparr>)) = fst (body sample_post)
     \<or> status_of (serve sample_server [] sample_get (sample_world\<lparr>kv := posted_store, ticks := 6\<rparr>)) = 404
       \<and> list_ex is_evict []"
  proof (rule posted_is_read [where cs = "[]" and rs = "[]" and T = "{}" and w = sample_world and fs = "[]"])
    have path: "url_path (sample_request m ''/k'' k d) \<notin> set ui_paths" for m k d
      by (simp add: sample_request_def ui_paths_def)
    note p = serve_answer [OF sample_server_simps(6) path sample_posted, where fs = "[]"]
    note g = serve_answer [OF sample_server_simps(6) path sample_got, where fs = "[]"]
    show "sql_engine (engine sample_server) ref_tbl ref_pend" using ref.sql_engine_axioms by simp
    show "plain_wrap sample_server" by simp
    show "url_path sample_post \<notin> set ui_paths" by (rule path)
    show "status_of (serve sample_server [] sample_post sample_world) \<in> {201, 202}" using p by simp
    show "run (engine sample_server) [] (kv (serve sample_server [] sample_post sample_world))
        = ([], kv (sample_world\<lparr>kv := posted_store, ticks := 6\<rparr>))" using p by simp
    show "status_of (serve sample_server [] sample_get (sample_world\<lparr>kv := posted_store, ticks := 6\<rparr>)) \<notin> {401, 429, 500}"
      using g by simp
    show "\<not> after (clk sample_server (Suc (snd (rate_decision sample_server sample_get (sample_world\<lparr>kv := posted_store, ticks := 6\<rparr>)))))
        (time_add (tz sample_server) (clk sample_server (Suc (snd (rate_decision sample_server sample_post sample_world)))) (o_ttl (opts sample_server)))"
      by (simp add: sample_decision sample_options_def)
    show "\<not> after (clk sample_server (Suc (snd (rate_decision sample_server sample_post sample_world))))
        (clk sample_server (Suc (snd (rate_decision sample_server sample_get (sample_world\<lparr>kv := posted_store, ticks := 6\<rparr>)))))"
      by (simp add: sample_decision)
    show "in_contract {} ref_tbl (kv sample_world)" by (simp add: in_contract_def sample_world_def)
  qed (simp_all add: sample_request_def sample_world_def)
  then show ?thesis by simp
qed

end
