(* ===== verification/Server_Audit.thy ===== *)
theory Server_Audit
  imports Server_Exchange
begin

text \<open>
  What an exchange leaves in the log and the metrics, what happens to them when a
  handler panics, which headers an answered write carries, and to whom a request
  is attributed.
\<close>

lemma sample_request_simps [simp]:
  "req_method (sample_request m p k d) = m" "url_path (sample_request m p k d) = p" "ctx_id (sample_request m p k d) = []"
  "header (sample_request m p k d) ''X-API-Key'' = k" "header (sample_request m p k d) ''X-Request-ID'' = []"
  by (simp_all add: sample_request_def)

lemma sample_options_simps [simp]:
  "o_metrics sample_options" "o_ui sample_options \<noteq> None" "o_api_key sample_options = ''s3''"
  "events sample_world = []" "logs sample_world = []" "fresh_id sample_server n = ''id''"
  by (simp_all add: sample_options_def sample_world_def sample_server_def new_server_def Let_def)

lemma sample_route [simp]: "route_for_path ''/k'' = ''kvp''"
  by (simp add: route_for_path_def ui_paths_def)

text \<open>The connection as \<open>security_headers\<close> hands it on.\<close>

definition secured :: "'db conn \<Rightarrow> 'db conn" where
  "secured c = set_header ''Content-Security-Policy'' (''default-src '' @ [CHR 0x27] @ ''self'' @ [CHR 0x27])
    (set_header ''Referrer-Policy'' ''no-referrer'' (set_header ''X-Frame-Options'' ''DENY''
      (set_header ''X-Content-Type-Options'' ''nosniff'' c)))"

lemma security_headers_secured: "security_headers h r c = h r (secured c)"
  by (simp add: security_headers_def secured_def Let_def)

lemma secured_simps [simp]:
  "fresh_writer (secured c) = fresh_writer c" "kv (secured c) = kv c" "ticks (secured c) = ticks c"
  "events (secured c) = events c" "logs (secured c) = logs c" "sent (secured c) = sent c"
  "map_of (hdr (secured c)) ''X-Request-ID'' = map_of (hdr c) ''X-Request-ID''"
  "map_of (hdr (secured c)) ''X-Commit-Mode-Warning'' = map_of (hdr c) ''X-Commit-Mode-Warning''"
  by (simp_all add: secured_def update_conv')

section \<open>Log line and metrics\<close>

lemma route_returns:
  assumes "url_path r \<noteq> []" "o_ui (opts srv) \<noteq> None"
  shows "fst (auth srv (security_headers (route srv)) r c) = Returns ()"
proof -
  have "fst (serve_ui srv r n d) = Returns ()" for n d
    using assms(2) by (auto simp: serve_ui_def Let_def split: option.split sum.split prod.split)
  then have "fst (route srv r d) = Returns ()" for d
    using assms(1) by (simp add: route_def)
  then show ?thesis by (simp add: auth_def security_headers_def Let_def)
qed

lemma limited_serves:
  assumes "rate_decision srv r w = (((ok, retry), rl), n)"
  shows "serves ((entered srv fs r w)\<lparr>ticks := n, rate := rl\<rparr>) (snd (limited srv (tagged srv r w) (entered srv fs r w)))"
  unfolding limited_entered [OF assms] by (auto simp: serves_route intro!: serves_intro)

lemma limited_returns:
  assumes "url_path r \<noteq> []" "o_ui (opts srv) \<noteq> None"
  shows "fst (limited srv (tagged srv r w) (entered srv fs r w)) = Returns ()"
proof -
  obtain ok retry rl n where d: "rate_decision srv r w = (((ok, retry), rl), n)" by (metis surj_pair)
  show ?thesis unfolding limited_entered [OF d] using assms by (simp add: route_returns)
qed

lemma epilogue_audit:
  fixes r :: request and t :: gotime
  assumes "mirrors c" "o_metrics (opts srv)"
  defines "s \<equiv> status_of (raw_write_header 200 (epilogue srv r t c))"
  shows "\<exists>d. events (epilogue srv r t c) = events c
      @ [MRequestDuration (req_method r) (route_for_path (url_path r)) (url_path r) d,
         MRequest (req_method r) (route_for_path (url_path r)) (url_path r) (int_text s)]
      @ (if 400 \<le> s then [MError (route_for_path (url_path r)) (url_path r) (int_text s)] else [])
      @ [MRequestInFlight (req_method r) (route_for_path (url_path r)) (url_path r) (- 1)]"
    "\<exists>l. logs (epilogue srv r t c) = logs c @ [LogRequest l] \<and> al_status l = s \<and> al_sent l = int (length (out c))
      \<and> al_received l = body_read c \<and> al_total l = al_sent l + al_received l \<and> al_method l = req_method r
      \<and> al_path l = url_path r \<and> al_ip l = client_ip srv r \<and> al_request_id l = ctx_id r"
proof -
  obtain s0 n where r: "recorder c = Some (s0, n)" and n: "n = int (length (out c))"
    and st: "case sent c of None \<Rightarrow> s0 = 0 \<and> out c = [] | Some (s', h) \<Rightarrow> s' = s0 \<and> s0 \<noteq> 0"
    using assms(1) by (auto simp: mirrors_def split: option.splits)
  have s: "s = (if s0 = 0 then 200 else s0)"
    using st by (auto simp: s_def status_of_def raw_write_header_def split: option.splits)
  have rec: "recorded c = (s0, n)" by (simp add: recorded_def r)
  show "\<exists>d. events (epilogue srv r t c) = events c
      @ [MRequestDuration (req_method r) (route_for_path (url_path r)) (url_path r) d,
         MRequest (req_method r) (route_for_path (url_path r)) (url_path r) (int_text s)]
      @ (if 400 \<le> s then [MError (route_for_path (url_path r)) (url_path r) (int_text s)] else [])
      @ [MRequestInFlight (req_method r) (route_for_path (url_path r)) (url_path r) (- 1)]"
    using assms(2) unfolding epilogue_def rec s by (simp add: Let_def events_emit)
  show "\<exists>l. logs (epilogue srv r t c) = logs c @ [LogRequest l] \<and> al_status l = s \<and> al_sent l = int (length (out c))
      \<and> al_received l = body_read c \<and> al_total l = al_sent l + al_received l \<and> al_method l = req_method r
      \<and> al_path l = url_path r \<and> al_ip l = client_ip srv r \<and> al_request_id l = ctx_id r"
    unfolding epilogue_def rec s by (simp add: Let_def n)
qed

definition request_key :: "'db server \<Rightarrow> request \<Rightarrow> 'db world \<Rightarrow> string" where
  "request_key srv r w = ctx_id (tagged srv r w)"

lemma entered_events:
  "o_metrics (opts srv) \<Longrightarrow> events (entered srv fs r w)
    = events w @ [MRequestInFlight (req_method r) (route_for_path (url_path r)) (url_path r) 1]"
  by (simp add: entered_def events_emit)

text \<open>C25: Every request whose handler returns leaves exactly one access line, with the
  status and byte count the client was sent, and drives the request metrics exactly
  once: the in-flight gauge up and down again around it, one duration, one count
  with that status, and one error if the status is 400 or more. Besides these there
  are only the key handlers' own events and internal-error lines.\<close>

theorem exchange_audited:
  fixes srv :: "'db server" and fs :: "bool list" and w :: "'db world"
  assumes "plain_wrap srv" "o_metrics (opts srv)" "url_path r \<noteq> []" "o_ui (opts srv) \<noteq> None"
  defines "c \<equiv> serve srv fs r w" and "m \<equiv> req_method r" and "p \<equiv> url_path r" and "rt \<equiv> route_for_path (url_path r)"
  shows "(\<exists>evs d. list_all handler_event evs \<and> events c = events w @ [MRequestInFlight m rt p 1] @ evs
      @ [MRequestDuration m rt p d, MRequest m rt p (int_text (status_of c))]
      @ (if 400 \<le> status_of c then [MError rt p (int_text (status_of c))] else []) @ [MRequestInFlight m rt p (- 1)])
    \<and> (\<exists>ls l. list_all internal_line ls \<and> logs c = logs w @ ls @ [LogRequest l] \<and> al_status l = status_of c
      \<and> al_sent l = int (length (out c)) \<and> al_total l = al_sent l + al_received l \<and> al_method l = m
      \<and> al_path l = p \<and> al_ip l = client_ip srv r \<and> al_request_id l = request_key srv r w)"
proof -
  obtain tr where tr: "\<And>c. handler srv r c = core srv (r\<lparr>trace_ids := tr\<rparr>) c"
    using handler_core [OF assms(1)] by blast
  let ?r = "r\<lparr>trace_ids := tr\<rparr>"
  obtain ok retry rl n where d: "rate_decision srv ?r w = (((ok, retry), rl), n)" by (metis surj_pair)
  define e where "e = (entered srv fs ?r w)\<lparr>ticks := n, rate := rl\<rparr>"
  obtain u x where l: "limited srv (tagged srv ?r w) (entered srv fs ?r w) = (u, x)" by (metis surj_pair)
  have u: "u = Returns ()" using limited_returns [of ?r srv w fs] assms(3,4) l by simp
  have sv: "serves e x" using limited_serves [OF d, of fs] l by (simp add: e_def)
  have "mirrors e" by (simp add: e_def fresh_mirrors)
  with sv have mir: "mirrors x" by (simp add: serves_def)
  obtain evs where evs: "events x = events w @ [MRequestInFlight m rt p 1] @ evs" "list_all handler_event evs"
    using sv assms(2) by (auto simp: serves_def e_def entered_events m_def p_def rt_def)
  obtain ls where ls: "logs x = logs w @ ls" "list_all internal_line ls"
    using sv by (auto simp: serves_def e_def)
  define y where "y = epilogue srv (tagged srv ?r w) (clk srv (ticks w)) x"
  have c: "c = raw_write_header 200 y" by (simp add: c_def serve_def tr core_open l u y_def)
  have same: "status_of (raw_write_header 200 y) = status_of c" "events c = events y" "logs c = logs y" "out c = out x"
    by (simp_all add: c y_def)
  note a = epilogue_audit [OF mir assms(2), of "tagged srv ?r w" "clk srv (ticks w)", folded y_def, unfolded same(1), simplified]
  show ?thesis
  proof
    from a(1) obtain q where "events y = events x
        @ [MRequestDuration m rt p q, MRequest m rt p (int_text (status_of c))]
        @ (if 400 \<le> status_of c then [MError rt p (int_text (status_of c))] else []) @ [MRequestInFlight m rt p (- 1)]"
      unfolding m_def p_def rt_def by auto
    with evs show "\<exists>evs d. list_all handler_event evs \<and> events c = events w @ [MRequestInFlight m rt p 1] @ evs
      @ [MRequestDuration m rt p d, MRequest m rt p (int_text (status_of c))]
      @ (if 400 \<le> status_of c then [MError rt p (int_text (status_of c))] else []) @ [MRequestInFlight m rt p (- 1)]"
      by (intro exI [of _ evs] exI [of _ q]) (simp add: same)
    from a(2) obtain l' where "logs y = logs x @ [LogRequest l']" "al_status l' = status_of c" "al_sent l' = int (length (out x))"
      "al_total l' = al_sent l' + al_received l'" "al_method l' = m" "al_path l' = p" "al_ip l' = client_ip srv r"
      "al_request_id l' = ctx_id (tagged srv ?r w)" unfolding m_def p_def by auto
    with ls show "\<exists>ls l. list_all internal_line ls \<and> logs c = logs w @ ls @ [LogRequest l] \<and> al_status l = status_of c
      \<and> al_sent l = int (length (out c)) \<and> al_total l = al_sent l + al_received l \<and> al_method l = m
      \<and> al_path l = p \<and> al_ip l = client_ip srv r \<and> al_request_id l = request_key srv r w"
      by (intro exI [of _ ls] exI [of _ l']) (simp add: same request_key_def tagged_def)
  qed
qed

theorem exchange_audited_witness:
  "let c = serve sample_server [] sample_post sample_world
   in (\<exists>evs d. list_all handler_event evs \<and> events c = events sample_world @ [MRequestInFlight ''POST'' ''kvp'' ''/k'' 1] @ evs
      @ [MRequestDuration ''POST'' ''kvp'' ''/k'' d, MRequest ''POST'' ''kvp'' ''/k'' (int_text (status_of c))]
      @ (if 400 \<le> status_of c then [MError ''kvp'' ''/k'' (int_text (status_of c))] else [])
      @ [MRequestInFlight ''POST'' ''kvp'' ''/k'' (- 1)])"
proof -
  note t = exchange_audited [of sample_server sample_post "[]" sample_world, unfolded sample_request_simps sample_route]
  show ?thesis unfolding Let_def by (rule t [THEN conjunct1]) simp_all
qed

section \<open>A panicking request\<close>

text \<open>C27: A request whose URL has an empty path (\<open>GET http://host\<close>, \<open>CONNECT\<close>), once it is
  admitted and authorised, panics in \<open>route\<close>. The client gets a 500 and the gauge is
  restored, but no access line is written and neither the request count, the
  duration nor the error counter moves; the line about the panic has the request id
  of the context outside the chain, not the one the client is sent.
\<close>

theorem panic_unaudited:
  fixes srv :: "'db server" and fs :: "bool list" and w :: "'db world"
  assumes "plain_wrap srv" "o_metrics (opts srv)" "url_path r = []" "\<not> denied srv r w"
    "o_api_key (opts srv) = [] \<or> header r ''X-API-Key'' = o_api_key (opts srv)"
  defines "c \<equiv> serve srv fs r w"
  shows "status_of c = 500
    \<and> events c = events w @ [MRequestInFlight (req_method r) ''kvp'' [] 1, MRequestInFlight (req_method r) ''kvp'' [] (- 1)]
    \<and> logs c = logs w @ [LogPanic ''runtime error: slice bounds out of range [1:0]'' (ctx_id r)]
    \<and> header_of c ''X-Request-ID'' = Some (request_key srv r w)"
proof -
  obtain tr where tr: "\<And>c. handler srv r c = core srv (r\<lparr>trace_ids := tr\<rparr>) c"
    using handler_core [OF assms(1)] by blast
  let ?r = "r\<lparr>trace_ids := tr\<rparr>"
  obtain ok retry rl n where d: "rate_decision srv ?r w = (((ok, retry), rl), n)" by (metis surj_pair)
  have ok using assms(4) d by (simp add: denied_def)
  define e where "e = (entered srv fs ?r w)\<lparr>ticks := n, rate := rl\<rparr>"
  define x where "x = secured e"
  have same: "events x = events e" "logs x = logs e" "sent x = None"
    "map_of (hdr x) ''X-Request-ID'' = map_of (hdr e) ''X-Request-ID''"
    by (simp_all add: x_def) (simp add: e_def entered_def)
  have "route srv (tagged srv ?r w) x = (Panics ''runtime error: slice bounds out of range [1:0]'', x)"
    using assms(3) by (simp add: route_def ui_paths_def)
  then have x: "limited srv (tagged srv ?r w) (entered srv fs ?r w) = (Panics ''runtime error: slice bounds out of range [1:0]'', x)"
    unfolding limited_entered [OF d] e_def [symmetric] using \<open>ok\<close> assms(5)
    by (auto simp: auth_def constant_time_equal_iff security_headers_secured x_def)
  let ?d = "log_it (LogPanic ''runtime error: slice bounds out of range [1:0]'' (ctx_id r)) ((emit srv (MRequestInFlight (req_method r) ''kvp'' [] (- 1)) x)\<lparr>recorder := None\<rparr>)"
  have c: "c = raw_write_header 200 (write_error 500 ''internal error'' ?d)"
    using assms(3) by (simp add: c_def serve_def tr core_open x route_for_path_def ui_paths_def)
  have snt: "\<exists>h. sent (write_error 500 ''internal error'' ?d) = Some (500, h) \<and> map_of h ''X-Request-ID'' = map_of (hdr x) ''X-Request-ID''"
    using same(3) by (auto simp: write_error_def Let_def resp_write_def write_header_def raw_write_def raw_write_header_def update_conv'
        split: list.split bool.split)
  have ev: "events e = events w @ [MRequestInFlight (req_method r) ''kvp'' [] 1]" "logs e = logs w"
    "map_of (hdr e) ''X-Request-ID'' = Some (request_key srv r w)"
    using assms(2,3) by (simp_all add: e_def entered_events route_for_path_def ui_paths_def request_key_def tagged_def)
  show ?thesis
    using snt same ev assms(2) unfolding c by (auto simp: status_of_def header_of_def raw_write_header_def events_emit)
qed

theorem panic_unaudited_witness:
  "let c = serve sample_server [] (sample_request ''GET'' [] ''s3'' []) sample_world
   in status_of c = 500 \<and> events c = [MRequestInFlight ''GET'' ''kvp'' [] 1, MRequestInFlight ''GET'' ''kvp'' [] (- 1)]
      \<and> logs c = [LogPanic ''runtime error: slice bounds out of range [1:0]'' []] \<and> header_of c ''X-Request-ID'' = Some ''id''"
  using panic_unaudited [of sample_server "sample_request ''GET'' [] ''s3'' []" sample_world "[]"]
  by (simp add: denied_def sample_decision(2) request_key_def tagged_def)

section \<open>Commit mode on the response\<close>

lemma header_update:
  "map_of (AList.update k v h) k' = (if k' = k then Some v else map_of h k')"
  by (simp add: update_conv')

lemma post_headers:
  assumes "fresh_writer c" "body r = (data, None)" "int (length data) \<le> o_max_body (opts srv)" "resolve_mode srv r = Some m"
    "put_with_mode (engine srv) (tz srv) (clk srv (Suc (ticks c))) k data (o_ttl (opts srv)) m (kv c) = (None, s')"
  shows "\<exists>code h. sent (serve_post srv r k c) = Some (code, h)
    \<and> map_of h ''X-Commit-Mode'' = Some (put_mode_string (if m \<noteq> PutSync \<and> \<not> caching (kv c) then PutSync else m))
    \<and> map_of h ''X-Commit-Mode-Warning'' = (if m \<noteq> PutSync \<and> \<not> caching (kv c) then Some ''memory-cache-disabled''
        else map_of (hdr c) ''X-Commit-Mode-Warning'')"
proof -
  have p: "put_with_mode (engine srv) (tz srv) (clk srv (Suc (ticks c))) k data (o_ttl (opts srv))
      (if m \<noteq> PutSync \<and> \<not> caching (kv c) then PutSync else m) (kv c) = (None, s')"
    using assms(5) by (simp only: put_downgraded)
  have snt: "sent (snd (resp_write b (write_header s d))) = Some (s, hdr d)" if "fresh_writer d" "s \<noteq> 0" for b s and d :: "'a conn"
    using answer_write(1) [OF that] .
  show ?thesis
    using assms(1-4) p
    by (simp add: serve_post_def read_limited_def read_clock_def Let_def snt header_update)
qed

text \<open>C26: A successful POST tells the client which commit mode took effect: the requested
  one (header, else the server's default), or sync with a warning when async or
  memory was asked of a server without a memory layer. The warning appears in no
  other answer to a successful POST.\<close>

theorem commit_mode_told:
  assumes "plain_wrap srv" "url_path r \<notin> set ui_paths" "req_method r = ''POST''"
    "status_of (serve srv fs r w) \<in> {201, 202}" "resolve_mode srv r = Some m"
  shows "header_of (serve srv fs r w) ''X-Commit-Mode''
      = Some (put_mode_string (if m \<noteq> PutSync \<and> \<not> caching (kv w) then PutSync else m))
    \<and> header_of (serve srv fs r w) ''X-Commit-Mode-Warning''
      = (if m \<noteq> PutSync \<and> \<not> caching (kv w) then Some ''memory-cache-disabled'' else None)"
proof -
  obtain tr where tr: "\<And>c. handler srv r c = core srv (r\<lparr>trace_ids := tr\<rparr>) c"
    using handler_core [OF assms(1)] by blast
  let ?r = "r\<lparr>trace_ids := tr\<rparr>"
  obtain n where n: "n = snd (rate_decision srv r w)" "url_path r \<noteq> []" "refusal srv r = None"
    "step (engine srv) (store_call srv r (clk srv (Suc n))) (kv w) = (RPut None, kv (serve srv fs r w))"
    by (rule posted [OF assms(1-4)])
  obtain ok retry rl where d: "rate_decision srv ?r w = (((ok, retry), rl), n)"
    using n(1) by simp (metis surj_pair snd_conv)
  have ok: ok
  proof (rule ccontr)
    assume "\<not> ok"
    then have "exchange srv r w = ((429, json_error ''rate limited''), kv w, rl)" using d by (simp add: exchange_def)
    from serve_answer(1) [OF assms(1,2) this, of fs] assms(4) show False by simp
  qed
  define e where "e = (entered srv fs ?r w)\<lparr>ticks := n, rate := rl\<rparr>"
  define x where "x = secured e"
  have x: "fresh_writer x" "ticks x = n" "kv x = kv w" "map_of (hdr x) ''X-Commit-Mode-Warning'' = None"
    by (simp_all add: x_def e_def)
  have key: "o_api_key (opts srv) = [] \<or> header r ''X-API-Key'' = o_api_key (opts srv)" "tl (url_path r) \<noteq> []"
    "\<not> o_max_key (opts srv) < int (length (tl (url_path r)))" "snd (body r) = None" "int (length (fst (body r))) \<le> o_max_body (opts srv)"
    using n(3) assms(3) by (auto simp: refusal_def Let_def split: if_splits)
  have lim: "limited srv (tagged srv ?r w) (entered srv fs ?r w) = (Returns (), serve_post srv (tagged srv ?r w) (tl (url_path r)) x)"
  proof -
    have "route srv (tagged srv ?r w) x = (Returns (), serve_post srv (tagged srv ?r w) (tl (url_path r)) x)"
      using key n(2) assms(2,3) by (simp add: route_def serve_key_direct_def)
    with ok key(1) show ?thesis unfolding limited_entered [OF d] e_def [symmetric]
      by (auto simp: auth_def constant_time_equal_iff security_headers_secured x_def)
  qed
  have "put_with_mode (engine srv) (tz srv) (clk srv (Suc (ticks x))) (tl (url_path r)) (fst (body r)) (o_ttl (opts srv)) m (kv x)
      = (None, kv (serve srv fs r w))"
    using n(4) assms(3,5) by (auto simp: store_call_def x split: prod.splits)
  then obtain code h where h: "sent (serve_post srv (tagged srv ?r w) (tl (url_path r)) x) = Some (code, h)"
    "map_of h ''X-Commit-Mode'' = Some (put_mode_string (if m \<noteq> PutSync \<and> \<not> caching (kv w) then PutSync else m))"
    "map_of h ''X-Commit-Mode-Warning'' = (if m \<noteq> PutSync \<and> \<not> caching (kv w) then Some ''memory-cache-disabled'' else None)"
    using post_headers [OF x(1), of "tagged srv ?r w" "fst (body r)" srv m "tl (url_path r)"] key(4,5) assms(5)
    by (cases "body r") (auto simp: x tagged_def)
  have "sent (serve srv fs r w) = Some (code, h)"
    using h(1) by (simp add: serve_def tr core_open lim raw_write_header_def)
  with h show ?thesis by (simp add: header_of_def)
qed

theorem commit_mode_told_witness:
  "header_of (serve sample_server [] sample_post sample_world) ''X-Commit-Mode''
      = Some (put_mode_string (if PutAsync \<noteq> PutSync \<and> \<not> caching (kv sample_world) then PutSync else PutAsync))
    \<and> header_of (serve sample_server [] sample_post sample_world) ''X-Commit-Mode-Warning''
      = (if PutAsync \<noteq> PutSync \<and> \<not> caching (kv sample_world) then Some ''memory-cache-disabled'' else None)"
proof (rule commit_mode_told)
  have path: "url_path sample_post \<notin> set ui_paths" by (simp add: ui_paths_def)
  then show "url_path sample_post \<notin> set ui_paths" .
  show "status_of (serve sample_server [] sample_post sample_world) \<in> {201, 202}"
    using serve_answer(1) [OF sample_server_simps(6) path sample_posted, of "[]"] by simp
  show "resolve_mode sample_server sample_post = Some PutAsync" by (simp add: resolve_mode_def sample_request_def)
qed simp_all

section \<open>Who a request is attributed to\<close>

lemma any_contains_iff: "any_contains ps ip \<longleftrightarrow> (\<exists>p \<in> set ps. prefix_contains p ip)"
  by (induction ps) auto

text \<open>C30: A peer outside the trusted networks cannot choose the address it is limited and
  logged under: whatever headers it sends, the client address is the host of its
  connection (IPv6 and zones included).\<close>

theorem client_ip_untrusted:
  assumes "remote_addr r = join_host_port h p"
    "set h \<inter> {CHR ''['', CHR '']''} = {}" "set p \<inter> {CHR '':'', CHR ''['', CHR '']''} = {}"
    "\<And>ip q. parse_addr h = Some ip \<Longrightarrow> q \<in> set (o_trusted (opts srv)) \<Longrightarrow> \<not> prefix_contains q ip"
  shows "client_ip srv (r\<lparr>header := hs\<rparr>) = h"
proof -
  have "\<not> peer_trusted srv h"
    using assms(4) by (auto simp: peer_trusted_def any_contains_iff split: option.splits)
  then show ?thesis using split_join_host_port [OF assms(2,3)] assms(1) by (simp add: client_ip_def)
qed

theorem client_ip_untrusted_witness:
  "client_ip sample_server ((sample_request ''GET'' ''/k'' ''s3'' [])\<lparr>remote_addr := ''[::1]:80'', header := (\<lambda>_. ''8.8.8.8'')\<rparr>) = ''::1''"
  using client_ip_untrusted [of "(sample_request ''GET'' ''/k'' ''s3'' [])\<lparr>remote_addr := ''[::1]:80''\<rparr>" "''::1''" "''80''"
      sample_server "\<lambda>_. ''8.8.8.8''"]
  by (simp add: join_host_port_def sample_options_def)

text \<open>From a trusted peer the first element of \<open>X-Forwarded-For\<close>, trimmed, is the
  client address, whatever proxies appended after it.
\<close>

theorem client_ip_forwarded:
  assumes "remote_addr r = join_host_port h p"
    "set h \<inter> {CHR ''['', CHR '']''} = {}" "set p \<inter> {CHR '':'', CHR ''['', CHR '']''} = {}"
    "parse_addr h = Some ip" "q \<in> set (o_trusted (opts srv))" "prefix_contains q ip"
    "header r ''X-Forwarded-For'' = a @ CHR '','' # rest" "CHR '','' \<notin> set a" "trim_space a \<noteq> []"
  shows "client_ip srv r = trim_space a"
proof -
  have "peer_trusted srv h" using assms(4-6) by (auto simp: peer_trusted_def any_contains_iff)
  moreover have "forwarded_ip r = Some (trim_space a)"
    using assms(7-9) by (simp add: forwarded_ip_def split_on_append Let_def)
  ultimately show ?thesis using split_join_host_port [OF assms(2,3)] assms(1) by (simp add: client_ip_def)
qed

theorem client_ip_forwarded_witness:
  "client_ip (sample_server\<lparr>opts := sample_options\<lparr>o_trusted := [\<lparr>p_ip = V4 167772160, p_bits = 8\<rparr>]\<rparr>\<rparr>)
     ((sample_request ''GET'' ''/k'' ''s3'' [])\<lparr>header := (\<lambda>_. '' 8.8.8.8 , 10.0.0.9'')\<rparr>) = trim_space '' 8.8.8.8 ''"
proof (rule client_ip_forwarded)
  show "remote_addr ((sample_request ''GET'' ''/k'' ''s3'' [])\<lparr>header := (\<lambda>_. '' 8.8.8.8 , 10.0.0.9'')\<rparr>)
    = join_host_port ''10.0.0.1'' ''80''" by (simp add: sample_request_def join_host_port_def)
  show "parse_addr ''10.0.0.1'' = Some (V4 167772161)" by code_simp
  show "\<lparr>p_ip = V4 167772160, p_bits = 8\<rparr> \<in> set (o_trusted (opts (sample_server\<lparr>opts := sample_options\<lparr>o_trusted := [\<lparr>p_ip = V4 167772160, p_bits = 8\<rparr>]\<rparr>\<rparr>)))"
    by simp
  show "prefix_contains \<lparr>p_ip = V4 167772160, p_bits = 8\<rparr> (V4 167772161)" by code_simp
  show "header ((sample_request ''GET'' ''/k'' ''s3'' [])\<lparr>header := (\<lambda>_. '' 8.8.8.8 , 10.0.0.9'')\<rparr>) ''X-Forwarded-For''
    = '' 8.8.8.8 '' @ CHR '','' # '' 10.0.0.9''" by simp
  show "trim_space '' 8.8.8.8 '' \<noteq> []" by code_simp
qed simp_all

text \<open>The constant-time comparison of the API key decides equality.\<close>

theorem constant_time_compare: "constant_time_equal a b \<longleftrightarrow> a = b"
  by (rule constant_time_equal_iff)

end
