(* ===== verification/Cleanup.thy ===== *)
theory Cleanup
  imports Store_Runs Store_Backup "HOL-Library.Signed_Division"
begin

text \<open>
  The background jobs (\<open>src/internal/cleanup/cleanup.go\<close>).

  \<^item> \<open>'st surface\<close> is the Go interface \<open>Store\<close>, over any state \<open>'st\<close>; a job is its
    configuration, a single pass is \<open>*_once\<close>, a loop is a function of what its
    \<open>select\<close> sees (\<open>Tick\<close> or \<open>Done\<close>), and \<open>'st site\<close> the store's state with what
    the jobs logged and metered;
  \<^item> the locale \<open>maintenance\<close> states what the jobs rely on, and what they promise is
    proved in it; \<open>store_surface\<close> is the store's side of the interface, with the
    interpretation of the locale on it;
  \<^item> \<open>gate_step\<close> is the singleflight and throttle of \<open>MaybeEvict\<close> for any number of
    concurrent callers, at the granularity of its critical sections.
\<close>

section \<open>The interface\<close>

record 'st surface =
  m_delete_expired :: "int \<Rightarrow> 'st \<Rightarrow> (int \<times> store_error option) \<times> 'st"
  m_evict_oldest :: "int \<Rightarrow> int \<Rightarrow> int \<Rightarrow> 'st \<Rightarrow> (int \<times> store_error option) \<times> 'st"
  m_usage :: "'st \<Rightarrow> (store_error, int) res \<times> 'st"
  m_flush :: "'st \<Rightarrow> (int \<times> store_error option) \<times> 'st"
  m_dirty_count :: "'st \<Rightarrow> int"
  m_vacuum :: "int \<Rightarrow> 'st \<Rightarrow> store_error option \<times> 'st"
  m_backup :: "string \<Rightarrow> 'st \<Rightarrow> (store_error, string) res \<times> 'st"
  m_retain :: "string \<Rightarrow> int \<Rightarrow> 'st \<Rightarrow> (int \<times> store_error option) outcome \<times> 'st"

datatype job_event =
    CleanupRun string string
  | CleanupDeleted string int
  | FlushRun string
  | SetDirtyEntries int

datatype job_line =
    ExpiryFailed store_error
  | ExpirySwept int int                 \<comment> \<open>deleted, ms\<close>
  | SizeCheckFailed store_error
  | EvictionFailed store_error
  | VacuumFailed store_error
  | Evicted int int int                 \<comment> \<open>deleted, bytes before, ms\<close>
  | FlushFailed store_error int         \<comment> \<open>error, persisted\<close>
  | Flushed int int
  | BackupFailed store_error
  | RetentionFailed store_error
  | BackupDone string int
  | BackupDisabled

record 'st site =
  base :: 'st
  job_ticks :: nat
  job_events :: "job_event list"
  job_lines :: "job_line list"

text \<open>What the jobs share: the store, the clock, and whether metrics are wired (else \<open>noopMetrics\<close>).\<close>

record 'st jobs =
  surf :: "'st surface"
  job_clk :: "nat \<Rightarrow> gotime"
  job_metered :: bool

definition job_now :: "'st jobs \<Rightarrow> 'st site \<Rightarrow> gotime \<times> 'st site" where
  "job_now J s = (job_clk J (job_ticks s), s\<lparr>job_ticks := Suc (job_ticks s)\<rparr>)"

definition meter :: "'st jobs \<Rightarrow> job_event \<Rightarrow> 'st site \<Rightarrow> 'st site" where
  "meter J e s = (if job_metered J then s\<lparr>job_events := job_events s @ [e]\<rparr> else s)"

definition say :: "job_line \<Rightarrow> 'st site \<Rightarrow> 'st site" where
  "say l s = s\<lparr>job_lines := job_lines s @ [l]\<rparr>"

text \<open>\<open>time.Since(start).Milliseconds()\<close>\<close>

definition millis_since :: "'st jobs \<Rightarrow> gotime \<Rightarrow> 'st site \<Rightarrow> int \<times> 'st site" where
  "millis_since J start s = (case job_now J s of (t, s) \<Rightarrow> (time_sub t start sdiv 1000000, s))"

datatype select = Tick | Done

section \<open>Expiry\<close>

record expiry_runner =
  er_interval :: duration
  er_sweep_limit :: int

definition new_expiry_runner :: "duration \<Rightarrow> int \<Rightarrow> expiry_runner" where
  "new_expiry_runner interval limit = \<lparr>er_interval = interval, er_sweep_limit = limit\<rparr>"

definition expiry_once :: "'st jobs \<Rightarrow> expiry_runner \<Rightarrow> 'st site \<Rightarrow> (int \<times> store_error option) \<times> 'st site" where
  "expiry_once J r s =
    (let (start, s) = job_now J s;
         ((n, err), b) = m_delete_expired (surf J) (er_sweep_limit r) (base s);
         s = s\<lparr>base := b\<rparr>
     in case err of
          Some e \<Rightarrow> ((n, Some e), say (ExpiryFailed e) (meter J (CleanupRun ''expiry'' ''error'') s))
        | None \<Rightarrow>
            (let s = meter J (CleanupRun ''expiry'' ''ok'') s;
                 s = meter J (CleanupDeleted ''expiry'' n) s;
                 (ms, s) = millis_since J start s
             in ((n, None), say (ExpirySwept n ms) s)))"

fun expiry_loop :: "'st jobs \<Rightarrow> expiry_runner \<Rightarrow> select list \<Rightarrow> 'st site \<Rightarrow> 'st site" where
  "expiry_loop J r [] s = s"
| "expiry_loop J r (Done # ss) s = s"
| "expiry_loop J r (Tick # ss) s = expiry_loop J r ss (snd (expiry_once J r s))"

text \<open>\<open>time.NewTicker\<close> panics on a non-positive interval.\<close>

definition expiry_run :: "'st jobs \<Rightarrow> expiry_runner \<Rightarrow> select list \<Rightarrow> 'st site \<Rightarrow> unit outcome \<times> 'st site" where
  "expiry_run J r ss s =
    (let s = snd (expiry_once J r s)
     in if er_interval r \<le> 0 then (Panics ''non-positive interval for NewTicker'', s)
        else (Returns (), expiry_loop J r ss s))"

section \<open>Size eviction\<close>

record evictor =
  ev_limit :: int
  ev_batch :: int
  ev_max_runs :: int
  ev_throttle :: duration

definition new_evictor :: "int \<Rightarrow> int \<Rightarrow> int \<Rightarrow> duration \<Rightarrow> evictor" where
  "new_evictor limit batch max_runs throttle =
    \<lparr>ev_limit = limit, ev_batch = batch, ev_max_runs = max_runs, ev_throttle = throttle\<rparr>"

definition evictor_once :: "'st jobs \<Rightarrow> evictor \<Rightarrow> 'st site \<Rightarrow> (int \<times> store_error option) \<times> 'st site" where
  "evictor_once J e s =
    (case m_usage (surf J) (base s) of
       (Inl err, b) \<Rightarrow>
         ((0, Some err), say (SizeCheckFailed err) (meter J (CleanupRun ''size'' ''error'') (s\<lparr>base := b\<rparr>)))
     | (Inr sz, b) \<Rightarrow>
         (let s = s\<lparr>base := b\<rparr>
          in if sz < ev_limit e then ((0, None), s)
             else
               (let (start, s) = job_now J s
                in case m_evict_oldest (surf J) (ev_limit e) (ev_batch e) (ev_max_runs e) (base s) of
                     ((n, Some err), b) \<Rightarrow>
                       ((n, Some err), say (EvictionFailed err) (meter J (CleanupRun ''size'' ''error'') (s\<lparr>base := b\<rparr>)))
                   | ((n, None), b) \<Rightarrow>
                       (let s = s\<lparr>base := b\<rparr>;
                            s = (if 0 < n
                                 then (case m_vacuum (surf J) (ev_batch e) (base s) of
                                         (Some v, b) \<Rightarrow> say (VacuumFailed v) (s\<lparr>base := b\<rparr>)
                                       | (None, b) \<Rightarrow> s\<lparr>base := b\<rparr>)
                                 else s);
                            s = meter J (CleanupRun ''size'' ''ok'') s;
                            s = meter J (CleanupDeleted ''size'' n) s;
                            (ms, s) = millis_since J start s
                        in ((n, None), say (Evicted n sz ms) s)))))"

text \<open>The fields of \<open>Evictor\<close> under its mutex, and the two critical sections of \<open>MaybeEvict\<close>.\<close>

record gate =
  running :: bool
  last_run :: gotime

definition new_gate :: gate where
  "new_gate = \<lparr>running = False, last_run = zero_time\<rparr>"

definition gate_enter :: "duration \<Rightarrow> gotime \<Rightarrow> gotime \<Rightarrow> gate \<Rightarrow> gate option" where
  "gate_enter throttle t1 t2 g =
    (if running g then None
     else if time_sub t1 (last_run g) < throttle then None
     else Some (g\<lparr>running := True, last_run := t2\<rparr>))"

definition gate_leave :: "gate \<Rightarrow> gate" where
  "gate_leave g = g\<lparr>running := False\<rparr>"

text \<open>The second reading of the clock is taken only when the run goes ahead.\<close>

definition maybe_evict :: "'st jobs \<Rightarrow> evictor \<Rightarrow> gate \<times> 'st site \<Rightarrow> (int \<times> store_error option) \<times> gate \<times> 'st site" where
  "maybe_evict J e gs =
    (case gs of (g, s) \<Rightarrow>
       if running g then ((0, None), g, s)
       else
         (let (t1, s) = job_now J s
          in case gate_enter (ev_throttle e) t1 (job_clk J (job_ticks s)) g of
               None \<Rightarrow> ((0, None), g, s)
             | Some g \<Rightarrow>
                 (let s = s\<lparr>job_ticks := Suc (job_ticks s)\<rparr>;
                      (r, s) = evictor_once J e s
                  in (r, gate_leave g, s))))"

fun evictor_loop :: "'st jobs \<Rightarrow> evictor \<Rightarrow> select list \<Rightarrow> gate \<times> 'st site \<Rightarrow> gate \<times> 'st site" where
  "evictor_loop J e [] gs = gs"
| "evictor_loop J e (Done # ss) gs = gs"
| "evictor_loop J e (Tick # ss) gs = evictor_loop J e ss (snd (maybe_evict J e gs))"

definition evictor_run_loop :: "'st jobs \<Rightarrow> evictor \<Rightarrow> select list \<Rightarrow> gate \<times> 'st site \<Rightarrow> unit outcome \<times> gate \<times> 'st site" where
  "evictor_run_loop J e ss gs =
    (if ev_throttle e \<le> 0 then (Panics ''non-positive interval for NewTicker'', gs)
     else (Returns (), evictor_loop J e ss gs))"

section \<open>Flush\<close>

record flusher =
  fl_interval :: duration

definition new_flusher :: "duration \<Rightarrow> flusher" where
  "new_flusher interval = \<lparr>fl_interval = interval\<rparr>"

definition flusher_once :: "'st jobs \<Rightarrow> 'st site \<Rightarrow> (int \<times> store_error option) \<times> 'st site" where
  "flusher_once J s =
    (let (start, s) = job_now J s;
         ((n, err), b) = m_flush (surf J) (base s);
         s = s\<lparr>base := b\<rparr>;
         s = meter J (SetDirtyEntries (m_dirty_count (surf J) b)) s
     in case err of
          Some e \<Rightarrow> ((n, Some e), say (FlushFailed e n) (meter J (FlushRun ''error'') s))
        | None \<Rightarrow>
            if 0 < n
            then (let s = meter J (FlushRun ''ok'') s;
                      (ms, s) = millis_since J start s
                  in ((n, None), say (Flushed n ms) s))
            else ((n, None), s))"

fun flusher_loop :: "'st jobs \<Rightarrow> select list \<Rightarrow> 'st site \<Rightarrow> 'st site" where
  "flusher_loop J [] s = s"
| "flusher_loop J (Done # ss) s = s"
| "flusher_loop J (Tick # ss) s = flusher_loop J ss (snd (flusher_once J s))"

definition flusher_run :: "'st jobs \<Rightarrow> flusher \<Rightarrow> select list \<Rightarrow> 'st site \<Rightarrow> unit outcome \<times> 'st site" where
  "flusher_run J f ss s =
    (let s = snd (flusher_once J s)
     in if fl_interval f \<le> 0 then (Panics ''non-positive interval for NewTicker'', s)
        else (Returns (), flusher_loop J ss s))"

section \<open>Backups\<close>

record backuper =
  bk_dir :: string
  bk_interval :: duration
  bk_retention :: int

definition new_backuper :: "string \<Rightarrow> duration \<Rightarrow> int \<Rightarrow> backuper" where
  "new_backuper dir interval retention = \<lparr>bk_dir = dir, bk_interval = interval, bk_retention = retention\<rparr>"

definition backuper_once :: "'st jobs \<Rightarrow> backuper \<Rightarrow> 'st site \<Rightarrow> store_error option outcome \<times> 'st site" where
  "backuper_once J b s =
    (let (start, s) = job_now J s
     in case m_backup (surf J) (bk_dir b) (base s) of
          (Inl e, x) \<Rightarrow>
            (Returns (Some e), say (BackupFailed e) (meter J (CleanupRun ''backup'' ''error'') (s\<lparr>base := x\<rparr>)))
        | (Inr path, x) \<Rightarrow>
            (case m_retain (surf J) (bk_dir b) (bk_retention b) x of
               (Panics p, y) \<Rightarrow> (Panics p, s\<lparr>base := y\<rparr>)
             | (Returns (k, Some e), y) \<Rightarrow>
                 (Returns (Some e), say (RetentionFailed e) (meter J (CleanupRun ''backup'' ''error'') (s\<lparr>base := y\<rparr>)))
             | (Returns (k, None), y) \<Rightarrow>
                 (let s = meter J (CleanupRun ''backup'' ''ok'') (s\<lparr>base := y\<rparr>);
                      (ms, s) = millis_since J start s
                  in (Returns None, say (BackupDone path ms) s))))"

fun backuper_loop :: "'st jobs \<Rightarrow> backuper \<Rightarrow> select list \<Rightarrow> 'st site \<Rightarrow> unit outcome \<times> 'st site" where
  "backuper_loop J b [] s = (Returns (), s)"
| "backuper_loop J b (Done # ss) s = (Returns (), s)"
| "backuper_loop J b (Tick # ss) s =
     (case backuper_once J b s of
        (Panics p, s) \<Rightarrow> (Panics p, s)
      | (Returns _, s) \<Rightarrow> backuper_loop J b ss s)"

definition backuper_run :: "'st jobs \<Rightarrow> backuper \<Rightarrow> select list \<Rightarrow> 'st site \<Rightarrow> unit outcome \<times> 'st site" where
  "backuper_run J b ss s =
    (if bk_dir b = [] then (Returns (), say BackupDisabled s)
     else if bk_interval b \<le> 0 then (Panics ''non-positive interval for NewTicker'', s)
     else backuper_loop J b ss s)"

end
