(* ===== verification/Cleanup_Laws.thy ===== *)
theory Cleanup_Laws
  imports Cleanup
begin

text \<open>
  What the jobs promise: the locale \<open>maintenance\<close> with the laws of the interface and
  the jobs' lemmas, the store as a provider of it, and the exclusion and spacing of
  eviction runs.
\<close>

section \<open>The laws of the interface\<close>

text \<open>
  \<open>contents\<close> is what the store holds for its readers, \<open>present\<close> its clock. A sweep
  removes nothing that is still live when it ends; an eviction only removes; the
  other calls change nothing a reader sees.
\<close>

locale maintenance =
  fixes S :: "'st surface" and inv :: "'st \<Rightarrow> bool" and contents :: "'st \<Rightarrow> ttl_map" and present :: "'st \<Rightarrow> gotime"
  assumes sweep: "inv st \<Longrightarrow> m_delete_expired S l st = (r, st') \<Longrightarrow> inv st' \<and> contents st' \<subseteq>\<^sub>m contents st
      \<and> live (present st') (contents st') = live (present st') (contents st) \<and> ns (present st) \<le> ns (present st')"
    and evict: "inv st \<Longrightarrow> m_evict_oldest S l b k st = (r, st') \<Longrightarrow> inv st' \<and> contents st' \<subseteq>\<^sub>m contents st
      \<and> ns (present st) \<le> ns (present st')"
    and usage_same: "inv st \<Longrightarrow> m_usage S st = (u, st') \<Longrightarrow> inv st' \<and> contents st' = contents st \<and> ns (present st) \<le> ns (present st')"
    and flush_same: "inv st \<Longrightarrow> m_flush S st = (r, st') \<Longrightarrow> inv st' \<and> contents st' = contents st \<and> ns (present st) \<le> ns (present st')"
    and vacuum_same: "inv st \<Longrightarrow> m_vacuum S b st = (v, st') \<Longrightarrow> inv st' \<and> contents st' = contents st \<and> ns (present st) \<le> ns (present st')"
    and backup_same: "inv st \<Longrightarrow> m_backup S d st = (p, st') \<Longrightarrow> inv st' \<and> contents st' = contents st \<and> ns (present st) \<le> ns (present st')"
    and retain_same: "inv st \<Longrightarrow> m_retain S d b st = (q, st') \<Longrightarrow> inv st' \<and> contents st' = contents st \<and> ns (present st) \<le> ns (present st')"

text \<open>Four jobs; a run interleaves their passes.\<close>

datatype job = JobExpiry expiry_runner | JobFlush | JobBackup backuper | JobEvict evictor

fun job_pass :: "'st jobs \<Rightarrow> job \<Rightarrow> gate \<times> 'st site \<Rightarrow> gate \<times> 'st site" where
  "job_pass J (JobExpiry r) (g, s) = (g, snd (expiry_once J r s))"
| "job_pass J JobFlush (g, s) = (g, snd (flusher_once J s))"
| "job_pass J (JobBackup b) (g, s) = (g, snd (backuper_once J b s))"
| "job_pass J (JobEvict e) (g, s) = snd (maybe_evict J e (g, s))"

fun is_evict_job :: "job \<Rightarrow> bool" where
  "is_evict_job (JobEvict e) = True"
| "is_evict_job _ = False"

definition run_jobs :: "'st jobs \<Rightarrow> job list \<Rightarrow> gate \<times> 'st site \<Rightarrow> gate \<times> 'st site" where
  "run_jobs J js gs = fold (job_pass J) js gs"

lemma site_frames [simp]:
  "base (snd (job_now J s)) = base s" "base (meter J e s) = base s" "base (say l s) = base s"
  "base (snd (millis_since J t s)) = base s"
  by (simp_all add: job_now_def meter_def say_def millis_since_def)

text \<open>What readers can tell: the live part of the contents from \<open>present\<close> on.\<close>

definition readers_agree :: "gotime \<Rightarrow> ttl_map \<Rightarrow> ttl_map \<Rightarrow> bool" where
  "readers_agree t m m' \<longleftrightarrow> (\<forall>u. ns t \<le> ns u \<longrightarrow> live u m' = live u m)"

lemma readers_agree_refl [simp]: "readers_agree t m m"
  by (simp add: readers_agree_def)

lemma readers_agree_trans:
  "readers_agree t m m1 \<Longrightarrow> readers_agree u m1 m2 \<Longrightarrow> ns t \<le> ns u \<Longrightarrow> readers_agree u m m2"
  by (simp add: readers_agree_def)

lemma readers_agree_later: "readers_agree t m m' \<Longrightarrow> ns t \<le> ns u \<Longrightarrow> readers_agree u m m'"
  by (simp add: readers_agree_def)

context maintenance
begin

definition step_ok :: "'st \<Rightarrow> 'st \<Rightarrow> bool" where
  "step_ok st st' \<longleftrightarrow> inv st' \<and> contents st' \<subseteq>\<^sub>m contents st \<and> ns (present st) \<le> ns (present st')"

definition step_quiet :: "'st \<Rightarrow> 'st \<Rightarrow> bool" where
  "step_quiet st st' \<longleftrightarrow> step_ok st st' \<and> readers_agree (present st') (contents st) (contents st')"

lemma quiet_ok: "step_quiet st st' \<Longrightarrow> step_ok st st'"
  by (simp add: step_quiet_def)

lemma ok_trans: "step_ok st st1 \<Longrightarrow> step_ok st1 st2 \<Longrightarrow> step_ok st st2"
  by (auto simp: step_ok_def intro: map_le_trans)

lemma quiet_trans: "step_quiet st st1 \<Longrightarrow> step_quiet st1 st2 \<Longrightarrow> step_quiet st st2"
  using ok_trans by (auto simp: step_quiet_def step_ok_def intro: readers_agree_trans)

lemma quiet_refl: "inv st \<Longrightarrow> step_quiet st st"
  by (simp add: step_quiet_def step_ok_def)

lemma same_quiet:
  "inv st' \<and> contents st' = contents st \<and> ns (present st) \<le> ns (present st') \<Longrightarrow> step_quiet st st'"
  by (simp add: step_quiet_def step_ok_def)

lemma sweep_quiet: "inv st \<Longrightarrow> m_delete_expired S l st = (r, st') \<Longrightarrow> step_quiet st st'"
proof -
  assume "inv st" "m_delete_expired S l st = (r, st')"
  note sw = sweep [OF this]
  have "live u (contents st') = live u (contents st)" if "ns (present st') \<le> ns u" for u
    using live_later [of "present st'" "contents st" "contents st'" u] sw that by (simp add: after_def)
  with sw show ?thesis by (simp add: step_quiet_def step_ok_def readers_agree_def)
qed

lemmas same_calls = usage_same [THEN same_quiet] flush_same [THEN same_quiet] vacuum_same [THEN same_quiet]
  backup_same [THEN same_quiet] retain_same [THEN same_quiet]

lemma expiry_once_quiet: "inv (base s) \<Longrightarrow> surf J = S \<Longrightarrow> step_quiet (base s) (base (snd (expiry_once J r s)))"
  using sweep_quiet [of "base s" "er_sweep_limit r"]
  by (cases "m_delete_expired S (er_sweep_limit r) (base s)")
    (auto simp: expiry_once_def Let_def case_prod_beta split: option.split)

lemma flusher_once_quiet: "inv (base s) \<Longrightarrow> surf J = S \<Longrightarrow> step_quiet (base s) (base (snd (flusher_once J s)))"
  using same_calls(2) [of "base s"]
  by (cases "m_flush S (base s)") (auto simp: flusher_once_def Let_def case_prod_beta split: option.split)

lemma backuper_once_quiet:
  assumes "inv (base s)" "surf J = S"
  shows "step_quiet (base s) (base (snd (backuper_once J b s)))"
proof -
  obtain p x where p: "m_backup S (bk_dir b) (base s) = (p, x)" by (metis surj_pair)
  obtain q y where q: "m_retain S (bk_dir b) (bk_retention b) x = (q, y)" by (metis surj_pair)
  have x: "step_quiet (base s) x" by (rule same_calls(4) [OF assms(1) p])
  then have "inv x" by (simp add: step_quiet_def step_ok_def)
  then have y: "step_quiet x y" using q by (rule same_calls(5))
  show ?thesis
    using x quiet_trans [OF x y] assms(2) p q
    by (cases p; cases q) (auto simp: backuper_once_def Let_def case_prod_beta split: option.split prod.split)
qed

lemma evictor_once_ok:
  assumes "inv (base s)" "surf J = S"
  shows "step_ok (base s) (base (snd (evictor_once J e s)))"
proof -
  obtain u a where u: "m_usage S (base s) = (u, a)" by (metis surj_pair)
  have a: "step_ok (base s) a" by (rule quiet_ok [OF same_calls(1) [OF assms(1) u]])
  obtain n err b where b: "m_evict_oldest S (ev_limit e) (ev_batch e) (ev_max_runs e) a = ((n, err), b)" by (metis surj_pair)
  have "step_ok a b" using evict [OF _ b] a by (simp add: step_ok_def)
  then have ab: "step_ok (base s) b" using a ok_trans by blast
  obtain v c where c: "m_vacuum S (ev_batch e) b = (v, c)" by (metis surj_pair)
  have "step_ok b c" using ab quiet_ok [OF same_calls(3) [OF _ c]] by (simp add: step_ok_def)
  then have ac: "step_ok (base s) c" using ab ok_trans by blast
  show ?thesis
    using a ab ac assms(2) u b c
    by (cases u; cases err; cases v) (auto simp: evictor_once_def Let_def case_prod_beta)
qed

lemma job_pass_ok:
  assumes "inv (base s)" "surf J = S" "job_pass J j (g, s) = (g', s')"
  shows "step_ok (base s) (base s')" "\<not> is_evict_job j \<Longrightarrow> step_quiet (base s) (base s')"
proof -
  have q: "step_quiet (base s) (base s')" if "\<not> is_evict_job j"
    using assms(3) that expiry_once_quiet [OF assms(1,2)] flusher_once_quiet [OF assms(1,2)] backuper_once_quiet [OF assms(1,2)]
    by (cases j) auto
  then show "\<not> is_evict_job j \<Longrightarrow> step_quiet (base s) (base s')" .
  show "step_ok (base s) (base s')"
  proof (cases j)
    case (JobEvict e)
    have "step_ok (base s) (base s)" by (rule quiet_ok [OF quiet_refl [OF assms(1)]])
    moreover have "base (t\<lparr>job_ticks := i\<rparr>) = base t" for t :: "'st site" and i by simp
    ultimately show ?thesis
      using assms(3) JobEvict evictor_once_ok [of "(snd (job_now J s))\<lparr>job_ticks := Suc (job_ticks (snd (job_now J s)))\<rparr>" J e] assms(1,2)
      by (auto simp: maybe_evict_def Let_def case_prod_beta split: if_splits option.splits)
  qed (use q in \<open>simp_all add: quiet_ok\<close>)
qed

text \<open>Any interleaving of the jobs: readers lose nothing but what evictions take.\<close>

lemma run_jobs_ok:
  assumes "inv (base s)" "surf J = S" "run_jobs J js (g, s) = (g', s')"
  shows "step_ok (base s) (base s')" "list_all (\<lambda>j. \<not> is_evict_job j) js \<Longrightarrow> step_quiet (base s) (base s')"
proof -
  have "step_ok (base s) (base s') \<and> (list_all (\<lambda>j. \<not> is_evict_job j) js \<longrightarrow> step_quiet (base s) (base s'))"
    using assms(1,3)
  proof (induction js arbitrary: g s)
    case Nil
    then show ?case using quiet_refl quiet_ok by (auto simp: run_jobs_def)
  next
    case (Cons j js)
    obtain g1 s1 where j: "job_pass J j (g, s) = (g1, s1)" by (metis surj_pair)
    note p = job_pass_ok [OF Cons.prems(1) assms(2) j]
    have "inv (base s1)" using p(1) by (simp add: step_ok_def)
    then have "step_ok (base s1) (base s') \<and> (list_all (\<lambda>j. \<not> is_evict_job j) js \<longrightarrow> step_quiet (base s1) (base s'))"
      using Cons.prems(2) j by (intro Cons.IH) (simp_all add: run_jobs_def)
    then show ?case using p ok_trans quiet_trans by auto
  qed
  then show "step_ok (base s) (base s')" "list_all (\<lambda>j. \<not> is_evict_job j) js \<Longrightarrow> step_quiet (base s) (base s')"
    by simp_all
qed

end

section \<open>The store as a provider\<close>

text \<open>
  \<open>*store.Store\<close> behind the interface: the store, the file system, the process clock
  (readings so far in \<open>in_ticks\<close>), and the orders in which the runtime will range
  over the maps, one per call.
\<close>

record ('db, 'fs) instance_state =
  in_store :: "'db store"
  in_files :: 'fs
  in_clock :: "nat \<Rightarrow> gotime"
  in_ticks :: nat
  in_entries :: "nat \<Rightarrow> entries_order"
  in_keys :: "nat \<Rightarrow> key list \<Rightarrow> key list"

definition in_now :: "('db, 'fs) instance_state \<Rightarrow> gotime" where
  "in_now st = in_clock st (in_ticks st)"

definition in_update :: "'db store \<Rightarrow> ('db, 'fs) instance_state \<Rightarrow> ('db, 'fs) instance_state" where
  "in_update s st = st\<lparr>in_store := s, in_ticks := Suc (in_ticks st)\<rparr>"

definition store_surface :: "'db sqlite \<Rightarrow> 'fs files \<Rightarrow> ('db, 'fs) instance_state surface" where
  "store_surface E F = \<lparr>
     m_delete_expired = (\<lambda>limit st. case delete_expired E (in_entries st (in_ticks st)) (in_now st) limit (in_store st) of
        (r, s) \<Rightarrow> (r, in_update s st)),
     m_evict_oldest = (\<lambda>limit batch max_runs st.
        case evict_oldest E (\<lambda>i. in_entries st (in_ticks st + i)) limit batch max_runs (in_store st) of
          (r, s) \<Rightarrow> (r, in_update s st)),
     m_usage = (\<lambda>st. case usage E (in_store st) of (r, s) \<Rightarrow> (r, in_update s st)),
     m_flush = (\<lambda>st. case flush E (in_keys st (in_ticks st)) (in_store st) of (r, s) \<Rightarrow> (r, in_update s st)),
     m_dirty_count = (\<lambda>st. dirty_count (in_store st)),
     m_vacuum = (\<lambda>n st. case incremental_vacuum E n (in_store st) of (r, s) \<Rightarrow> (r, in_update s st)),
     m_backup = (\<lambda>dir st. case backup E F (in_now st) dir (in_store st) (in_files st) of
        (r, s, fs) \<Rightarrow> (r, (in_update s st)\<lparr>in_files := fs\<rparr>)),
     m_retain = (\<lambda>dir n st. case retain_backups F dir n (in_files st) of
        (r, fs) \<Rightarrow> (r, st\<lparr>in_files := fs\<rparr>))\<rparr>"

definition in_ok :: "('db, 'fs) instance_state \<Rightarrow> bool" where
  "in_ok st \<longleftrightarrow> store_wf (in_store st) \<and> caching (in_store st)
     \<and> (\<forall>i. range_order (in_entries st i)) \<and> (\<forall>i. range_order (in_keys st i))
     \<and> (\<forall>i. ns (in_clock st i) \<le> ns (in_clock st (Suc i)))"

lemma in_ok_update: "in_ok st \<Longrightarrow> store_wf s \<Longrightarrow> caching s \<Longrightarrow> in_ok (in_update s st)"
  by (simp add: in_ok_def in_update_def)

lemma in_now_update: "in_ok st \<Longrightarrow> ns (in_now st) \<le> ns (in_now (in_update s st))"
  by (simp add: in_ok_def in_now_def in_update_def)

lemma in_store_update [simp]: "in_store (in_update s st) = s" "in_store (st\<lparr>in_files := fs\<rparr>) = in_store st"
  "in_ok (st\<lparr>in_files := fs\<rparr>) = in_ok st" "in_now (st\<lparr>in_files := fs\<rparr>) = in_now st"
  by (simp_all add: in_update_def in_ok_def in_now_def)

lemma in_okD:
  assumes "in_ok st"
  shows "store_wf (in_store st)" "caching (in_store st)" "range_order (in_entries st i)" "range_order (in_keys st i)"
  using assms by (simp_all add: in_ok_def)

lemma vacuum_frame: "incremental_vacuum E n s = (v, s') \<Longrightarrow> \<exists>d. s' = s\<lparr>db := d\<rparr>"
  by (auto simp: incremental_vacuum_def split: prod.splits sum.splits)

lemma backup_frame: "backup E F now dir s fs = (p, s', fs') \<Longrightarrow> \<exists>d. s' = s\<lparr>db := d\<rparr>"
  by (auto simp: backup_def Let_def split: if_splits prod.splits sum.splits option.splits intro: exI [of _ "db s"])

interpretation store_jobs: maintenance "store_surface E F" in_ok "\<lambda>st. abs_cache (in_store st)" in_now for E F
proof (unfold_locales, goal_cases)
  case (1 st l r st')
  note ok = in_okD [OF 1(1)]
  obtain n e s where d: "delete_expired E (in_entries st (in_ticks st)) (in_now st) l (in_store st) = ((n, e), s)" by (metis surj_pair)
  have st': "st' = in_update s st" using 1(2) d by (simp add: store_surface_def)
  have step: "step E (OpSweep (in_entries st (in_ticks st)) (in_now st) l) (in_store st) = (RCount n e, s)" using d by simp
  have "spec_ok (OpSweep (in_entries st (in_ticks st)) (in_now st) l) (RCount n e) (abs_cache (in_store st)) (abs_cache s)"
    using step_cached_ok [OF step ok(2)] ok(3) by simp
  then have sub: "abs_cache s \<subseteq>\<^sub>m abs_cache (in_store st)" "live (in_now st) (abs_cache s) = live (in_now st) (abs_cache (in_store st))"
    by simp_all
  have "\<not> after (in_now st) (in_now st')" using in_now_update [OF 1(1)] by (simp add: st' after_def not_less)
  then have "live (in_now st') (abs_cache s) = live (in_now st') (abs_cache (in_store st))"
    using live_later [OF sub(2) [symmetric] _ sub(1)] by simp
  moreover have "in_ok st'" unfolding st'
    using in_ok_update [OF 1(1)] step_wf [OF step ok(1)] ok(3) step_caching [OF step] ok(2) by simp
  ultimately show ?case using sub(1) in_now_update [OF 1(1)] by (simp add: st')
next
  case (2 st l b k r st')
  note ok = in_okD [OF 2(1)]
  let ?c = "OpEvict (\<lambda>i. in_entries st (in_ticks st + i)) l b k"
  obtain n e s where d: "evict_oldest E (\<lambda>i. in_entries st (in_ticks st + i)) l b k (in_store st) = ((n, e), s)" by (metis surj_pair)
  have st': "st' = in_update s st" using 2(2) d by (simp add: store_surface_def)
  have step: "step E ?c (in_store st) = (RCount n e, s)" using d by simp
  have "in_ok st'" unfolding st'
    using in_ok_update [OF 2(1)] step_wf [OF step ok(1)] ok(3) step_caching [OF step] ok(2) by simp
  then show ?case using step_cached_ok [OF step ok(2)] ok(3) in_now_update [OF 2(1)] by (simp add: st')
next
  case (3 st u st')
  note ok = in_okD [OF 3(1)]
  have "usage E (in_store st) = (Inr (cache_bytes (in_store st)), in_store st)"
    using ok(2) by (simp add: usage_def cache_bytes_of_def)
  then have "st' = in_update (in_store st) st" using 3(2) by (simp add: store_surface_def)
  then show ?case using in_ok_update [OF 3(1) ok(1,2)] in_now_update [OF 3(1)] by simp
next
  case (4 st r st')
  note ok = in_okD [OF 4(1)]
  obtain n e s where d: "flush E (in_keys st (in_ticks st)) (in_store st) = ((n, e), s)" by (metis surj_pair)
  have st': "st' = in_update s st" using 4(2) d by (simp add: store_surface_def)
  have step: "step E (OpFlush (in_keys st (in_ticks st))) (in_store st) = (RCount n e, s)" using d by simp
  have "in_ok st'" unfolding st'
    using in_ok_update [OF 4(1)] step_wf [OF step ok(1)] ok(4) step_caching [OF step] ok(2) by simp
  then show ?case using step_cached_ok [OF step ok(2)] ok(4) in_now_update [OF 4(1)] by (simp add: st')
next
  case (5 st b v st')
  note ok = in_okD [OF 5(1)]
  obtain v' s where d: "incremental_vacuum E b (in_store st) = (v', s)" by (metis surj_pair)
  obtain x where s: "s = (in_store st)\<lparr>db := x\<rparr>" using vacuum_frame [OF d] by blast
  have st': "st' = in_update s st" using 5(2) d by (simp add: store_surface_def)
  have "store_wf s" "caching s" "abs_cache s = abs_cache (in_store st)"
    using ok(1,2) by (simp_all add: s store_wf_def caching_def abs_cache_def fun_eq_iff)
  then show ?case using in_ok_update [OF 5(1)] in_now_update [OF 5(1)] by (simp add: st')
next
  case (6 st d p st')
  note ok = in_okD [OF 6(1)]
  obtain q s fs where b: "backup E F (in_now st) d (in_store st) (in_files st) = (q, s, fs)" by (metis surj_pair)
  obtain x where s: "s = (in_store st)\<lparr>db := x\<rparr>" using backup_frame [OF b] by blast
  have st': "st' = (in_update s st)\<lparr>in_files := fs\<rparr>" using 6(2) b by (simp add: store_surface_def)
  have "store_wf s" "caching s" "abs_cache s = abs_cache (in_store st)"
    using ok(1,2) by (simp_all add: s store_wf_def caching_def abs_cache_def fun_eq_iff)
  then show ?case using in_ok_update [OF 6(1)] in_now_update [OF 6(1)] by (simp add: st')
next
  case (7 st d b q st')
  obtain q' fs where "retain_backups F d b (in_files st) = (q', fs)" by (metis surj_pair)
  with 7(2) have "st' = st\<lparr>in_files := fs\<rparr>" by (simp add: store_surface_def)
  with 7(1) show ?case by simp
qed

section \<open>One eviction at a time\<close>

text \<open>
  Any number of goroutines call \<open>MaybeEvict\<close>. \<open>active\<close> counts the eviction passes under
  way, \<open>starts\<close> their starting times (newest first), \<open>present_ns\<close> the clock.
\<close>

record gate_state =
  the_gate :: gate
  active :: nat
  starts :: "int list"
  present_ns :: int

inductive gate_step :: "duration \<Rightarrow> gate_state \<Rightarrow> gate_state \<Rightarrow> bool" for throttle where
  gate_refused: "gate_enter throttle t1 t2 (the_gate g) = None \<Longrightarrow> gate_step throttle g g"
| gate_entered: "gate_enter throttle t1 t2 (the_gate g) = Some g' \<Longrightarrow> present_ns g \<le> ns t1 \<Longrightarrow> ns t1 \<le> ns t2 \<Longrightarrow>
    gate_step throttle g \<lparr>the_gate = g', active = Suc (active g), starts = ns t2 # starts g, present_ns = ns t2\<rparr>"
| gate_left: "active g = Suc k \<Longrightarrow> gate_step throttle g (g\<lparr>the_gate := gate_leave (the_gate g), active := k\<rparr>)"

inductive_cases gate_stepE: "gate_step throttle g g'"

definition gate_start :: "int \<Rightarrow> gate_state" where
  "gate_start t = \<lparr>the_gate = new_gate, active = 0, starts = [], present_ns = t\<rparr>"

fun spaced :: "int \<Rightarrow> int list \<Rightarrow> bool" where
  "spaced d (t # u # ts) \<longleftrightarrow> u + d \<le> t \<and> spaced d (u # ts)"
| "spaced d _ \<longleftrightarrow> True"

definition gate_inv :: "duration \<Rightarrow> gate_state \<Rightarrow> bool" where
  "gate_inv throttle g \<longleftrightarrow> active g = (if running (the_gate g) then 1 else 0) \<and> spaced throttle (starts g)
     \<and> (\<forall>t ts. starts g = t # ts \<longrightarrow> ns (last_run (the_gate g)) = t)"

lemma gate_inv_step: "gate_step throttle g g' \<Longrightarrow> 0 < throttle \<Longrightarrow> gate_inv throttle g \<Longrightarrow> gate_inv throttle g'"
proof (induction rule: gate_step.induct)
  case (gate_entered t1 t2 g g')
  then have g: "\<not> running (the_gate g)" "throttle \<le> time_sub t1 (last_run (the_gate g))"
    "g' = (the_gate g)\<lparr>running := True, last_run := t2\<rparr>"
    by (auto simp: gate_enter_def not_less split: if_splits)
  have "throttle \<le> ns t1 - ns (last_run (the_gate g))"
    using g(2) gate_entered.prems(1) by (simp add: time_sub_def max_duration_def min_def max_def split: if_splits)
  with g gate_entered show ?case by (cases "starts g") (auto simp: gate_inv_def)
qed (auto simp: gate_inv_def gate_leave_def split: if_splits)

lemma spaced_length: "spaced d (t # ts) \<Longrightarrow> last (t # ts) + int (length ts) * d \<le> t"
proof (induction ts arbitrary: t)
  case (Cons u ts)
  then have "last (u # ts) + int (length ts) * d \<le> u" "u + d \<le> t" by simp_all
  then show ?case by (simp add: distrib_right)
qed simp

text \<open>C31: However many callers \<open>MaybeEvict\<close> has, at most one eviction pass is under way at any
  time, and every pass starts at least one throttle window after the one before.\<close>

theorem evictor_singleflight:
  assumes "(gate_step throttle)\<^sup>*\<^sup>* (gate_start t) g" "0 < throttle"
  shows "active g \<le> 1 \<and> spaced throttle (starts g)
    \<and> (starts g \<noteq> [] \<longrightarrow> int (length (starts g) - 1) * throttle \<le> hd (starts g) - last (starts g))"
proof -
  have "gate_inv throttle g"
    using assms(1)
  proof (induction rule: rtranclp_induct)
    case base
    then show ?case by (simp add: gate_inv_def gate_start_def new_gate_def)
  next
    case (step g g')
    then show ?case using gate_inv_step assms(2) by blast
  qed
  then have "active g \<le> 1" "spaced throttle (starts g)" by (simp_all add: gate_inv_def)
  then show ?thesis using spaced_length [of throttle "hd (starts g)" "tl (starts g)"] by (cases "starts g") auto
qed

text \<open>Two callers, one refused while the other runs, the first again after a minute.\<close>

lemma sample_gate_run:
  "\<exists>g. (gate_step (60 * second))\<^sup>*\<^sup>* (gate_start 0) g \<and> length (starts g) = 2"
proof -
  let ?t = sample_time
  define g1 where "g1 = \<lparr>the_gate = \<lparr>running = True, last_run = ?t 1\<rparr>, active = 1, starts = [ns (?t 1)], present_ns = ns (?t 1)\<rparr>"
  define g2 where "g2 = g1\<lparr>the_gate := gate_leave (the_gate g1), active := 0\<rparr>"
  define g3 where "g3 = \<lparr>the_gate = \<lparr>running = True, last_run = ?t 61\<rparr>, active = 1, starts = [ns (?t 61), ns (?t 1)], present_ns = ns (?t 61)\<rparr>"
  have "gate_step (60 * second) (gate_start 0) g1"
    using gate_entered [of "60 * second" "?t 1" "?t 1" "gate_start 0" "\<lparr>running = True, last_run = ?t 1\<rparr>"]
    by (simp add: gate_start_def new_gate_def gate_enter_def g1_def time_sub_def zero_time_def second_def max_duration_def)
  moreover have "gate_step (60 * second) g1 g1"
    by (rule gate_refused [of _ "?t 2" "?t 2"]) (simp add: g1_def gate_enter_def)
  moreover have "gate_step (60 * second) g1 g2"
    unfolding g2_def by (rule gate_left) (simp add: g1_def)
  moreover have "gate_step (60 * second) g2 g3"
    using gate_entered [of "60 * second" "?t 61" "?t 61" g2 "\<lparr>running = True, last_run = ?t 61\<rparr>"]
    by (simp add: g1_def g2_def g3_def gate_leave_def gate_enter_def time_sub_def second_def max_duration_def)
  ultimately have "(gate_step (60 * second))\<^sup>*\<^sup>* (gate_start 0) g3"
    by (meson converse_rtranclp_into_rtranclp rtranclp.rtrancl_refl)
  moreover have "length (starts g3) = 2" by (simp add: g3_def)
  ultimately show ?thesis by blast
qed

theorem evictor_singleflight_witness:
  "\<exists>g :: gate_state. length (starts g) = 2 \<and> active g \<le> 1 \<and> spaced (60 * second) (starts g)"
proof -
  obtain g where g: "(gate_step (60 * second))\<^sup>*\<^sup>* (gate_start 0) g" "length (starts g) = 2"
    using sample_gate_run by blast
  from evictor_singleflight [OF g(1)] have "active g \<le> 1 \<and> spaced (60 * second) (starts g)" by (simp add: second_def)
  with g(2) show ?thesis by blast
qed

section \<open>What the jobs do to the store\<close>

definition sample_instance :: "int \<Rightarrow> (ref_db, ref_fs) instance_state" where
  "sample_instance limit = \<lparr>in_store = sample_rows limit, in_files = \<lparr>listing = mempty, fs_faults = []\<rparr>,
     in_clock = (\<lambda>n. sample_time (int n + 1)), in_ticks = 0, in_entries = (\<lambda>i xs. xs), in_keys = (\<lambda>i xs. xs)\<rparr>"

definition sample_jobs :: "(ref_db, ref_fs) instance_state jobs" where
  "sample_jobs = \<lparr>surf = store_surface ref_engine (ref_files ''b''), job_clk = (\<lambda>n. sample_time (int n)), job_metered = True\<rparr>"

definition sample_site :: "int \<Rightarrow> (ref_db, ref_fs) instance_state site" where
  "sample_site limit = \<lparr>base = sample_instance limit, job_ticks = 0, job_events = [], job_lines = []\<rparr>"

lemma sample_instance_ok [simp]: "in_ok (sample_instance 1000)"
proof -
  have "store_wf (sample_rows 1000)" unfolding sample_rows_def put_def by (intro put_wf) simp
  moreover have "caching (sample_rows 1000)" by code_simp
  ultimately show ?thesis by (simp add: in_ok_def sample_instance_def second_def)
qed

text \<open>C32: With a memory layer and a clock that does not go back, passes of the sweep, flush and
  backup jobs, run whole one after another in any order and whatever fails in them, never change what a lookup returns from the
  clock reading of the last one on. Eviction passes among them can, but only by removing
  entries. All of them keep an exact byte counter exact.\<close>

theorem maintenance_keeps_lookups:
  assumes "in_ok (base s)" "surf J = store_surface E F" "run_jobs J js (g, s) = (g', s')"
  shows "store_wf (in_store (base s'))
    \<and> abs_cache (in_store (base s')) \<subseteq>\<^sub>m abs_cache (in_store (base s))
    \<and> (list_all (\<lambda>j. \<not> is_evict_job j) js \<longrightarrow> (\<forall>u. ns (in_now (base s')) \<le> ns u \<longrightarrow>
        live u (abs_cache (in_store (base s'))) = live u (abs_cache (in_store (base s)))))"
proof -
  note ok = store_jobs.run_jobs_ok [OF assms]
  then have "in_ok (base s')" by (simp add: store_jobs.step_ok_def)
  then have "store_wf (in_store (base s'))" by (rule in_okD)
  with ok show ?thesis by (simp add: store_jobs.step_ok_def store_jobs.step_quiet_def readers_agree_def)
qed

theorem maintenance_keeps_lookups_witness:
  "let s' = snd (run_jobs sample_jobs [JobExpiry \<lparr>er_interval = second, er_sweep_limit = 0\<rparr>, JobFlush] (new_gate, sample_site 1000))
   in job_events s' \<noteq> [] \<and> live (sample_time 9) (abs_cache (in_store (base s')))
      = live (sample_time 9) (abs_cache (in_store (sample_instance 1000)))"
proof -
  let ?js = "[JobExpiry \<lparr>er_interval = second, er_sweep_limit = 0\<rparr>, JobFlush]"
  define p where "p = run_jobs sample_jobs ?js (new_gate, sample_site 1000)"
  have "in_ok (base (sample_site 1000))" by (simp add: sample_site_def)
  from maintenance_keeps_lookups [OF this _ p_def [symmetric, THEN trans [OF _ surjective_pairing]], of ref_engine "ref_files ''b''"]
  have all: "\<forall>u. ns (in_now (base (snd p))) \<le> ns u \<longrightarrow>
      live u (abs_cache (in_store (base (snd p)))) = live u (abs_cache (in_store (sample_instance 1000)))"
    by (simp add: sample_jobs_def sample_site_def)
  have "ns (in_now (base (snd p))) \<le> ns (sample_time 9)" "length (job_events (snd p)) = 3"
    unfolding p_def by code_simp+
  with all show ?thesis unfolding p_def Let_def by auto
qed

text \<open>A pass at or above the budget that reports no error is one eviction; the vacuum changes no row.\<close>

lemma evictor_once_evicts:
  assumes "sql_engine E tbl pend" "in_ok (base s)" "surf J = store_surface E F"
    "evictor_once J e s = ((n, None), s')" "ev_limit e \<le> cache_bytes (in_store (base s))"
  obtains rng b where "evict_oldest E rng (ev_limit e) (ev_batch e) (ev_max_runs e) (in_store (base s)) = ((n, None), b)"
    "cache (in_store (base s')) = cache b" "cache_bytes (in_store (base s')) = cache_bytes b"
    "tbl (db (in_store (base s'))) = tbl (db b)"
    "job_metered J \<Longrightarrow> job_events s' = job_events s @ [CleanupRun ''size'' ''ok'', CleanupDeleted ''size'' n]"
proof -
  define st where "st = base s"
  define x where "x = in_update (in_store st) st"
  have ok: "caching (in_store st)" using in_okD(2) [OF assms(2)] by (simp add: st_def)
  have "usage E (in_store st) = (Inr (cache_bytes (in_store st)), in_store st)"
    using ok by (simp add: usage_def cache_bytes_of_def)
  then have u: "m_usage (surf J) (base s) = (Inr (cache_bytes (in_store st)), x)"
    by (simp add: assms(3) store_surface_def x_def st_def)
  have high: "\<not> cache_bytes (in_store st) < ev_limit e" using assms(5) by (simp add: st_def)
  let ?rng = "\<lambda>i. in_entries x (in_ticks x + i)"
  obtain m err b where ev: "evict_oldest E ?rng (ev_limit e) (ev_batch e) (ev_max_runs e) (in_store x) = ((m, err), b)"
    by (metis surj_pair)
  have call: "m_evict_oldest (surf J) (ev_limit e) (ev_batch e) (ev_max_runs e) x = ((m, err), in_update b x)"
    using ev by (simp add: assms(3) store_surface_def)
  have err: "err = None" using assms(4) high u call by (cases err) (simp_all add: evictor_once_def job_now_def)
  obtain v c where v: "incremental_vacuum E (ev_batch e) b = (v, c)" by (metis surj_pair)
  have vac: "m_vacuum (surf J) (ev_batch e) (in_update b x) = (v, in_update c (in_update b x))"
    using v by (simp add: assms(3) store_surface_def)
  have c: "cache c = cache b" "cache_bytes c = cache_bytes b" "tbl (db c) = tbl (db b)"
  proof -
    obtain r d where r: "sq_exec E (IncrementalVacuumPages (ev_batch e)) (db b) = (r, d)" by (metis surj_pair)
    then have "tbl d = tbl (db b)" by (rule sql_engine.exec_result [OF assms(1)]) (auto simp: stmt_post.simps)
    with r v show "cache c = cache b" "cache_bytes c = cache_bytes b" "tbl (db c) = tbl (db b)"
      by (auto simp: incremental_vacuum_def split: sum.splits)
  qed
  have res: "n = m" "in_store (base s') = b \<or> in_store (base s') = c"
    "job_metered J \<Longrightarrow> job_events s' = job_events s @ [CleanupRun ''size'' ''ok'', CleanupDeleted ''size'' n]"
    using assms(4) high u call err vac
    by (cases v; auto simp: evictor_once_def job_now_def meter_def say_def millis_since_def Let_def)+
  show ?thesis
  proof (rule that)
    show "evict_oldest E ?rng (ev_limit e) (ev_batch e) (ev_max_runs e) (in_store (base s)) = ((n, None), b)"
      using ev err res(1) by (simp add: x_def st_def)
  qed (use res(2,3) c in auto)
qed

lemma evictor_once_below:
  assumes "in_ok (base s)" "surf J = store_surface E F" "cache_bytes (in_store (base s)) < ev_limit e"
    "evictor_once J e s = ((n, r), s')"
  shows "n = 0 \<and> in_store (base s') = in_store (base s) \<and> job_events s' = job_events s \<and> job_lines s' = job_lines s"
proof -
  have "usage E (in_store (base s)) = (Inr (cache_bytes (in_store (base s))), in_store (base s))"
    using in_okD(2) [OF assms(1)] by (simp add: usage_def cache_bytes_of_def)
  then have "m_usage (surf J) (base s) = (Inr (cache_bytes (in_store (base s))), in_update (in_store (base s)) (base s))"
    by (simp add: assms(2) store_surface_def)
  with assms(3,4) show ?thesis by (auto simp: evictor_once_def)
qed



end
