(* ===== verification/Evict_Converge.thy ===== *)
theory Evict_Converge
  imports Cleanup_Laws Store_Mirror
begin

text \<open>
  The size budget is reached: each pass of the eviction job that reports no error
  either ends within the budget or removes as much as its runs allow, and what
  there is to remove is finite, so that finitely many passes over a store nobody
  writes to are enough.
\<close>

section \<open>What is left to remove\<close>

definition burden :: "('db \<Rightarrow> table) \<Rightarrow> 'db store \<Rightarrow> int" where
  "burden tbl s = int (card (dom (mget (cache s)))) + int (card (dom (tbl (db s))))"

lemma burden_nonneg: "0 \<le> burden tbl s"
  by (simp add: burden_def)

lemma drop_victims_card:
  "drop_victims vs n s = (m, s') \<Longrightarrow> m + int (card (dom (mget (cache s')))) = n + int (card (dom (mget (cache s))))"
proof (induction vs n s rule: drop_victims.induct)
  case (2 k e vs n s)
  have "int (card (dom (mget (cache s)) - {k})) = int (card (dom (mget (cache s)))) - 1" if "mget (cache s) k = Some cur" for cur
    using card_Suc_Diff1 [OF finite_dom_mget domI [of "mget (cache s)", OF that]] by simp
  with 2 show ?case by (fastforce split: option.splits if_splits)
qed simp

lemma cache_shrinks_card: "cache_shrinks s s' \<Longrightarrow> card (dom (mget (cache s'))) \<le> card (dom (mget (cache s)))"
  unfolding cache_shrinks_def by (rule card_mono) (auto dest: map_le_implies_dom_le)

context sql_engine
begin

lemma tbl_card: "tbl d' = remove_keys V (tbl d) \<Longrightarrow> card (dom (tbl d')) \<le> card (dom (tbl d))"
  using tbl_finite by (auto intro: card_mono)

lemma purge_batch_rows:
  assumes "purge_volatile_batch E rng b s = (r, s')"
  shows "card (dom (tbl (db s'))) \<le> card (dom (tbl (db s)))"
proof -
  let ?vs = "volatile_victims b (rng (mentries (cache s)))"
  obtain q d where d: "delete_shadows E ?vs (db s) = (q, d)" by (metis surj_pair)
  obtain V where "tbl d = remove_keys V (tbl (db s))" using delete_shadows_rows [OF d] by blast
  then have "card (dom (tbl d)) \<le> card (dom (tbl (db s)))" by (rule tbl_card)
  moreover have "db s' = db s \<or> db s' = d"
    using assms d by (auto simp: purge_volatile_batch_def Let_def dest: drop_victims_shell split: prod.splits option.splits if_splits)
  ultimately show ?thesis by auto
qed

lemma purge_batch_burden:
  assumes "purge_volatile_batch E rng b s = (Inr n, s')"
  shows "n + burden tbl s' \<le> burden tbl s"
proof (cases "volatile_victims b (rng (mentries (cache s))) = []")
  case True
  with assms show ?thesis by (simp add: purge_volatile_batch_def)
next
  case False
  let ?vs = "volatile_victims b (rng (mentries (cache s)))"
  obtain d where v: "drop_victims ?vs 0 (s\<lparr>db := d\<rparr>) = (n, s')"
    using assms False by (auto simp: purge_volatile_batch_def Let_def split: prod.splits option.splits)
  with drop_victims_card [OF v] purge_batch_rows [OF assms] show ?thesis by (simp add: burden_def)
qed

lemma purge_loop_burden:
  "purge_loop E rng limit b runs n s = ((m, None), s') \<Longrightarrow> m + burden tbl s' \<le> n + burden tbl s"
proof (induction runs arbitrary: n s)
  case (Suc runs)
  obtain p s1 where p: "purge_volatile_batch E (rng runs) b s = (p, s1)" by (metis surj_pair)
  show ?case
  proof (cases p)
    case (Inr j)
    with Suc.IH [of "n + j" s1] Suc.prems p purge_batch_burden [of "rng runs" b s j s1] show ?thesis
      by (auto split: if_splits)
  qed (use Suc.prems p in \<open>auto split: if_splits\<close>)
qed simp

lemma purge_loop_rows: "purge_loop E rng limit b runs n s = (r, s') \<Longrightarrow> card (dom (tbl (db s'))) \<le> card (dom (tbl (db s)))"
proof (induction runs arbitrary: n s)
  case (Suc runs)
  obtain p s1 where p: "purge_volatile_batch E (rng runs) b s = (p, s1)" by (metis surj_pair)
  have "card (dom (tbl (db s1))) \<le> card (dom (tbl (db s)))" using purge_batch_rows [OF p] .
  with Suc p show ?case by (fastforce split: sum.splits if_splits)
qed simp

lemma evict_loop_burden:
  assumes "evict_loop E limit b runs n s = ((m, None), s')" "0 \<le> b"
  shows "m + burden tbl s' \<le> n + burden tbl s"
proof -
  obtain V where V: "V \<subseteq> dom (tbl (db s))" "tbl (db s') = remove_keys V (tbl (db s))" "m = n + int (card V)"
    using evict_loop_rows [OF assms] by auto
  have "finite V" using V(1) tbl_finite finite_subset by blast
  with V(1) have "card (dom (tbl (db s)) - V) = card (dom (tbl (db s))) - card V" by (rule card_Diff_subset [rotated])
  moreover have "card V \<le> card (dom (tbl (db s)))" using V(1) tbl_finite by (rule card_mono [rotated])
  ultimately have "int (card (dom (tbl (db s')))) + int (card V) = int (card (dom (tbl (db s))))" using V(2) by simp
  with V(3) cache_shrinks_card [OF evict_loop_shrinks [OF assms(1)]] show ?thesis by (simp add: burden_def)
qed

lemma evict_oldest_burden:
  assumes "evict_oldest E rng limit batch max_runs s = ((n, None), s')" "caching s"
  shows "n + burden tbl s' \<le> burden tbl s"
  using assms(1)
proof (cases rule: evict_oldest_cases)
  case (loops m s1)
  with assms(2) have "purge_loop E rng limit batch (nat max_runs) 0 s = ((m, None), s1)" by simp
  from purge_loop_burden [OF this] evict_loop_burden [OF loops(3)] loops(1) show ?thesis by simp
qed simp_all

end

section \<open>Passes\<close>

fun passes :: "'st jobs \<Rightarrow> evictor \<Rightarrow> nat \<Rightarrow> 'st site \<Rightarrow> (int \<times> store_error option) list \<times> 'st site" where
  "passes J e 0 s = ([], s)"
| "passes J e (Suc k) s = (case evictor_once J e s of (r, s) \<Rightarrow> (case passes J e k s of (rs, s) \<Rightarrow> (r # rs, s)))"

definition within_budget :: "('db \<Rightarrow> table) \<Rightarrow> int \<Rightarrow> 'db store \<Rightarrow> bool" where
  "within_budget tbl limit s \<longleftrightarrow> cache_bytes s < limit \<or> card (dom (tbl (db s))) \<le> 1"

lemma pass_ok:
  assumes "in_ok (base s)" "surf J = store_surface E F"
  shows "in_ok (base (snd (evictor_once J e s)))"
  using store_jobs.evictor_once_ok [OF assms] by (simp add: store_jobs.step_ok_def)

lemma evicted_rows:
  assumes "sql_engine E tbl pend" "evict_oldest E rng limit batch max_runs s = ((n, None), s')" "caching s"
  shows "card (dom (tbl (db s'))) \<le> card (dom (tbl (db s)))"
  using assms(2)
proof (cases rule: evict_oldest_cases)
  case (loops m s1)
  with assms(3) have p: "purge_loop E rng limit batch (nat max_runs) 0 s = ((m, None), s1)" by simp
  have 1: "card (dom (tbl (db s1))) \<le> card (dom (tbl (db s)))"
    using sql_engine.purge_loop_rows [OF assms(1) p] .
  obtain V where "tbl (db s') = remove_keys V (tbl (db s1))"
    using sql_engine.evict_loop_rows [OF assms(1) loops(3)] loops(1) by auto
  with 1 sql_engine.tbl_card [OF assms(1)] show ?thesis using le_trans by blast
qed simp_all

text \<open>One pass: the budget once met stays met, and otherwise the burden goes down.\<close>

lemma pass_progress:
  assumes "sql_engine E tbl pend" "in_ok (base s)" "surf J = store_surface E F" "evictor_once J e s = ((n, None), s')"
  shows "within_budget tbl (ev_limit e) (in_store (base s'))
    \<or> \<not> within_budget tbl (ev_limit e) (in_store (base s))
      \<and> burden tbl (in_store (base s')) + ev_max_runs e \<le> burden tbl (in_store (base s))"
proof (cases "cache_bytes (in_store (base s)) < ev_limit e")
  case True
  with evictor_once_below [OF assms(2,3) True assms(4)] show ?thesis by (simp add: within_budget_def)
next
  case False
  then have high: "ev_limit e \<le> cache_bytes (in_store (base s))" by simp
  obtain rng b where b: "evict_oldest E rng (ev_limit e) (ev_batch e) (ev_max_runs e) (in_store (base s)) = ((n, None), b)"
    "cache (in_store (base s')) = cache b" "cache_bytes (in_store (base s')) = cache_bytes b"
    "tbl (db (in_store (base s'))) = tbl (db b)"
    by (rule evictor_once_evicts [OF assms(1-4) high])
  have bound: "cache_bytes b < ev_limit e \<or> card (dom (tbl (db b))) \<le> 1 \<or> ev_max_runs e \<le> n"
    by (rule evict_cached_within [OF assms(1) in_okD(2) [OF assms(2)] b(1) in_okD(1) [OF assms(2)], THEN conjunct2])
  have "n + burden tbl b \<le> burden tbl (in_store (base s))" "card (dom (tbl (db b))) \<le> card (dom (tbl (db (in_store (base s)))))"
    using sql_engine.evict_oldest_burden [OF assms(1) b(1)] evicted_rows [OF assms(1) b(1)] in_okD(2) [OF assms(2)] by simp_all
  moreover have "burden tbl (in_store (base s')) = burden tbl b" using b(2,4) by (simp add: burden_def)
  ultimately show ?thesis using bound b(3,4) high by (auto simp: within_budget_def)
qed

lemma passes_progress:
  assumes "sql_engine E tbl pend" "surf J = store_surface E F"
    "passes J e k s = (rs, s')" "in_ok (base s)" "list_all (\<lambda>r. snd r = None) rs"
  shows "(within_budget tbl (ev_limit e) (in_store (base s)) \<longrightarrow> within_budget tbl (ev_limit e) (in_store (base s')))
    \<and> (within_budget tbl (ev_limit e) (in_store (base s'))
      \<or> burden tbl (in_store (base s')) + int k * ev_max_runs e \<le> burden tbl (in_store (base s)))"
  using assms(3-5)
proof (induction k arbitrary: s rs)
  case (Suc k)
  obtain n err s1 where s1: "evictor_once J e s = ((n, err), s1)" by (metis surj_pair)
  obtain rs1 where rs: "passes J e k s1 = (rs1, s')" "rs = (n, err) # rs1"
    using Suc.prems(1) s1 by (auto split: prod.splits)
  have "in_ok (base s1)" using pass_ok [OF Suc.prems(2) assms(2), of e] s1 by simp
  note ih = Suc.IH [OF rs(1) this]
  have "evictor_once J e s = ((n, None), s1)" using s1 Suc.prems(3) rs(2) by simp
  from pass_progress [OF assms(1) Suc.prems(2) assms(2) this] ih Suc.prems(3) rs(2) show ?case
    by (auto simp: algebra_simps)
qed simp

text \<open>C8: The eviction job terminates its work: with a memory layer and no writers, finitely
  many passes, none of them failing, bring the cache below the budget or the table
  to at most one row; entries and rows over the allowed runs per pass are enough of them.\<close>
theorem eviction_converges:
  assumes "sql_engine E tbl pend" "surf J = store_surface E F" "in_ok (base s)"
    and "passes J e k s = (rs, s')" "list_all (\<lambda>r. snd r = None) rs"
    and "int (card (dom (mget (cache (in_store (base s)))))) + int (card (dom (tbl (db (in_store (base s)))))) < int k * ev_max_runs e"
  shows "cache_bytes (in_store (base s')) < ev_limit e \<or> card (dom (tbl (db (in_store (base s'))))) \<le> 1"
  using passes_progress [OF assms(1,2,4,3,5)] assms(6) burden_nonneg [of tbl "in_store (base s')"]
  by (auto simp: within_budget_def burden_def)

text \<open>Three entries and their rows, one removal allowed per pass.\<close>
lemma eviction_converges_witness:
  "let e = \<lparr>ev_limit = 100, ev_batch = 1, ev_max_runs = 1, ev_throttle = second\<rparr>;
       s' = snd (passes sample_jobs e 7 (sample_site 1000))
   in 100 \<le> cache_bytes (in_store (base (sample_site 1000)))
      \<and> (cache_bytes (in_store (base s')) < 100 \<or> card (dom (ref_tbl (db (in_store (base s'))))) \<le> 1)"
proof -
  let ?e = "\<lparr>ev_limit = 100, ev_batch = 1, ev_max_runs = 1, ev_throttle = second\<rparr>"
  have ok: "in_ok (base (sample_site 1000))" "surf sample_jobs = store_surface ref_engine (ref_files ''b'')"
    by (simp_all add: sample_site_def sample_jobs_def)
  have none: "list_all (\<lambda>r. snd r = None) (fst (passes sample_jobs ?e 7 (sample_site 1000)))"
    and high: "100 \<le> cache_bytes (in_store (base (sample_site 1000)))"
    by code_simp+
  have "length (mentries (cache (in_store (base (sample_site 1000))))) = 3"
    "length (mentries (rtab (db (in_store (base (sample_site 1000)))))) = 3"
    by code_simp+
  then have "card (dom (mget (cache (in_store (base (sample_site 1000)))))) = 3"
    "card (dom (ref_tbl (db (in_store (base (sample_site 1000)))))) = 3"
    by (simp_all only: ref_tbl_def card_dom_mget)
  with eviction_converges [OF ref.sql_engine_axioms ok(2,1) surjective_pairing none] high
  show ?thesis by (simp add: Let_def)
qed

end
