(* ===== verification/Config.thy ===== *)
theory Config
  imports Net_Addr Float64 Store_Types
begin

text \<open>
  The configuration (\<open>src/internal/config/config.go\<close>): the environment parsed into a
  record, variable by variable, stopping at the first error. An error is the name of
  the variable and a reason.

  The parsers of the standard library it calls are modelled: \<open>strconv.ParseInt\<close> and
  \<open>Atoi\<close> in base 10 (64-bit range), \<open>time.ParseDuration\<close> with its overflow checks and
  float64 fractions, and \<open>strconv.ParseFloat\<close> on decimal numbers and the special
  names. Hexadecimal floats and digit separators, which \<open>ParseFloat\<close> also reads, are
  left to an argument \<open>exotic\<close>.
\<close>

section \<open>Numbers\<close>

text \<open>An optional sign: whether it is negative, and the rest.\<close>

definition take_sign :: "string \<Rightarrow> bool \<times> string" where
  "take_sign s = (case s of [] \<Rightarrow> (False, [])
    | c # r \<Rightarrow> if c = CHR ''-'' then (True, r) else if c = CHR ''+'' then (False, r) else (False, s))"

definition parse_int :: "string \<Rightarrow> int option" where
  "parse_int s =
    (let (neg, ds) = take_sign s; n = int (num ds)
     in if ds = [] \<or> \<not> list_all is_digit ds then None
        else if neg then (if n \<le> 2 ^ 63 then Some (- n) else None)
        else if n < 2 ^ 63 then Some n else None)"

datatype go_float = Finite rat | PosInf | NegInf | NotANumber

definition decimal_value :: "string \<Rightarrow> string \<Rightarrow> int \<Rightarrow> rat" where
  "decimal_value ip fp e = of_nat (num (ip @ fp)) * 10 powi (e - int (length fp))"

text \<open>Digits, an optional fraction, and the rest.\<close>

definition split_decimal :: "string \<Rightarrow> string \<times> string \<times> string" where
  "split_decimal s =
    (let ip = takeWhile is_digit s; r = dropWhile is_digit s
     in case r of
          c # t \<Rightarrow> if c = CHR ''.'' then (ip, takeWhile is_digit t, dropWhile is_digit t) else (ip, [], r)
        | [] \<Rightarrow> (ip, [], r))"

text \<open>A number with an optional exponent and nothing after; the value exactly.\<close>

definition parse_decimal :: "string \<Rightarrow> rat option" where
  "parse_decimal s =
    (let (ip, fp, r) = split_decimal s
     in if ip = [] \<and> fp = [] then None
        else case r of
          [] \<Rightarrow> Some (decimal_value ip fp 0)
        | c # t \<Rightarrow>
            if c = CHR ''e'' \<or> c = CHR ''E''
            then (let (neg, ds) = take_sign t
                  in if ds = [] \<or> \<not> list_all is_digit ds then None
                     else Some (decimal_value ip fp (if neg then - int (num ds) else int (num ds))))
            else None)"

text \<open>\<open>None\<close> is a syntax or a range error.\<close>

definition parse_float :: "(string \<Rightarrow> go_float option) \<Rightarrow> string \<Rightarrow> go_float option" where
  "parse_float exotic s =
    (let (neg, r) = take_sign s; w = to_lower r
     in if w = ''inf'' \<or> w = ''infinity'' then Some (if neg then NegInf else PosInf)
        else if to_lower s = ''nan'' then Some NotANumber
        else if set s \<inter> set ''_xX'' \<noteq> {} then exotic s
        else case parse_decimal r of
          None \<Rightarrow> None
        | Some x \<Rightarrow> if 2 ^ 1024 \<le> f64 x then None else Some (Finite (if neg then - f64 x else f64 x)))"

section \<open>Durations\<close>

definition unit_ns :: "string \<Rightarrow> int option" where
  "unit_ns u =
    (if u = ''ns'' then Some 1
     else if u \<in> {''us'', [CHR 0xC2, CHR 0xB5, CHR ''s''], [CHR 0xCE, CHR 0xBC, CHR ''s'']} then Some 1000
     else if u = ''ms'' then Some 1000000
     else if u = ''s'' then Some 1000000000
     else if u = ''m'' then Some 60000000000
     else if u = ''h'' then Some 3600000000000 else None)"

text \<open>\<open>leadingFraction\<close>: digits that would overflow are dropped.\<close>

fun leading_fraction :: "string \<Rightarrow> int \<Rightarrow> int \<Rightarrow> bool \<Rightarrow> int \<times> int" where
  "leading_fraction [] x scale over = (x, scale)"
| "leading_fraction (c # cs) x scale over =
    (if over then leading_fraction cs x scale True
     else if (2 ^ 63 - 1) div 10 < x then leading_fraction cs x scale True
     else let y = x * 10 + int (digit_val c)
          in if 2 ^ 63 < y then leading_fraction cs x scale True
             else leading_fraction cs y (scale * 10) False)"

text \<open>The nanoseconds of \<open>v.fp\<close> units of \<open>w\<close>: the fraction is computed in float64 and truncated.\<close>

definition unit_value :: "int \<Rightarrow> string \<Rightarrow> int \<Rightarrow> int" where
  "unit_value v fp w =
    (let (f, scale) = leading_fraction fp 0 1 False
     in v * w + (if 0 < f then \<lfloor>f64 (f64 (of_int f) * f64 (of_int w / of_int scale))\<rfloor> else 0))"

text \<open>One \<open>number unit\<close> per turn; each consumes a character, so \<open>length s\<close> turns are enough.\<close>

fun duration_loop :: "nat \<Rightarrow> string \<Rightarrow> int \<Rightarrow> int option" where
  "duration_loop n [] d = Some d"
| "duration_loop 0 s d = None"
| "duration_loop (Suc n) s d =
    (let (ip, fp, r) = split_decimal s;
         u = takeWhile (\<lambda>c. \<not> is_digit c \<and> c \<noteq> CHR ''.'') r;
         v = int (num ip)
     in if ip = [] \<and> fp = [] then None
        else case unit_ns u of
          None \<Rightarrow> None
        | Some w \<Rightarrow>
            if 2 ^ 63 < v \<or> 2 ^ 63 div w < v then None
            else let x = unit_value v fp w
                 in if 2 ^ 63 < x \<or> 2 ^ 63 < d + x then None
                    else duration_loop n (dropWhile (\<lambda>c. \<not> is_digit c \<and> c \<noteq> CHR ''.'') r) (d + x))"

definition parse_duration :: "string \<Rightarrow> duration option" where
  "parse_duration s =
    (let (neg, r) = take_sign s
     in if r = ''0'' then Some 0
        else if r = [] then None
        else case duration_loop (length r) r 0 of
          None \<Rightarrow> None
        | Some d \<Rightarrow> if neg then Some (- d) else if 2 ^ 63 - 1 < d then None else Some d)"

section \<open>Validation\<close>

datatype config_error =
    InvalidListenAddress string
  | InvalidListenHost string string
  | InvalidInteger string
  | InvalidNumber string
  | InvalidDuration string
  | NotPositive string
  | NotNonNegative string
  | InvalidCommitMode string
  | InvalidLogLevel string
  | InvalidCidr string

text \<open>The package's own \<open>splitHostPort\<close>, not the one of \<open>net\<close>.\<close>

definition split_listen :: "string \<Rightarrow> (string \<times> string) option" where
  "split_listen addr = (case cut_last (CHR '':'') addr of
      None \<Rightarrow> None
    | Some (host, port) \<Rightarrow>
        if port = [] then None
        else if list_all is_digit port then Some (host, port) else None)"

definition validate_listen_addr :: "string \<Rightarrow> string \<Rightarrow> config_error option" where
  "validate_listen_addr name addr = (case split_listen addr of
      None \<Rightarrow> Some (InvalidListenAddress addr)
    | Some (host, port) \<Rightarrow>
        if port = [] then Some (InvalidListenAddress addr)
        else if host \<noteq> [] \<and> host \<noteq> ''localhost''
             \<and> parse_addr host = None \<and> host \<noteq> ''0.0.0.0'' \<and> host \<noteq> ''::''
        then Some (InvalidListenHost host name) else None)"

definition parse_positive_int64 :: "string \<Rightarrow> (config_error, int) res" where
  "parse_positive_int64 v = (case parse_int v of
      None \<Rightarrow> Inl (InvalidInteger v)
    | Some n \<Rightarrow> if n \<le> 0 then Inl (NotPositive v) else Inr n)"

definition parse_non_negative_int64 :: "string \<Rightarrow> (config_error, int) res" where
  "parse_non_negative_int64 v = (case parse_int v of
      None \<Rightarrow> Inl (InvalidInteger v)
    | Some n \<Rightarrow> if n < 0 then Inl (NotNonNegative v) else Inr n)"

text \<open>\<open>int\<close> has 64 bits.\<close>

definition parse_positive_int :: "string \<Rightarrow> (config_error, int) res" where
  "parse_positive_int v = (case parse_int v of
      None \<Rightarrow> Inl (InvalidInteger v)
    | Some n \<Rightarrow> if n \<le> 0 then Inl (NotPositive v) else Inr n)"

definition parse_non_negative_int :: "string \<Rightarrow> (config_error, int) res" where
  "parse_non_negative_int v = (case parse_int v of
      None \<Rightarrow> Inl (InvalidInteger v)
    | Some n \<Rightarrow> if n < 0 then Inl (NotNonNegative v) else Inr n)"

text \<open>\<open>f <= 0\<close> is false for NaN.\<close>

fun float_not_positive :: "go_float \<Rightarrow> bool" where
  "float_not_positive (Finite x) \<longleftrightarrow> x \<le> 0"
| "float_not_positive NegInf \<longleftrightarrow> True"
| "float_not_positive PosInf \<longleftrightarrow> False"
| "float_not_positive NotANumber \<longleftrightarrow> False"

definition parse_positive_float :: "(string \<Rightarrow> go_float option) \<Rightarrow> string \<Rightarrow> (config_error, go_float) res" where
  "parse_positive_float exotic v = (case parse_float exotic v of
      None \<Rightarrow> Inl (InvalidNumber v)
    | Some f \<Rightarrow> if float_not_positive f then Inl (NotPositive v) else Inr f)"

definition parse_positive_duration :: "string \<Rightarrow> (config_error, duration) res" where
  "parse_positive_duration v = (case parse_duration v of
      None \<Rightarrow> Inl (InvalidDuration v)
    | Some d \<Rightarrow> if d \<le> 0 then Inl (NotPositive v) else Inr d)"

definition validate_commit_mode :: "string \<Rightarrow> config_error option" where
  "validate_commit_mode v = (if v \<in> {''sync'', ''async'', ''memory''} then None else Some (InvalidCommitMode v))"

definition validate_log_level :: "string \<Rightarrow> config_error option" where
  "validate_log_level v = (if v \<in> {''debug'', ''info'', ''warn'', ''error''} then None else Some (InvalidLogLevel v))"

fun prefixes_of :: "string list \<Rightarrow> (config_error, prefix list) res" where
  "prefixes_of [] = Inr []"
| "prefixes_of (p # ps) =
    (let p = trim_space p
     in if p = [] then prefixes_of ps
        else let p = (if CHR ''/'' \<in> set p then p else p @ ''/32'')
             in case parse_prefix p of
                  None \<Rightarrow> Inl (InvalidCidr p)
                | Some q \<Rightarrow> (case prefixes_of ps of Inl e \<Rightarrow> Inl e | Inr qs \<Rightarrow> Inr (masked q # qs)))"

definition parse_prefixes :: "string \<Rightarrow> (config_error, prefix list) res" where
  "parse_prefixes v = prefixes_of (split_on (CHR '','') v)"

section \<open>The configuration\<close>

record config =
  c_port :: string
  c_metrics_port :: string
  c_db_path :: string
  c_api_key :: string
  c_max_body_bytes :: int
  c_max_key_bytes :: int
  c_max_db_bytes :: int
  c_memory_cache_bytes :: int
  c_commit_mode :: string
  c_flush_interval :: duration
  c_ttl :: duration
  c_cleanup_interval :: duration
  c_size_cleanup_throttle :: duration
  c_cleanup_batch_size :: int
  c_cleanup_max_runs :: int
  c_rate_limit_rps :: go_float
  c_rate_limit_burst :: int
  c_trusted_proxies :: "prefix list"
  c_shutdown_timeout :: duration
  c_log_level :: string
  c_otel_service_name :: string
  c_otlp_endpoint :: string
  c_grafana_stack_id :: string
  c_grafana_token :: string
  c_grafana_region :: string
  c_backup_dir :: string
  c_backup_interval :: duration
  c_backup_retention :: int
  c_cleanup_sweep_limit :: int

definition default_config :: "(string \<Rightarrow> string) \<Rightarrow> config" where
  "default_config getenv = \<lparr>
     c_port = '':8080'', c_metrics_port = ''127.0.0.1:9090'', c_db_path = ''./kvp.db'', c_api_key = [],
     c_max_body_bytes = 1048576, c_max_key_bytes = 256, c_max_db_bytes = 67108864, c_memory_cache_bytes = 0,
     c_commit_mode = ''sync'', c_flush_interval = second, c_ttl = 24 * 3600 * second,
     c_cleanup_interval = 3600 * second, c_size_cleanup_throttle = 60 * second,
     c_cleanup_batch_size = 1000, c_cleanup_max_runs = 64, c_rate_limit_rps = Finite 10, c_rate_limit_burst = 20,
     c_trusted_proxies = [], c_shutdown_timeout = 15 * second, c_log_level = ''info'', c_otel_service_name = ''kvp'',
     c_otlp_endpoint = getenv ''KVP_OTEL_EXPORTER_OTLP_ENDPOINT'', c_grafana_stack_id = getenv ''GRAFANA_CLOUD_STACK_ID'',
     c_grafana_token = getenv ''GRAFANA_CLOUD_API_TOKEN'', c_grafana_region = ''prod-us-central-0'',
     c_backup_dir = [], c_backup_interval = 24 * 3600 * second, c_backup_retention = 7,
     c_cleanup_sweep_limit = 10000\<rparr>"

text \<open>What the closures of \<open>Parse\<close> share: the configuration, \<open>err\<close>, \<open>memCacheSet\<close>, \<open>memCacheMB\<close>.\<close>

record parsing =
  cfg :: config
  failure :: "(string \<times> config_error) option"
  mem_set :: bool
  mem_mb :: int

definition assign :: "(string \<Rightarrow> string) \<Rightarrow> string \<Rightarrow> (string \<Rightarrow> parsing \<Rightarrow> config_error option \<times> parsing) \<Rightarrow> parsing \<Rightarrow> parsing" where
  "assign getenv name setter p =
    (if failure p \<noteq> None then p
     else case setter (getenv name) p of
       (None, p) \<Rightarrow> p
     | (Some e, p) \<Rightarrow> p\<lparr>failure := Some (name, e)\<rparr>)"

text \<open>
  The three shapes of the closures: a parsed value when the variable is not empty
  (a failed parse assigns the zero value), a string when not empty, and a string
  that is validated afterwards.
\<close>

definition set_parsed :: "(string \<Rightarrow> (config_error, 'a) res) \<Rightarrow> 'a \<Rightarrow> ('a \<Rightarrow> config \<Rightarrow> config)
    \<Rightarrow> string \<Rightarrow> parsing \<Rightarrow> config_error option \<times> parsing" where
  "set_parsed parser zero upd v p =
    (if v = [] then (None, p)
     else case parser v of
       Inl e \<Rightarrow> (Some e, p\<lparr>cfg := upd zero (cfg p)\<rparr>)
     | Inr x \<Rightarrow> (None, p\<lparr>cfg := upd x (cfg p)\<rparr>))"

definition set_string :: "(string \<Rightarrow> config \<Rightarrow> config) \<Rightarrow> (config \<Rightarrow> config_error option)
    \<Rightarrow> string \<Rightarrow> parsing \<Rightarrow> config_error option \<times> parsing" where
  "set_string upd check v p =
    (let p = (if v \<noteq> [] then p\<lparr>cfg := upd v (cfg p)\<rparr> else p) in (check (cfg p), p))"

definition set_memory :: "string \<Rightarrow> parsing \<Rightarrow> config_error option \<times> parsing" where
  "set_memory v p =
    (if v = [] then (None, p)
     else case parse_non_negative_int64 v of
       Inl e \<Rightarrow> (Some e, p\<lparr>mem_mb := 0, mem_set := True\<rparr>)
     | Inr x \<Rightarrow> (None, p\<lparr>mem_mb := x, mem_set := True\<rparr>))"

abbreviation no_check :: "config \<Rightarrow> config_error option" where
  "no_check \<equiv> \<lambda>c. None"

text \<open>The calls of \<open>assign\<close>, in their order.\<close>

definition env_settings :: "(string \<Rightarrow> go_float option) \<Rightarrow> (string \<times> (string \<Rightarrow> parsing \<Rightarrow> config_error option \<times> parsing)) list" where
  "env_settings exotic = [
    (''KVP_PORT'', set_string (\<lambda>v c. c\<lparr>c_port := v\<rparr>) (\<lambda>c. validate_listen_addr ''KVP_PORT'' (c_port c))),
    (''KVP_METRICS_PORT'', set_string (\<lambda>v c. c\<lparr>c_metrics_port := v\<rparr>) (\<lambda>c. validate_listen_addr ''KVP_METRICS_PORT'' (c_metrics_port c))),
    (''KVP_DB_PATH'', set_string (\<lambda>v c. c\<lparr>c_db_path := v\<rparr>) no_check),
    (''KVP_API_KEY'', \<lambda>v p. (None, p\<lparr>cfg := (cfg p)\<lparr>c_api_key := v\<rparr>\<rparr>)),
    (''KVP_MAX_BODY_BYTES'', set_parsed parse_positive_int64 0 (\<lambda>x c. c\<lparr>c_max_body_bytes := x\<rparr>)),
    (''KVP_MAX_KEY_BYTES'', set_parsed parse_positive_int 0 (\<lambda>x c. c\<lparr>c_max_key_bytes := x\<rparr>)),
    (''KVP_MAX_DB_BYTES'', set_parsed parse_positive_int64 0 (\<lambda>x c. c\<lparr>c_max_db_bytes := x\<rparr>)),
    (''KVP_MEMORY_CACHE_MB'', set_memory),
    (''KVP_COMMIT_MODE'', set_string (\<lambda>v c. c\<lparr>c_commit_mode := to_lower v\<rparr>) (\<lambda>c. validate_commit_mode (c_commit_mode c))),
    (''KVP_FLUSH_INTERVAL'', set_parsed parse_positive_duration 0 (\<lambda>x c. c\<lparr>c_flush_interval := x\<rparr>)),
    (''KVP_TTL'', set_parsed parse_positive_duration 0 (\<lambda>x c. c\<lparr>c_ttl := x\<rparr>)),
    (''KVP_CLEANUP_INTERVAL'', set_parsed parse_positive_duration 0 (\<lambda>x c. c\<lparr>c_cleanup_interval := x\<rparr>)),
    (''KVP_SIZE_CLEANUP_THROTTLE'', set_parsed parse_positive_duration 0 (\<lambda>x c. c\<lparr>c_size_cleanup_throttle := x\<rparr>)),
    (''KVP_CLEANUP_BATCH_SIZE'', set_parsed parse_positive_int 0 (\<lambda>x c. c\<lparr>c_cleanup_batch_size := x\<rparr>)),
    (''KVP_CLEANUP_MAX_RUNS'', set_parsed parse_positive_int 0 (\<lambda>x c. c\<lparr>c_cleanup_max_runs := x\<rparr>)),
    (''KVP_RATE_LIMIT_RPS'', set_parsed (parse_positive_float exotic) (Finite 0) (\<lambda>x c. c\<lparr>c_rate_limit_rps := x\<rparr>)),
    (''KVP_RATE_LIMIT_BURST'', set_parsed parse_positive_int 0 (\<lambda>x c. c\<lparr>c_rate_limit_burst := x\<rparr>)),
    (''KVP_SHUTDOWN_TIMEOUT'', set_parsed parse_positive_duration 0 (\<lambda>x c. c\<lparr>c_shutdown_timeout := x\<rparr>)),
    (''KVP_TRUSTED_PROXIES'', set_parsed parse_prefixes [] (\<lambda>x c. c\<lparr>c_trusted_proxies := x\<rparr>)),
    (''KVP_LOG_LEVEL'', set_string (\<lambda>v c. c\<lparr>c_log_level := v\<rparr>) (\<lambda>c. validate_log_level (c_log_level c))),
    (''KVP_OTEL_SERVICE_NAME'', set_string (\<lambda>v c. c\<lparr>c_otel_service_name := v\<rparr>) no_check),
    (''GRAFANA_CLOUD_REGION'', set_string (\<lambda>v c. c\<lparr>c_grafana_region := v\<rparr>) no_check),
    (''KVP_BACKUP_DIR'', \<lambda>v p. (None, p\<lparr>cfg := (cfg p)\<lparr>c_backup_dir := v\<rparr>\<rparr>)),
    (''KVP_BACKUP_INTERVAL'', set_parsed parse_positive_duration 0 (\<lambda>x c. c\<lparr>c_backup_interval := x\<rparr>)),
    (''KVP_BACKUP_RETENTION'', set_parsed parse_positive_int 0 (\<lambda>x c. c\<lparr>c_backup_retention := x\<rparr>)),
    (''KVP_CLEANUP_SWEEP_LIMIT'', set_parsed parse_non_negative_int 0 (\<lambda>x c. c\<lparr>c_cleanup_sweep_limit := x\<rparr>))]"

text \<open>\<open>int64\<close> multiplication wraps.\<close>

definition wrap64 :: "int \<Rightarrow> int" where
  "wrap64 x = (x + 2 ^ 63) mod 2 ^ 64 - 2 ^ 63"

definition parse_env :: "(string \<Rightarrow> go_float option) \<Rightarrow> (string \<Rightarrow> string) \<Rightarrow> config \<times> (string \<times> config_error) option" where
  "parse_env exotic getenv =
    (let p = \<lparr>cfg = default_config getenv, failure = None, mem_set = False, mem_mb = 0\<rparr>;
         p = fold (\<lambda>(name, setter). assign getenv name setter) (env_settings exotic) p;
         c = cfg p
     in (if mem_set p then c\<lparr>c_memory_cache_bytes := wrap64 (wrap64 (mem_mb p * 1024) * 1024)\<rparr>
         else c\<lparr>c_memory_cache_bytes := c_max_db_bytes c\<rparr>, failure p))"

end
