(* ===== verification/Config_Laws.thy ===== *)
theory Config_Laws
  imports Config
begin

text \<open>
  The properties of the configuration. A table gives, variable by variable and
  independently of the others, the error of its value and the field it decides;
  \<open>Parse\<close>, which threads one record and one error through its closures, is shown
  to agree with the table, and the consequences are read off the table.
\<close>

section \<open>The table\<close>

definition given :: "string \<Rightarrow> string \<Rightarrow> string" where
  "given v d = (if v = [] then d else v)"

definition rejected :: "(string \<Rightarrow> (config_error, 'a) res) \<Rightarrow> string \<Rightarrow> config_error option" where
  "rejected parser v = (if v = [] then None else case parser v of Inl e \<Rightarrow> Some e | Inr x \<Rightarrow> None)"

definition chosen :: "(string \<Rightarrow> (config_error, 'a) res) \<Rightarrow> 'a \<Rightarrow> 'a \<Rightarrow> string \<Rightarrow> 'a" where
  "chosen parser zero d v = (if v = [] then d else case parser v of Inl e \<Rightarrow> zero | Inr x \<Rightarrow> x)"

definition env_checks :: "(string \<Rightarrow> go_float option) \<Rightarrow> (string \<Rightarrow> string) \<Rightarrow> (string \<times> config_error option) list" where
  "env_checks exotic getenv = [
    (''KVP_PORT'', validate_listen_addr ''KVP_PORT'' (given (getenv ''KVP_PORT'') '':8080'')),
    (''KVP_METRICS_PORT'', validate_listen_addr ''KVP_METRICS_PORT'' (given (getenv ''KVP_METRICS_PORT'') ''127.0.0.1:9090'')),
    (''KVP_DB_PATH'', None),
    (''KVP_API_KEY'', None),
    (''KVP_MAX_BODY_BYTES'', rejected parse_positive_int64 (getenv ''KVP_MAX_BODY_BYTES'')),
    (''KVP_MAX_KEY_BYTES'', rejected parse_positive_int (getenv ''KVP_MAX_KEY_BYTES'')),
    (''KVP_MAX_DB_BYTES'', rejected parse_positive_int64 (getenv ''KVP_MAX_DB_BYTES'')),
    (''KVP_MEMORY_CACHE_MB'', rejected parse_non_negative_int64 (getenv ''KVP_MEMORY_CACHE_MB'')),
    (''KVP_COMMIT_MODE'', validate_commit_mode (given (to_lower (getenv ''KVP_COMMIT_MODE'')) ''sync'')),
    (''KVP_FLUSH_INTERVAL'', rejected parse_positive_duration (getenv ''KVP_FLUSH_INTERVAL'')),
    (''KVP_TTL'', rejected parse_positive_duration (getenv ''KVP_TTL'')),
    (''KVP_CLEANUP_INTERVAL'', rejected parse_positive_duration (getenv ''KVP_CLEANUP_INTERVAL'')),
    (''KVP_SIZE_CLEANUP_THROTTLE'', rejected parse_positive_duration (getenv ''KVP_SIZE_CLEANUP_THROTTLE'')),
    (''KVP_CLEANUP_BATCH_SIZE'', rejected parse_positive_int (getenv ''KVP_CLEANUP_BATCH_SIZE'')),
    (''KVP_CLEANUP_MAX_RUNS'', rejected parse_positive_int (getenv ''KVP_CLEANUP_MAX_RUNS'')),
    (''KVP_RATE_LIMIT_RPS'', rejected (parse_positive_float exotic) (getenv ''KVP_RATE_LIMIT_RPS'')),
    (''KVP_RATE_LIMIT_BURST'', rejected parse_positive_int (getenv ''KVP_RATE_LIMIT_BURST'')),
    (''KVP_SHUTDOWN_TIMEOUT'', rejected parse_positive_duration (getenv ''KVP_SHUTDOWN_TIMEOUT'')),
    (''KVP_TRUSTED_PROXIES'', rejected parse_prefixes (getenv ''KVP_TRUSTED_PROXIES'')),
    (''KVP_LOG_LEVEL'', validate_log_level (given (getenv ''KVP_LOG_LEVEL'') ''info'')),
    (''KVP_OTEL_SERVICE_NAME'', None),
    (''GRAFANA_CLOUD_REGION'', None),
    (''KVP_BACKUP_DIR'', None),
    (''KVP_BACKUP_INTERVAL'', rejected parse_positive_duration (getenv ''KVP_BACKUP_INTERVAL'')),
    (''KVP_BACKUP_RETENTION'', rejected parse_positive_int (getenv ''KVP_BACKUP_RETENTION'')),
    (''KVP_CLEANUP_SWEEP_LIMIT'', rejected parse_non_negative_int (getenv ''KVP_CLEANUP_SWEEP_LIMIT''))]"

definition env_config :: "(string \<Rightarrow> go_float option) \<Rightarrow> (string \<Rightarrow> string) \<Rightarrow> config" where
  "env_config exotic getenv =
    (let max_db = chosen parse_positive_int64 0 67108864 (getenv ''KVP_MAX_DB_BYTES'') in \<lparr>
     c_port = given (getenv ''KVP_PORT'') '':8080'',
     c_metrics_port = given (getenv ''KVP_METRICS_PORT'') ''127.0.0.1:9090'',
     c_db_path = given (getenv ''KVP_DB_PATH'') ''./kvp.db'',
     c_api_key = getenv ''KVP_API_KEY'',
     c_max_body_bytes = chosen parse_positive_int64 0 1048576 (getenv ''KVP_MAX_BODY_BYTES''),
     c_max_key_bytes = chosen parse_positive_int 0 256 (getenv ''KVP_MAX_KEY_BYTES''),
     c_max_db_bytes = max_db,
     c_memory_cache_bytes = (if getenv ''KVP_MEMORY_CACHE_MB'' = [] then max_db
       else wrap64 (wrap64 (chosen parse_non_negative_int64 0 0 (getenv ''KVP_MEMORY_CACHE_MB'') * 1024) * 1024)),
     c_commit_mode = given (to_lower (getenv ''KVP_COMMIT_MODE'')) ''sync'',
     c_flush_interval = chosen parse_positive_duration 0 second (getenv ''KVP_FLUSH_INTERVAL''),
     c_ttl = chosen parse_positive_duration 0 (24 * 3600 * second) (getenv ''KVP_TTL''),
     c_cleanup_interval = chosen parse_positive_duration 0 (3600 * second) (getenv ''KVP_CLEANUP_INTERVAL''),
     c_size_cleanup_throttle = chosen parse_positive_duration 0 (60 * second) (getenv ''KVP_SIZE_CLEANUP_THROTTLE''),
     c_cleanup_batch_size = chosen parse_positive_int 0 1000 (getenv ''KVP_CLEANUP_BATCH_SIZE''),
     c_cleanup_max_runs = chosen parse_positive_int 0 64 (getenv ''KVP_CLEANUP_MAX_RUNS''),
     c_rate_limit_rps = chosen (parse_positive_float exotic) (Finite 0) (Finite 10) (getenv ''KVP_RATE_LIMIT_RPS''),
     c_rate_limit_burst = chosen parse_positive_int 0 20 (getenv ''KVP_RATE_LIMIT_BURST''),
     c_trusted_proxies = chosen parse_prefixes [] [] (getenv ''KVP_TRUSTED_PROXIES''),
     c_shutdown_timeout = chosen parse_positive_duration 0 (15 * second) (getenv ''KVP_SHUTDOWN_TIMEOUT''),
     c_log_level = given (getenv ''KVP_LOG_LEVEL'') ''info'',
     c_otel_service_name = given (getenv ''KVP_OTEL_SERVICE_NAME'') ''kvp'',
     c_otlp_endpoint = getenv ''KVP_OTEL_EXPORTER_OTLP_ENDPOINT'',
     c_grafana_stack_id = getenv ''GRAFANA_CLOUD_STACK_ID'',
     c_grafana_token = getenv ''GRAFANA_CLOUD_API_TOKEN'',
     c_grafana_region = given (getenv ''GRAFANA_CLOUD_REGION'') ''prod-us-central-0'',
     c_backup_dir = getenv ''KVP_BACKUP_DIR'',
     c_backup_interval = chosen parse_positive_duration 0 (24 * 3600 * second) (getenv ''KVP_BACKUP_INTERVAL''),
     c_backup_retention = chosen parse_positive_int 0 7 (getenv ''KVP_BACKUP_RETENTION''),
     c_cleanup_sweep_limit = chosen parse_non_negative_int 0 10000 (getenv ''KVP_CLEANUP_SWEEP_LIMIT'')\<rparr>)"

fun first_error :: "(string \<times> config_error option) list \<Rightarrow> (string \<times> config_error) option" where
  "first_error [] = None"
| "first_error ((n, None) # t) = first_error t"
| "first_error ((n, Some e) # t) = Some (n, e)"

section \<open>The closures follow the table\<close>

text \<open>The run ends with the first error of the table, and when there is none in the state \<open>q\<close>.\<close>

definition outcome :: "(string \<times> config_error option) list \<Rightarrow> parsing \<Rightarrow> parsing \<Rightarrow> bool" where
  "outcome t q r \<longleftrightarrow> failure r = first_error t \<and> (failure r = None \<longrightarrow> r = q)"

lemma assign_failed: "failure p \<noteq> None \<Longrightarrow> fold (\<lambda>(name, setter). assign getenv name setter) ss p = p"
  by (induction ss) (auto simp: assign_def)

abbreviation run_settings where
  "run_settings getenv \<equiv> fold (\<lambda>(name, setter). assign getenv name setter)"

lemma outcome_Cons:
  assumes "failure p = None" "failure (snd (setter (getenv n) p)) = None" "fst (setter (getenv n) p) = e"
  shows "outcome ((n, e) # t) q (run_settings getenv ((n, setter) # ss) p)
    \<longleftrightarrow> e \<noteq> None \<or> outcome t q (run_settings getenv ss (snd (setter (getenv n) p)))"
  using assms by (cases "setter (getenv n) p") (auto simp: outcome_def assign_def assign_failed split: option.split)

lemma outcome_Nil: "failure p = None \<Longrightarrow> outcome [] q (run_settings getenv [] p) \<longleftrightarrow> p = q"
  by (simp add: outcome_def)

lemma set_parsed_table:
  assumes "\<And>c. upd (get c) c = c"
  shows "set_parsed parser zero upd v \<lparr>cfg = c, failure = f, mem_set = s, mem_mb = m\<rparr>
    = (rejected parser v, \<lparr>cfg = upd (chosen parser zero (get c) v) c, failure = f, mem_set = s, mem_mb = m\<rparr>)"
  using assms by (auto simp: set_parsed_def rejected_def chosen_def split: sum.split)

lemma set_string_table:
  assumes "\<And>c. upd (get c) c = c"
  shows "set_string upd check v \<lparr>cfg = c, failure = f, mem_set = s, mem_mb = m\<rparr>
    = (check (upd (given v (get c)) c), \<lparr>cfg = upd (given v (get c)) c, failure = f, mem_set = s, mem_mb = m\<rparr>)"
  using assms by (simp add: set_string_def given_def Let_def)

lemma set_commit_table:
  "set_string (\<lambda>v c. c\<lparr>c_commit_mode := to_lower v\<rparr>) check v \<lparr>cfg = c, failure = f, mem_set = s, mem_mb = m\<rparr>
    = (check (c\<lparr>c_commit_mode := given (to_lower v) (c_commit_mode c)\<rparr>),
       \<lparr>cfg = c\<lparr>c_commit_mode := given (to_lower v) (c_commit_mode c)\<rparr>, failure = f, mem_set = s, mem_mb = m\<rparr>)"
  by (simp add: set_string_def given_def Let_def to_lower_def)

lemma set_memory_table:
  "set_memory v \<lparr>cfg = c, failure = f, mem_set = False, mem_mb = 0\<rparr>
    = (rejected parse_non_negative_int64 v,
       \<lparr>cfg = c, failure = f, mem_set = (v \<noteq> []), mem_mb = chosen parse_non_negative_int64 0 0 v\<rparr>)"
  by (auto simp: set_memory_def rejected_def chosen_def split: sum.split)

text \<open>One instance per field; the commit mode is in lower case.\<close>

lemmas setting_tables =
  set_parsed_table [where get = c_max_body_bytes and upd = "\<lambda>x c. c\<lparr>c_max_body_bytes := x\<rparr>", simplified]
  set_parsed_table [where get = c_max_key_bytes and upd = "\<lambda>x c. c\<lparr>c_max_key_bytes := x\<rparr>", simplified]
  set_parsed_table [where get = c_max_db_bytes and upd = "\<lambda>x c. c\<lparr>c_max_db_bytes := x\<rparr>", simplified]
  set_parsed_table [where get = c_flush_interval and upd = "\<lambda>x c. c\<lparr>c_flush_interval := x\<rparr>", simplified]
  set_parsed_table [where get = c_ttl and upd = "\<lambda>x c. c\<lparr>c_ttl := x\<rparr>", simplified]
  set_parsed_table [where get = c_cleanup_interval and upd = "\<lambda>x c. c\<lparr>c_cleanup_interval := x\<rparr>", simplified]
  set_parsed_table [where get = c_size_cleanup_throttle and upd = "\<lambda>x c. c\<lparr>c_size_cleanup_throttle := x\<rparr>", simplified]
  set_parsed_table [where get = c_cleanup_batch_size and upd = "\<lambda>x c. c\<lparr>c_cleanup_batch_size := x\<rparr>", simplified]
  set_parsed_table [where get = c_cleanup_max_runs and upd = "\<lambda>x c. c\<lparr>c_cleanup_max_runs := x\<rparr>", simplified]
  set_parsed_table [where get = c_rate_limit_rps and upd = "\<lambda>x c. c\<lparr>c_rate_limit_rps := x\<rparr>", simplified]
  set_parsed_table [where get = c_rate_limit_burst and upd = "\<lambda>x c. c\<lparr>c_rate_limit_burst := x\<rparr>", simplified]
  set_parsed_table [where get = c_shutdown_timeout and upd = "\<lambda>x c. c\<lparr>c_shutdown_timeout := x\<rparr>", simplified]
  set_parsed_table [where get = c_trusted_proxies and upd = "\<lambda>x c. c\<lparr>c_trusted_proxies := x\<rparr>", simplified]
  set_parsed_table [where get = c_backup_interval and upd = "\<lambda>x c. c\<lparr>c_backup_interval := x\<rparr>", simplified]
  set_parsed_table [where get = c_backup_retention and upd = "\<lambda>x c. c\<lparr>c_backup_retention := x\<rparr>", simplified]
  set_parsed_table [where get = c_cleanup_sweep_limit and upd = "\<lambda>x c. c\<lparr>c_cleanup_sweep_limit := x\<rparr>", simplified]
  set_string_table [where get = c_port and upd = "\<lambda>x c. c\<lparr>c_port := x\<rparr>", simplified]
  set_string_table [where get = c_metrics_port and upd = "\<lambda>x c. c\<lparr>c_metrics_port := x\<rparr>", simplified]
  set_string_table [where get = c_db_path and upd = "\<lambda>x c. c\<lparr>c_db_path := x\<rparr>", simplified]
  set_string_table [where get = c_log_level and upd = "\<lambda>x c. c\<lparr>c_log_level := x\<rparr>", simplified]
  set_string_table [where get = c_otel_service_name and upd = "\<lambda>x c. c\<lparr>c_otel_service_name := x\<rparr>", simplified]
  set_string_table [where get = c_grafana_region and upd = "\<lambda>x c. c\<lparr>c_grafana_region := x\<rparr>", simplified]
  set_commit_table set_memory_table

lemma settings_outcome:
  "outcome (env_checks exotic getenv)
    \<lparr>cfg = (env_config exotic getenv)\<lparr>c_memory_cache_bytes := 0\<rparr>, failure = None,
      mem_set = (getenv ''KVP_MEMORY_CACHE_MB'' \<noteq> []),
      mem_mb = chosen parse_non_negative_int64 0 0 (getenv ''KVP_MEMORY_CACHE_MB'')\<rparr>
    (run_settings getenv (env_settings exotic)
      \<lparr>cfg = default_config getenv, failure = None, mem_set = False, mem_mb = 0\<rparr>)"
  unfolding env_checks_def env_settings_def default_config_def
  by (simp add: outcome_Cons outcome_Nil setting_tables env_config_def Let_def del: fold.simps)

lemma parse_env_table:
  "snd (parse_env exotic getenv) = first_error (env_checks exotic getenv)"
  "first_error (env_checks exotic getenv) = None \<Longrightarrow> fst (parse_env exotic getenv) = env_config exotic getenv"
  using settings_outcome [of exotic getenv]
  by (auto simp: parse_env_def outcome_def Let_def env_config_def)

section \<open>What the parsers accept\<close>

lemma first_error_None: "first_error t = None \<longleftrightarrow> list_all (\<lambda>(n, e). e = None) t"
  by (induction t rule: first_error.induct) auto

lemma parse_int_range: "parse_int s = Some n \<Longrightarrow> - (2 ^ 63) \<le> n \<and> n < 2 ^ 63"
  by (auto simp: parse_int_def Let_def split: prod.splits if_splits)

lemma leading_fraction_nonneg: "0 \<le> x \<Longrightarrow> 0 < scale \<Longrightarrow>
    0 \<le> fst (leading_fraction cs x scale over) \<and> 0 < snd (leading_fraction cs x scale over)"
  by (induction cs x scale over rule: leading_fraction.induct) (auto simp: Let_def)

lemma unit_ns_pos: "unit_ns u = Some w \<Longrightarrow> 0 < w"
  by (auto simp: unit_ns_def split: if_splits)

lemma unit_value_nonneg:
  assumes "0 \<le> v" "0 < w"
  shows "0 \<le> unit_value v fp w"
  using assms leading_fraction_nonneg [of 0 1 fp False]
  by (auto simp: unit_value_def case_prod_beta intro!: f64_nonneg add_nonneg_nonneg mult_nonneg_nonneg)

lemma duration_loop_range: "duration_loop n s d = Some x \<Longrightarrow> 0 \<le> d \<Longrightarrow> d \<le> 2 ^ 63 \<Longrightarrow> 0 \<le> x \<and> x \<le> 2 ^ 63"
proof (induction n s d rule: duration_loop.induct)
  case (3 n c s d)
  obtain ip fp r where sd: "split_decimal (c # s) = (ip, fp, r)" by (metis surj_pair)
  from 3 sd show ?case
    by (auto simp: Let_def unit_ns_pos unit_value_nonneg split: if_splits option.splits)
qed auto

lemma parse_duration_range: "parse_duration s = Some d \<Longrightarrow> - (2 ^ 63) \<le> d \<and> d < 2 ^ 63"
  using duration_loop_range [where d = 0]
  by (fastforce simp: parse_duration_def Let_def split: prod.splits if_splits option.splits)

lemma positive_accepted:
  "parse_positive_int64 v = Inr n \<Longrightarrow> 0 < n \<and> n < 2 ^ 63"
  "parse_positive_int v = Inr n \<Longrightarrow> 0 < n \<and> n < 2 ^ 63"
  "parse_non_negative_int64 v = Inr n \<Longrightarrow> 0 \<le> n \<and> n < 2 ^ 63"
  "parse_non_negative_int v = Inr n \<Longrightarrow> 0 \<le> n \<and> n < 2 ^ 63"
  "parse_positive_duration v = Inr d \<Longrightarrow> 0 < d \<and> d < 2 ^ 63"
  by (auto simp: parse_positive_int64_def parse_positive_int_def parse_non_negative_int64_def
      parse_non_negative_int_def parse_positive_duration_def
      dest: parse_int_range parse_duration_range split: option.splits if_splits)

lemma positive_float_accepted: "parse_positive_float exotic v = Inr f \<Longrightarrow> \<not> float_not_positive f"
  by (auto simp: parse_positive_float_def split: option.splits if_splits)

lemma parse_prefix_bits: "parse_prefix s = Some p \<Longrightarrow> p_bits p \<le> addr_bits (p_ip p)"
  by (auto simp: parse_prefix_def split: option.splits prod.splits if_splits)

lemma masked_simps: "p_bits (masked p) = p_bits p" "addr_bits (p_ip (masked p)) = addr_bits (p_ip p)"
  "addr_zone (p_ip (masked p)) = []"
  by (cases p; cases "p_ip p"; simp)+

lemma prefixes_accepted:
  "prefixes_of ps = Inr qs \<Longrightarrow> q \<in> set qs \<Longrightarrow> masked q = q \<and> p_bits q \<le> addr_bits (p_ip q)"
  by (induction ps arbitrary: qs)
     (auto simp: Let_def masked_idem masked_simps dest!: parse_prefix_bits split: if_splits option.splits sum.splits)

lemma chosen_accepted:
  assumes "rejected parser v = None" "\<And>x. parser v = Inr x \<Longrightarrow> P x" "P d"
  shows "P (chosen parser z d v)"
  using assms by (auto simp: rejected_def chosen_def split: if_splits sum.splits)

section \<open>A configuration that parses is usable\<close>

definition in_range0 :: "int \<Rightarrow> bool" where
  "in_range0 n \<longleftrightarrow> 0 \<le> n \<and> n < 2 ^ 63"

definition in_range :: "int \<Rightarrow> bool" where
  "in_range n \<longleftrightarrow> 0 < n \<and> n < 2 ^ 63"

definition prefix_ok :: "prefix \<Rightarrow> bool" where
  "prefix_ok q \<longleftrightarrow> masked q = q \<and> p_bits q \<le> addr_bits (p_ip q)"

definition config_ok :: "config \<Rightarrow> bool" where
  "config_ok c \<longleftrightarrow>
     validate_listen_addr ''KVP_PORT'' (c_port c) = None
     \<and> validate_listen_addr ''KVP_METRICS_PORT'' (c_metrics_port c) = None
     \<and> list_all in_range [c_max_body_bytes c, c_max_key_bytes c, c_max_db_bytes c,
         c_cleanup_batch_size c, c_cleanup_max_runs c, c_rate_limit_burst c, c_backup_retention c]
     \<and> list_all in_range [c_flush_interval c, c_ttl c, c_cleanup_interval c, c_size_cleanup_throttle c,
         c_shutdown_timeout c, c_backup_interval c]
     \<and> in_range0 (c_cleanup_sweep_limit c)
     \<and> \<not> float_not_positive (c_rate_limit_rps c)
     \<and> c_commit_mode c \<in> {''sync'', ''async'', ''memory''}
     \<and> c_log_level c \<in> {''debug'', ''info'', ''warn'', ''error''}
     \<and> list_all prefix_ok (c_trusted_proxies c)"

lemma chosen_in_range:
  "rejected parse_positive_int64 v = None \<Longrightarrow> in_range d \<Longrightarrow> in_range (chosen parse_positive_int64 z d v)"
  "rejected parse_positive_int v = None \<Longrightarrow> in_range d \<Longrightarrow> in_range (chosen parse_positive_int z d v)"
  "rejected parse_positive_duration v = None \<Longrightarrow> in_range d \<Longrightarrow> in_range (chosen parse_positive_duration z d v)"
  by (rule chosen_accepted [where P = in_range]; auto simp: in_range_def dest: positive_accepted)+

lemma chosen_prefixes: "rejected parse_prefixes v = None \<Longrightarrow> list_all prefix_ok (chosen parse_prefixes z [] v)"
  by (rule chosen_accepted [where P = "list_all prefix_ok" and parser = parse_prefixes])
     (auto simp: list_all_iff prefix_ok_def parse_prefixes_def dest: prefixes_accepted)

lemma chosen_rps: "rejected (parse_positive_float exotic) v = None
    \<Longrightarrow> \<not> float_not_positive (chosen (parse_positive_float exotic) z (Finite 10) v)"
  by (rule chosen_accepted [where P = "\<lambda>f. \<not> float_not_positive f"]) (auto dest: positive_float_accepted)

lemma chosen_limit: "rejected parse_non_negative_int v = None \<Longrightarrow> in_range0 (chosen parse_non_negative_int z 10000 v)"
  by (rule chosen_accepted [where P = in_range0]) (auto simp: in_range0_def dest: positive_accepted)

lemma validated:
  "validate_commit_mode v = None \<longleftrightarrow> v \<in> {''sync'', ''async'', ''memory''}"
  "validate_log_level v = None \<longleftrightarrow> v \<in> {''debug'', ''info'', ''warn'', ''error''}"
  by (simp_all add: validate_commit_mode_def validate_log_level_def)

lemma in_range_defaults: "in_range (numeral k) \<longleftrightarrow> numeral k < (2 ^ 63 :: int)"
  by (simp add: in_range_def)

lemma env_config_ok: "first_error (env_checks exotic getenv) = None \<Longrightarrow> config_ok (env_config exotic getenv)"
  by (simp add: first_error_None env_checks_def config_ok_def env_config_def Let_def validated second_def
      chosen_in_range chosen_prefixes chosen_rps chosen_limit in_range_defaults)

lemma parsed_env:
  assumes "parse_env exotic getenv = (c, None)"
  shows "first_error (env_checks exotic getenv) = None" "c = env_config exotic getenv"
proof -
  show "first_error (env_checks exotic getenv) = None"
    using parse_env_table(1) [of exotic getenv] assms by simp
  then show "c = env_config exotic getenv" using parse_env_table(2) [of exotic getenv] assms by simp
qed

lemma parse_envI: "first_error (env_checks exotic getenv) = None \<Longrightarrow> parse_env exotic getenv = (env_config exotic getenv, None)"
  by (simp add: parse_env_table prod_eq_iff)

section \<open>The environment decides the configuration\<close>

text \<open>C35: \<open>Parse\<close> reports the first variable, in its order, whose own value is
  invalid, whatever the others hold; when there is none every field is the default or
  the value of its own variable and of no other.\<close>
theorem parse_decided:
  "snd (parse_env exotic getenv) = first_error (env_checks exotic getenv)
   \<and> (first_error (env_checks exotic getenv) = None \<longrightarrow> fst (parse_env exotic getenv) = env_config exotic getenv)"
  using parse_env_table by blast

lemma default_listen_addrs:
  "validate_listen_addr n '':8080'' = None" "validate_listen_addr n ''127.0.0.1:9090'' = None"
  by code_simp+

definition env_of :: "(string \<times> string) list \<Rightarrow> string \<Rightarrow> string" where
  "env_of al n = (case map_of al n of None \<Rightarrow> [] | Some v \<Rightarrow> v)"


text \<open>The default TTL is overridden; a wrong mode is reported before a wrong duration.\<close>
lemma parse_decided_witness:
  "c_ttl (fst (parse_env (\<lambda>s. None) (env_of [(''KVP_TTL'', ''1h30m'')]))) = 5400000000000
   \<and> snd (parse_env (\<lambda>s. None) (env_of [(''KVP_TTL'', ''90''), (''KVP_COMMIT_MODE'', ''Fsync'')]))
     = Some (''KVP_COMMIT_MODE'', InvalidCommitMode ''fsync'')"
proof
  let ?env = "env_of [(''KVP_TTL'', ''1h30m'')]"
  have "first_error (env_checks (\<lambda>s. None) ?env) = None" by code_simp
  moreover have "c_ttl (env_config (\<lambda>s. None) ?env) = 5400000000000" by code_simp
  ultimately show "c_ttl (fst (parse_env (\<lambda>s. None) ?env)) = 5400000000000"
    using parse_decided [of "\<lambda>s. None" ?env] by simp
next
  let ?env = "env_of [(''KVP_TTL'', ''90''), (''KVP_COMMIT_MODE'', ''Fsync'')]"
  have "first_error (env_checks (\<lambda>s. None) ?env) = Some (''KVP_COMMIT_MODE'', InvalidCommitMode ''fsync'')" by code_simp
  then show "snd (parse_env (\<lambda>s. None) ?env) = Some (''KVP_COMMIT_MODE'', InvalidCommitMode ''fsync'')"
    using parse_decided [of "\<lambda>s. None" ?env] by simp
qed

text \<open>C36: A configuration that \<open>Parse\<close> returns without an error has listen addresses
  that pass the validation, sizes, batches, bursts, retention and intervals that are
  positive and fit 64 bits, a non-negative sweep limit, a rate that is not at most 0, one of
  the three commit modes, one of the four levels, and masked proxy networks.\<close>
theorem parsed_config_ok:
  assumes "parse_env exotic getenv = (c, None)"
  shows "config_ok c"
  using parsed_env [OF assms] env_config_ok by blast

lemma parsed_config_ok_witness:
  "config_ok (env_config (\<lambda>s. None) (env_of [(''KVP_RATE_LIMIT_RPS'', ''+Inf''), (''KVP_TRUSTED_PROXIES'', ''10.1.2.3/8'')]))"
proof (rule parsed_config_ok, rule parse_envI)
  show "first_error (env_checks (\<lambda>s. None) (env_of [(''KVP_RATE_LIMIT_RPS'', ''+Inf''), (''KVP_TRUSTED_PROXIES'', ''10.1.2.3/8'')])) = None"
    by code_simp
qed

section \<open>The memory budget\<close>

lemma wrap64_mod: "wrap64 x mod 2 ^ 64 = x mod 2 ^ 64"
  by (simp add: wrap64_def mod_diff_left_eq)

lemma wrap64_cong: "x mod 2 ^ 64 = y mod 2 ^ 64 \<Longrightarrow> wrap64 x = wrap64 y"
  unfolding wrap64_def by (metis mod_add_left_eq)

lemma wrap64_mult: "wrap64 (wrap64 x * y) = wrap64 (x * y)"
  by (rule wrap64_cong) (metis wrap64_mod mod_mult_left_eq)

lemma wrap64_id: "wrap64 x = x \<longleftrightarrow> - (2 ^ 63) \<le> x \<and> x < 2 ^ 63"
proof
  have "0 \<le> (x + 2 ^ 63) mod 2 ^ 64" "(x + 2 ^ 63) mod 2 ^ 64 < 2 ^ 64" by simp_all
  then show "wrap64 x = x \<Longrightarrow> - (2 ^ 63) \<le> x \<and> x < 2 ^ 63" unfolding wrap64_def by simp
next
  show "- (2 ^ 63) \<le> x \<and> x < 2 ^ 63 \<Longrightarrow> wrap64 x = x"
    unfolding wrap64_def by (subst mod_pos_pos_trivial) auto
qed

lemma memory_bytes:
  assumes "parse_env exotic getenv = (c, None)" "getenv ''KVP_MEMORY_CACHE_MB'' \<noteq> []"
  obtains n where "parse_int (getenv ''KVP_MEMORY_CACHE_MB'') = Some n" "0 \<le> n" "n < 2 ^ 63"
    "c_memory_cache_bytes c = wrap64 (n * 1048576)"
proof -
  have "rejected parse_non_negative_int64 (getenv ''KVP_MEMORY_CACHE_MB'') = None"
    using parsed_env(1) [OF assms(1)] by (simp add: first_error_None env_checks_def)
  with assms(2) obtain n where n: "parse_non_negative_int64 (getenv ''KVP_MEMORY_CACHE_MB'') = Inr n"
    by (auto simp: rejected_def split: sum.splits)
  then have "parse_int (getenv ''KVP_MEMORY_CACHE_MB'') = Some n"
    by (auto simp: parse_non_negative_int64_def split: option.splits if_splits)
  moreover have "c_memory_cache_bytes c = wrap64 (n * 1048576)"
    using n assms(2) by (simp add: parsed_env(2) [OF assms(1)] env_config_def Let_def chosen_def wrap64_mult mult.assoc)
  ultimately show ?thesis using that positive_accepted(3) [OF n] by blast
qed

text \<open>C37: Unset, the memory budget is the database budget; set to \<open>n\<close> it is
  \<open>n\<close> MiB modulo \<open>2^64\<close>, which is the budget asked for exactly when \<open>n\<close> is below
  \<open>2^43\<close>: larger values are accepted and turn into another budget, also none or a
  negative one.\<close>
theorem memory_budget:
  assumes "parse_env exotic getenv = (c, None)"
  shows "if getenv ''KVP_MEMORY_CACHE_MB'' = [] then c_memory_cache_bytes c = c_max_db_bytes c
    else \<exists>n. parse_int (getenv ''KVP_MEMORY_CACHE_MB'') = Some n \<and> 0 \<le> n \<and> n < 2 ^ 63
      \<and> c_memory_cache_bytes c = wrap64 (n * 1048576)
      \<and> (c_memory_cache_bytes c = n * 1048576 \<longleftrightarrow> n < 2 ^ 43)"
proof (cases "getenv ''KVP_MEMORY_CACHE_MB'' = []")
  case True
  then show ?thesis by (simp add: parsed_env(2) [OF assms] env_config_def Let_def)
next
  case False
  obtain n where n: "parse_int (getenv ''KVP_MEMORY_CACHE_MB'') = Some n" "0 \<le> n" "n < 2 ^ 63"
    "c_memory_cache_bytes c = wrap64 (n * 1048576)"
    using memory_bytes [OF assms False] .
  moreover have "wrap64 (n * 1048576) = n * 1048576 \<longleftrightarrow> n < 2 ^ 43" using n(2) by (auto simp: wrap64_id)
  ultimately show ?thesis using False by simp
qed

lemma memory_budget_witness:
  "c_memory_cache_bytes (env_config (\<lambda>s. None) (env_of [(''KVP_MEMORY_CACHE_MB'', ''8796093022208'')])) = - (2 ^ 63)
   \<and> c_memory_cache_bytes (env_config (\<lambda>s. None) (env_of [(''KVP_MEMORY_CACHE_MB'', ''17592186044416'')])) = 0"
proof -
  have ok: "parse_env (\<lambda>s. None) (env_of [(''KVP_MEMORY_CACHE_MB'', ''8796093022208'')])
      = (env_config (\<lambda>s. None) (env_of [(''KVP_MEMORY_CACHE_MB'', ''8796093022208'')]), None)"
    "parse_env (\<lambda>s. None) (env_of [(''KVP_MEMORY_CACHE_MB'', ''17592186044416'')])
      = (env_config (\<lambda>s. None) (env_of [(''KVP_MEMORY_CACHE_MB'', ''17592186044416'')]), None)"
    by (rule parse_envI, code_simp)+
  have vals: "parse_int ''8796093022208'' = Some (2 ^ 43)" "parse_int ''17592186044416'' = Some (2 ^ 44)" by code_simp+
  show ?thesis
    using memory_budget [OF ok(1)] memory_budget [OF ok(2)] by (simp add: env_of_def vals wrap64_def)
qed

section \<open>Addresses without a prefix length, and listen addresses\<close>

lemma trim_space_id: "list_all (\<lambda>c. \<not> is_space c) s \<Longrightarrow> trim_space s = s"
  unfolding trim_space_def list_all_iff by (subst (2) dropWhile_id, blast, subst dropWhile_id) auto

lemma bare_prefix:
  assumes "parse_addr s = Some ip" "addr_zone ip = []"
    and plain: "CHR '','' \<notin> set s" "CHR ''/'' \<notin> set s" "list_all (\<lambda>c. \<not> is_space c) s"
  shows "parse_prefixes s = Inr [masked \<lparr>p_ip = ip, p_bits = 32\<rparr>]"
proof -
  have "s \<noteq> []" using assms(1) by (auto simp: parse_addr_def)
  moreover have "parse_prefix (s @ ''/32'') = Some \<lparr>p_ip = ip, p_bits = 32\<rparr>"
  proof -
    have "cut_last (CHR ''/'') (s @ CHR ''/'' # ''32'') = Some (s, ''32'')" by (rule cut_last_append) simp
    moreover have "num ''32'' = 32" "list_all is_digit ''32''" by code_simp+
    ultimately show ?thesis using assms(1,2) by (cases ip) (simp_all add: parse_prefix_def)
  qed
  ultimately show ?thesis using plain by (simp add: parse_prefixes_def trim_space_id)
qed

text \<open>C38: An address without a prefix length is trusted as its first 32 bits: for IPv4
  that is the address alone, for IPv6 every address of the \<open>/32\<close> around it.\<close>
theorem bare_address_trust:
  assumes "parse_addr s = Some ip" "addr_zone ip = []"
    and "CHR '','' \<notin> set s" "CHR ''/'' \<notin> set s" "list_all (\<lambda>c. \<not> is_space c) s"
  shows "\<exists>q. parse_prefixes s = Inr [q]
    \<and> (case ip of
         V4 a \<Rightarrow> \<forall>peer. prefix_contains q peer \<longleftrightarrow> peer = V4 a
       | V6 a z \<Rightarrow> \<forall>peer. prefix_contains q peer \<longleftrightarrow> (\<exists>b. peer = V6 b [] \<and> b div 2 ^ 96 = a div 2 ^ 96))"
proof (intro exI conjI)
  show "parse_prefixes s = Inr [masked \<lparr>p_ip = ip, p_bits = 32\<rparr>]" using assms by (rule bare_prefix)
  have "prefix_contains \<lparr>p_ip = V4 a, p_bits = 32\<rparr> peer \<longleftrightarrow> peer = V4 a" for a peer
    by (cases peer) (auto simp: prefix_contains_def)
  moreover have "prefix_contains \<lparr>p_ip = V6 a z, p_bits = 32\<rparr> peer
      \<longleftrightarrow> (\<exists>b. peer = V6 b [] \<and> b div 2 ^ 96 = a div 2 ^ 96)" for a z peer
    by (cases peer) (auto simp: prefix_contains_def)
  ultimately show "case ip of
         V4 a \<Rightarrow> \<forall>peer. prefix_contains (masked \<lparr>p_ip = ip, p_bits = 32\<rparr>) peer \<longleftrightarrow> peer = V4 a
       | V6 a z \<Rightarrow> \<forall>peer. prefix_contains (masked \<lparr>p_ip = ip, p_bits = 32\<rparr>) peer
           \<longleftrightarrow> (\<exists>b. peer = V6 b [] \<and> b div 2 ^ 96 = a div 2 ^ 96)"
    unfolding masked_contains by (cases ip) simp_all
qed

text \<open>The proxy \<open>2001:db8::1\<close> makes \<open>2001:db8:ffff::2\<close> a trusted one, too.\<close>
lemma bare_address_trust_witness:
  "(\<exists>q. parse_prefixes ''192.0.2.1'' = Inr [q] \<and> (\<forall>peer. prefix_contains q peer \<longleftrightarrow> peer = V4 3221225985))
   \<and> (\<exists>q b. parse_prefixes ''2001:db8::1'' = Inr [q] \<and> parse_addr ''2001:db8:ffff::2'' = Some (V6 b [])
        \<and> prefix_contains q (V6 b []))"
proof
  have "parse_addr ''192.0.2.1'' = Some (V4 3221225985)" by code_simp
  from bare_address_trust [OF this] show
    "\<exists>q. parse_prefixes ''192.0.2.1'' = Inr [q] \<and> (\<forall>peer. prefix_contains q peer \<longleftrightarrow> peer = V4 3221225985)"
    by (simp add: is_space_def)
  have six: "parse_addr ''2001:db8::1'' = Some (V6 42540766411282592856903984951653826561 [])"
    "parse_addr ''2001:db8:ffff::2'' = Some (V6 42540766490509546445348707916023070722 [])" by code_simp+
  from bare_address_trust [OF six(1)] six(2) show
    "\<exists>q b. parse_prefixes ''2001:db8::1'' = Inr [q] \<and> parse_addr ''2001:db8:ffff::2'' = Some (V6 b []) \<and> prefix_contains q (V6 b [])"
    by (force simp: is_space_def)
qed

lemma bracket_rejected: "parse_addr (CHR ''['' # h) = None"
proof -
  have "octet (CHR ''['' # p) = None" for p by (simp add: octet_def is_digit_def)
  then have "parse_v4_fields (CHR ''['' # h) = None"
    by (cases "split_on (CHR ''.'') h") (simp_all add: parse_v4_fields_def)
  moreover have "v6_loop 8 (CHR ''['' # t) [] None = None" for t
    by (simp add: eval_nat_numeral hex_val_def)
  then have "parse_v6 (CHR ''['' # h) = None"
    by (auto simp: parse_v6_def cut_first_def)
  ultimately show ?thesis by (auto simp: parse_addr_def split: list.split)
qed

text \<open>C40: \<open>validateListenAddr\<close> and \<open>net.Listen\<close>, which reads the address by
  \<open>net.SplitHostPort\<close>, disagree on every IPv6 host: without brackets the address is
  accepted and cannot be split for listening, with brackets it is refused although it
  can.\<close>
theorem listen_ipv6:
  assumes "parse_addr h = Some ip" "CHR '':'' \<in> set h" "set h \<inter> {CHR ''['', CHR '']''} = {}"
    and "port \<noteq> []" "list_all is_digit port"
  shows "validate_listen_addr name (h @ CHR '':'' # port) = None \<and> split_host_port (h @ CHR '':'' # port) = None
    \<and> validate_listen_addr name (join_host_port h port) \<noteq> None
    \<and> split_host_port (join_host_port h port) = Some (h, port)"
proof -
  have port: "c \<notin> set port" if "\<not> is_digit c" for c using assms(5) that by (auto simp: list_all_iff)
  then have ports: "CHR '':'' \<notin> set port" "CHR ''['' \<notin> set port" "CHR '']'' \<notin> set port"
    by (simp_all add: is_digit_def)
  then have bare: "cut_last (CHR '':'') (h @ CHR '':'' # port) = Some (h, port)" by simp
  have bracketed: "cut_last (CHR '':'') ((CHR ''['' # h @ '']'') @ CHR '':'' # port) = Some (CHR ''['' # h @ '']'', port)"
    using ports by (intro cut_last_append) simp
  have join: "join_host_port h port = (CHR ''['' # h @ '']'') @ CHR '':'' # port"
    using assms(2) by (simp add: join_host_port_def)
  have "validate_listen_addr name (h @ CHR '':'' # port) = None"
    using assms(1,4,5) bare by (simp add: validate_listen_addr_def split_listen_def)
  moreover have "hd (h @ CHR '':'' # port) \<noteq> CHR ''[''" using assms(2,3) by (cases h) auto
  with bare assms(2) have "split_host_port (h @ CHR '':'' # port) = None" by (simp add: split_host_port_def)
  moreover have "validate_listen_addr name (join_host_port h port) \<noteq> None"
    using assms(4,5) unfolding join validate_listen_addr_def split_listen_def bracketed by (simp add: bracket_rejected)
  moreover have "split_host_port (join_host_port h port) = Some (h, port)"
    using assms(3) ports by (intro split_join_host_port) auto
  ultimately show ?thesis by blast
qed

lemma listen_ipv6_witness:
  "validate_listen_addr ''KVP_PORT'' ''::1:9090'' = None \<and> validate_listen_addr ''KVP_PORT'' ''[::1]:9090'' \<noteq> None"
proof -
  have "parse_addr ''::1'' = Some (V6 1 [])" "list_all is_digit ''9090''" by code_simp+
  from listen_ipv6 [OF this(1) _ _ _ this(2), of "''KVP_PORT''"] show ?thesis by (simp add: join_host_port_def)
qed

end
