(* ===== verification/Store_Pending.thy ===== *)
theory Store_Pending
  imports Store_Mirror
begin

text \<open>
  What is acknowledged and not yet durable is marked dirty: along a run with a
  memory layer, every volatile entry is dirty unless the last write of its key was
  a memory-mode one (\<open>pending\<close>). A failing flush keeps this only while its batch is
  one chunk: the keys of the chunks after a failing one lose their marks
  (\<open>flush_failure\<close>), so \<open>small_flushes\<close> asks every flush that fails to have found
  at most \<open>flush_batch_size\<close> dirty keys.
\<close>

section \<open>Runs\<close>

lemma run_append:
  "run E cs s = (rs, s1) \<Longrightarrow> run E ds s1 = (rs', s2) \<Longrightarrow> run E (cs @ ds) s = (rs @ rs', s2)"
  by (induction cs arbitrary: s rs) (auto split: prod.splits)

text \<open>The keys whose last successful write was in memory mode.\<close>

fun memory_keys :: "op list \<Rightarrow> reply list \<Rightarrow> key set \<Rightarrow> key set" where
  "memory_keys (OpPut z now k v ttl mode # cs) (RPut None # rs) M =
     memory_keys cs rs (if mode = PutMemory then insert k M else M - {k})"
| "memory_keys (_ # cs) (_ # rs) M = memory_keys cs rs M"
| "memory_keys _ _ M = M"

fun flush_failed :: "op \<Rightarrow> reply \<Rightarrow> bool" where
  "flush_failed (OpFlush rng) (RCount n (Some x)) = True"
| "flush_failed _ _ = False"

fun small_flushes :: "'db sqlite \<Rightarrow> op list \<Rightarrow> 'db store \<Rightarrow> bool" where
  "small_flushes E [] s \<longleftrightarrow> True"
| "small_flushes E (c # cs) s \<longleftrightarrow> (case step E c s of (r, s') \<Rightarrow>
     (flush_failed c r \<longrightarrow> length (mkeys (dirty s)) \<le> flush_batch_size) \<and> small_flushes E cs s')"

definition pending :: "key set \<Rightarrow> 'db store \<Rightarrow> bool" where
  "pending M s \<longleftrightarrow> (\<forall>k e. mget (cache s) k = Some e \<and> volatile e \<and> k \<notin> M \<longrightarrow> k \<in> dom (mget (dirty s)))"

lemma memory_keys_Cons: "memory_keys (c # cs) (r # rs) M = memory_keys cs rs (memory_keys [c] [r] M)"
  by (cases c; cases r; (cases "(case r of RPut e \<Rightarrow> e | _ \<Rightarrow> None)")?) simp_all

lemma pendingD: "pending M s \<Longrightarrow> mget (cache s) k = Some e \<Longrightarrow> volatile e \<Longrightarrow> k \<notin> M \<Longrightarrow> k \<in> dom (mget (dirty s))"
  unfolding pending_def by blast

lemma pendingI:
  "(\<And>k e. mget (cache s) k = Some e \<Longrightarrow> volatile e \<Longrightarrow> k \<notin> M \<Longrightarrow> k \<in> dom (mget (dirty s))) \<Longrightarrow> pending M s"
  unfolding pending_def by blast

section \<open>Every call keeps the marks\<close>

lemma pending_shrinks:
  assumes "pending M s" "cache_shrinks s s'" "dirty s' = dirty s"
  shows "pending M s'"
proof -
  have "mget (cache s') k = Some e \<Longrightarrow> mget (cache s) k = Some e" for k e
    using assms(2) unfolding cache_shrinks_def map_le_def by (metis domI)
  with assms(1,3) show ?thesis by (intro pendingI) (auto dest: pendingD)
qed

lemma pending_put:
  assumes "put_with_mode E z now k v ttl mode s = (e, s')" "pending M s" "caching s"
  shows "pending (memory_keys [OpPut z now k v ttl mode] [RPut e] M) s'"
proof -
  have async: "pending (M - {k}) (mark_dirty k (cache_put k v t True s))" for t
    using assms(2) by (auto simp: pending_def)
  have memory: "pending (insert k M) (clear_dirty k (cache_put k v t True s))" for t
    using assms(2) by (auto simp: pending_def)
  have sync: "pending (M - {k}) (clear_dirty k (cache_put k v t False (s\<lparr>db := d\<rparr>)))" for t d
    using assms(2) by (auto simp: pending_def)
  have failed: "pending M (s\<lparr>db := d\<rparr>)" for d using assms(2) by (simp add: pending_def)
  show ?thesis
    using assms(1,2,3) async memory sync failed
    by (cases mode) (auto simp: put_with_mode_def Let_def split: prod.splits sum.splits)
qed

lemma pending_flush:
  assumes "sql_engine E tbl pend" "flush E rng s = ((n, x), s')" "pending M s" "caching s" "range_order rng"
    "x \<noteq> None \<longrightarrow> length (mkeys (dirty s)) \<le> flush_batch_size"
  shows "pending M s'"
proof (rule pendingI)
  fix k e assume e: "mget (cache s') k = Some e" "volatile e" "k \<notin> M"
  have "rel_option entry_settles (mget (cache s) k) (mget (cache s') k)"
    using flush_settles [of s E rng] assms(2) by (simp add: cache_settles_def)
  then obtain e0 where e0: "mget (cache s) k = Some e0" "volatile e0"
    using e(1,2) by (auto simp: option_rel_Some2 entry_settles_def)
  then have dirty: "k \<in> dom (mget (dirty s))" using pendingD [OF assms(3)] e(3) by blast
  show "k \<in> dom (mget (dirty s'))"
  proof (cases x)
    case None
    with flush_durable [OF assms(1,4,5)] assms(2) dirty e0 e(1,2) show ?thesis
      by (fastforce dest: spec [of _ k] split: if_splits)
  next
    case (Some y)
    let ?ks = "rng (mkeys (dirty s))"
    let ?b = "flush_batch ?ks s"
    have ks: "distinct ?ks" "set ?ks = dom (mget (dirty s))"
      using range_order_distinct [OF assms(5), of "\<lambda>x. x"] flush_batch_distinct(2) [OF assms(5), of s] by simp_all
    have "length ?b \<le> length ?ks"
      unfolding length_flush_batch [OF ks(1)] using distinct_card [OF ks(1)] by (metis card_mono finite_set inf_le1)
    then have small: "length ?b \<le> flush_batch_size"
      using assms(6) Some range_order_length [OF assms(5), of "mkeys (dirty s)"] by simp
    have "k \<in> fst ` set ?b" using dirty e0 ks(2) by (simp add: keys_flush_batch domI)
    then have "chunks flush_batch_size ?b = [?b]" using chunks_small [OF _ small] by fastforce
    moreover obtain committed where "flush_outcome (chunks flush_batch_size ?b) committed x {} (dom (mget (dirty s')))"
      by (rule sql_engine.flush_run [OF assms(1,2,4)])
    ultimately have "dom (mget (dirty s')) = fst ` set ?b"
      using Some by (auto simp: flush_outcome_def Cons_eq_append_conv)
    with \<open>k \<in> fst ` set ?b\<close> show ?thesis by simp
  qed
qed

lemma pending_step:
  assumes "sql_engine E tbl pend" "step E c s = (r, s')" "pending M s" "caching s" "orders_ok c"
    "flush_failed c r \<longrightarrow> length (mkeys (dirty s)) \<le> flush_batch_size"
  shows "pending (memory_keys [c] [r] M) s'"
proof (cases c)
  case (OpPut z now k v ttl mode)
  then obtain e where "put_with_mode E z now k v ttl mode s = (e, s')" "r = RPut e"
    using assms(2) by (auto split: prod.splits)
  with pending_put [OF _ assms(3,4)] OpPut show ?thesis by simp
next
  case (OpGet now k)
  then obtain g e where g: "get E now k s = ((g, e), s')" "r = RGet g e" using assms(2) by (auto split: prod.splits)
  with pending_shrinks [OF assms(3) get_shrinks [OF g(1)]] get_shell [OF g(1)] OpGet show ?thesis by simp
next
  case (OpSweep rng now limit)
  then obtain n e where g: "delete_expired E rng now limit s = ((n, e), s')" "r = RCount n e"
    using assms(2) by (auto split: prod.splits)
  with pending_shrinks [OF assms(3) sweep_shrinks [OF g(1)]] same_shellD(2) [OF delete_expired_shell [OF g(1)]]
    assms(5) OpSweep show ?thesis by simp
next
  case (OpEvict rng limit batch runs)
  then obtain n e where g: "evict_oldest E rng limit batch runs s = ((n, e), s')" "r = RCount n e"
    using assms(2) by (auto split: prod.splits)
  with pending_shrinks [OF assms(3) evict_oldest_shrinks [OF g(1)]] same_shellD(2) [OF evict_oldest_shell [OF g(1)]]
    OpEvict show ?thesis by simp
next
  case (OpFlush rng)
  then obtain n e where g: "flush E rng s = ((n, e), s')" "r = RCount n e"
    using assms(2) by (auto split: prod.splits)
  have "e \<noteq> None \<longrightarrow> length (mkeys (dirty s)) \<le> flush_batch_size" using assms(6) OpFlush g(2) by auto
  with pending_flush [OF assms(1) g(1) assms(3,4)] assms(5) OpFlush g(2) show ?thesis by simp
next
  case OpBackground
  with assms(2) have "s' = run_background E s" "memory_keys [c] [r] M = M" by auto
  with assms(3) show ?thesis by (simp only: pending_def background_shell)
qed

lemma pending_run:
  assumes "sql_engine E tbl pend" "run E cs s = (rs, s')" "pending M s" "caching s" "list_all orders_ok cs"
    "small_flushes E cs s"
  shows "pending (memory_keys cs rs M) s'"
  using assms(2-6)
proof (induction cs arbitrary: s rs M)
  case Nil
  then show ?case by simp
next
  case (Cons c cs)
  obtain r s1 where r: "step E c s = (r, s1)" by (metis surj_pair)
  obtain rs1 where rs: "run E cs s1 = (rs1, s')" "rs = r # rs1"
    using Cons.prems(1) r by (auto split: prod.splits)
  have "pending (memory_keys [c] [r] M) s1"
    using pending_step [OF assms(1) r Cons.prems(2,3)] Cons.prems(4,5) r by simp
  with Cons.IH [OF rs(1)] Cons.prems(3-5) step_caching [OF r] r rs(2) show ?case
    by (simp add: memory_keys_Cons [of c cs r rs1])
qed

lemma pending_open:
  assumes "sql_engine E tbl pend" "open_store E (Inr d) now path limit = Inr s" "0 < limit"
  shows "pending M s"
proof -
  have c: "caching s"
    using assms(3) by - (rule sql_engine.open_rows [OF assms(1,2)], simp add: caching_def)
  have "mget (cache s) k = (case rows_abs (tbl d) k of None \<Rightarrow> None
       | Some (v, t) \<Rightarrow> if after now t then None else Some \<lparr>val = v, expires_at = t, volatile = False\<rparr>)" for k
    using c by - (rule sql_engine.open_rows [OF assms(1,2)], simp)
  then show ?thesis by (auto simp: pending_def split: option.splits if_splits)
qed

end
