(* ===== verification/Telemetry.thy ===== *)
theory Telemetry
  imports Server_State Cleanup
begin

text \<open>
  The telemetry stack and the health endpoints
  (\<open>src/internal/telemetry/telemetry.go\<close>): the construction and shutdown of the
  stack, the instruments, the measurement each method of \<open>Metrics\<close> records, and
  \<open>Health\<close> with its two handlers.

  The OpenTelemetry and Prometheus libraries are the record \<open>otel\<close> of the outcomes of
  their constructors (an error text, or none). \<open>url.Parse\<close> is the argument \<open>url\<close>: the
  scheme and the host of a URL, or \<open>None\<close> when it does not parse.
\<close>

section \<open>Levels and endpoints\<close>

datatype level = LevelDebug | LevelInfo | LevelWarn | LevelError

text \<open>The levels of \<open>slog\<close> and their order; the handler writes lines at its level and above.\<close>

fun severity :: "level \<Rightarrow> int" where
  "severity LevelDebug = - 4"
| "severity LevelInfo = 0"
| "severity LevelWarn = 4"
| "severity LevelError = 8"

lemma severity_inj [simp]: "severity a = severity b \<longleftrightarrow> a = b"
  by (cases a; cases b) simp_all

instantiation level :: linorder
begin

definition less_eq_level :: "level \<Rightarrow> level \<Rightarrow> bool" where
  "less_eq_level a b \<longleftrightarrow> severity a \<le> severity b"

definition less_level :: "level \<Rightarrow> level \<Rightarrow> bool" where
  "less_level a b \<longleftrightarrow> severity a < severity b"

instance
  by standard (auto simp: less_eq_level_def less_level_def)

end

definition parse_level :: "string \<Rightarrow> (string, level) res" where
  "parse_level v =
    (if v = [] \<or> v = ''info'' then Inr LevelInfo
     else if v = ''debug'' then Inr LevelDebug
     else if v = ''warn'' then Inr LevelWarn
     else if v = ''error'' then Inr LevelError
     else Inl (''invalid log level '' @ v))"

definition contains_text :: "string \<Rightarrow> string \<Rightarrow> bool" where
  "contains_text p s \<longleftrightarrow> list_ex (\<lambda>i. has_prefix p (drop i s)) [0..<Suc (length s)]"

definition parse_endpoint :: "(string \<Rightarrow> (string \<times> string) option) \<Rightarrow> string \<Rightarrow> string \<times> bool" where
  "parse_endpoint url endpoint =
    (if endpoint = [] then ([], False)
     else if \<not> contains_text ''://'' endpoint then (endpoint, True)
     else case url endpoint of
       None \<Rightarrow> (endpoint, False)
     | Some (scheme, host) \<Rightarrow> (host, scheme = ''http''))"

section \<open>Instruments\<close>

datatype instrument = Counter | UpDownCounter | Histogram | Gauge

definition instruments :: "(string \<times> instrument) list" where
  "instruments = [
    (''kvp_http_requests_total'', Counter),
    (''kvp_http_request_duration_seconds'', Histogram),
    (''kvp_http_request_in_flight'', UpDownCounter),
    (''kvp_db_query_duration_seconds'', Histogram),
    (''kvp_db_size_bytes'', Gauge),
    (''kvp_db_size_limit_bytes'', Gauge),
    (''kvp_db_rows'', Gauge),
    (''kvp_keys_stored_total'', Counter),
    (''kvp_keys_expired_total'', Counter),
    (''kvp_dirty_entries'', Gauge),
    (''kvp_flush_runs_total'', Counter),
    (''kvp_cleanup_runs_total'', Counter),
    (''kvp_cleanup_deleted_keys_total'', Counter),
    (''kvp_http_errors_total'', Counter)]"

text \<open>\<open>newMetrics\<close> stops at the first instrument that cannot be made.\<close>

fun make_instruments :: "(instrument \<Rightarrow> string \<Rightarrow> string option) \<Rightarrow> (string \<times> instrument) list \<Rightarrow> string option" where
  "make_instruments mk [] = None"
| "make_instruments mk ((n, i) # is) = (case mk i n of Some e \<Rightarrow> Some e | None \<Rightarrow> make_instruments mk is)"

definition new_metrics :: "(instrument \<Rightarrow> string \<Rightarrow> string option) \<Rightarrow> string option" where
  "new_metrics mk = make_instruments mk instruments"

text \<open>The explicit bucket boundaries of the two views.\<close>

definition views :: "(string \<times> rat list) list" where
  "views = [
    (''kvp_http_request_duration_seconds'', [5/1000, 1/100, 25/1000, 5/100, 1/10, 1/4, 1/2, 1, 5/2, 5]),
    (''kvp_db_query_duration_seconds'', [1/1000, 5/1000, 1/100, 5/100, 1/10, 1/2, 1, 5])]"

fun attrs :: "string list \<Rightarrow> (string \<times> string) list" where
  "attrs (k # v # r) = (k, v) # attrs r"
| "attrs _ = []"

datatype measurement =
    AddInt string int "(string \<times> string) list"
  | RecordFloat string rat "(string \<times> string) list"
  | RecordInt string int

fun measure_request :: "metric \<Rightarrow> measurement" where
  "measure_request (MRequest meth rt path status) =
     AddInt ''kvp_http_requests_total'' 1 (attrs [''method'', meth, ''route'', rt, ''path'', path, ''status'', status])"
| "measure_request (MRequestDuration meth rt path d) =
     RecordFloat ''kvp_http_request_duration_seconds'' (seconds d) (attrs [''method'', meth, ''route'', rt, ''path'', path])"
| "measure_request (MRequestInFlight meth rt path delta) =
     AddInt ''kvp_http_request_in_flight'' delta (attrs [''method'', meth, ''route'', rt, ''path'', path])"
| "measure_request (MDBQuery operation d) =
     RecordFloat ''kvp_db_query_duration_seconds'' (seconds d) (attrs [''operation'', operation])"
| "measure_request (MKeyStored mode) = AddInt ''kvp_keys_stored_total'' 1 (attrs [''mode'', mode])"
| "measure_request MKeyExpired = AddInt ''kvp_keys_expired_total'' 1 []"
| "measure_request (MError rt path status) =
     AddInt ''kvp_http_errors_total'' 1 (attrs [''route'', rt, ''path'', path, ''status'', status])"

fun measure_job :: "job_event \<Rightarrow> measurement" where
  "measure_job (FlushRun r) = AddInt ''kvp_flush_runs_total'' 1 (attrs [''result'', r])"
| "measure_job (SetDirtyEntries n) = RecordInt ''kvp_dirty_entries'' n"
| "measure_job (CleanupRun kind r) = AddInt ''kvp_cleanup_runs_total'' 1 (attrs [''kind'', kind, ''result'', r])"
| "measure_job (CleanupDeleted kind n) = AddInt ''kvp_cleanup_deleted_keys_total'' n (attrs [''kind'', kind])"

datatype db_gauge = SetDBSize int | SetDBRows int | SetDBLimit int

fun measure_db :: "db_gauge \<Rightarrow> measurement" where
  "measure_db (SetDBSize n) = RecordInt ''kvp_db_size_bytes'' n"
| "measure_db (SetDBRows n) = RecordInt ''kvp_db_rows'' n"
| "measure_db (SetDBLimit n) = RecordInt ''kvp_db_size_limit_bytes'' n"

section \<open>The stack\<close>

record telemetry_config =
  t_service :: string
  t_level :: string
  t_endpoint :: string

record otel =
  x_resource :: "string option"
  x_prometheus :: "string option"
  x_metric_exporter :: "string \<Rightarrow> bool \<Rightarrow> string option"
  x_trace_exporter :: "string \<Rightarrow> bool \<Rightarrow> string option"
  x_instrument :: "instrument \<Rightarrow> string \<Rightarrow> string option"
  x_meter_shutdown :: "string option"

text \<open>
  A function field is \<open>None\<close> when it is nil, else the result its call has; \<open>exports\<close> says
  whether a provider has an OTLP exporter.
\<close>

record telemetry =
  tel_service :: string
  tel_level :: level
  metric_exports :: bool
  trace_exports :: bool
  meter_provider :: "string option option"
  metric_shutdown :: "string option option"
  trace_shutdown :: "string option option"

definition new_meter_provider :: "otel \<Rightarrow> (string \<Rightarrow> (string \<times> string) option) \<Rightarrow> string \<Rightarrow> (string, bool) res" where
  "new_meter_provider X url endpoint =
    (case x_prometheus X of
       Some e \<Rightarrow> Inl e
     | None \<Rightarrow>
         (let (host, insecure) = parse_endpoint url endpoint
          in if host = [] then Inr False
             else case x_metric_exporter X host insecure of Some e \<Rightarrow> Inl e | None \<Rightarrow> Inr True))"

definition new_trace_provider :: "otel \<Rightarrow> (string \<Rightarrow> (string \<times> string) option) \<Rightarrow> string \<Rightarrow> (string, bool) res" where
  "new_trace_provider X url endpoint =
    (let (host, insecure) = parse_endpoint url endpoint
     in if host = [] then Inr False
        else case x_trace_exporter X host insecure of Some e \<Rightarrow> Inl e | None \<Rightarrow> Inr True)"

text \<open>\<open>Shutdown\<close>: what is shut down, in order, and the first error.\<close>

definition tel_shutdown :: "telemetry \<Rightarrow> string list \<times> string option" where
  "tel_shutdown tel =
    (let first = None;
         (calls, first) = (case metric_shutdown tel of Some r \<Rightarrow> ([''metric''], r) | None \<Rightarrow> ([], first));
         (calls, first) = (case trace_shutdown tel of
            Some r \<Rightarrow> (calls @ [''trace''], if r \<noteq> None \<and> first = None then r else first) | None \<Rightarrow> (calls, first))
     in case meter_provider tel of
          Some r \<Rightarrow> (calls @ [''meter provider''], if r \<noteq> None \<and> first = None then r else first)
        | None \<Rightarrow> (calls, first))"

definition new_telemetry :: "otel \<Rightarrow> (string \<Rightarrow> (string \<times> string) option) \<Rightarrow> telemetry_config \<Rightarrow> (string, telemetry) res" where
  "new_telemetry X url c =
    (let c = (if t_service c = [] then c\<lparr>t_service := ''kvp''\<rparr> else c)
     in case parse_level (t_level c) of
       Inl e \<Rightarrow> Inl e
     | Inr l \<Rightarrow>
         (case x_resource X of
            Some e \<Rightarrow> Inl e
          | None \<Rightarrow>
              (case new_meter_provider X url (t_endpoint c) of
                 Inl e \<Rightarrow> Inl e
               | Inr m \<Rightarrow>
                   (case new_trace_provider X url (t_endpoint c) of
                      Inl e \<Rightarrow> Inl e
                    | Inr t \<Rightarrow>
                        (case new_metrics (x_instrument X) of
                           Some e \<Rightarrow> Inl e
                         | None \<Rightarrow> Inr \<lparr>tel_service = t_service c, tel_level = l, metric_exports = m, trace_exports = t,
                             meter_provider = Some (x_meter_shutdown X), metric_shutdown = None, trace_shutdown = None\<rparr>)))))"

section \<open>Health\<close>

record health =
  draining :: bool
  h_last :: gotime
  h_last_ok :: bool
  h_cache_ttl :: duration

definition new_health :: health where
  "new_health = \<lparr>draining = False, h_last = zero_time, h_last_ok = False, h_cache_ttl = second\<rparr>"

definition set_draining :: "bool \<Rightarrow> health \<Rightarrow> health" where
  "set_draining v h = h\<lparr>draining := v\<rparr>"

text \<open>
  \<open>t1\<close> and \<open>t2\<close> are the readings of the clock, \<open>up\<close> is whether the database answers a
  ping made now. The mutex makes the cached branch one step.
\<close>

definition ping_ok :: "bool \<Rightarrow> gotime \<Rightarrow> gotime \<Rightarrow> bool \<Rightarrow> health \<Rightarrow> bool \<times> health" where
  "ping_ok full t1 t2 up h =
    (if full then (up, h)
     else if time_sub t1 (h_last h) < h_cache_ttl h then (h_last_ok h, h)
     else (up, h\<lparr>h_last := t2, h_last_ok := up\<rparr>))"

text \<open>\<open>json.Encoder\<close> on a map: the keys in order, and a newline.\<close>

definition json_object :: "(string \<times> string) list \<Rightarrow> bytes" where
  "json_object al = ''{'' @ concat (map (\<lambda>(i, k, v). (if i = 0 then [] else '','') @ json_quote k @ '':'' @ json_quote v)
     (enumerate 0 al)) @ ''}'' @ [CHR 0x0A]"

type_synonym answer = "int \<times> bytes"

definition liveness :: "string \<Rightarrow> answer" where
  "liveness meth =
    (if meth \<noteq> ''GET'' then (405, json_object [(''status'', ''error'')])
     else (200, json_object [(''status'', ''ok'')]))"

definition readiness :: "string \<Rightarrow> string \<Rightarrow> gotime \<Rightarrow> gotime \<Rightarrow> bool \<Rightarrow> health \<Rightarrow> answer \<times> health" where
  "readiness meth full_param t1 t2 up h =
    (if meth \<noteq> ''GET'' then ((405, json_object [(''status'', ''error'')]), h)
     else if draining h then ((503, json_object [(''reason'', ''draining''), (''status'', ''not ready'')]), h)
     else case ping_ok (full_param = ''1'') t1 t2 up h of
       (False, h) \<Rightarrow> ((503, json_object [(''reason'', ''db''), (''status'', ''not ready'')]), h)
     | (True, h) \<Rightarrow> ((200, json_object [(''status'', ''ready'')]), h))"

text \<open>
  The container's health check (\<open>src/deploy/hc/main.go\<close>): \<open>client_get\<close> is the outcome of
  the HTTP request, an error or a status; the result is the exit code.
\<close>

definition healthcheck :: "(string \<Rightarrow> (string, int) res) \<Rightarrow> (string \<Rightarrow> string) \<Rightarrow> int" where
  "healthcheck client_get getenv =
    (let url = getenv ''KVP_HEALTH_URL'';
         url = (if url = [] then ''http://127.0.0.1:9090/readyz'' else url)
     in case client_get url of
          Inl e \<Rightarrow> 1
        | Inr status \<Rightarrow> if status \<noteq> 200 then 1 else 0)"

section \<open>Laws\<close>

text \<open>The health check passes exactly when the readiness handler finds the process ready.\<close>

lemma healthcheck_ready:
  "healthcheck (\<lambda>u. Inr (fst (fst (readiness ''GET'' [] t1 t2 up h)))) getenv = 0
    \<longleftrightarrow> \<not> draining h \<and> fst (ping_ok False t1 t2 up h)"
  by (auto simp: healthcheck_def readiness_def Let_def split: prod.split bool.split)

text \<open>Every measurement goes to an instrument that was made, of the kind it is for.\<close>

fun measured_on :: "measurement \<Rightarrow> string \<times> instrument \<Rightarrow> bool" where
  "measured_on (AddInt n d al) (m, i) \<longleftrightarrow> n = m \<and> (i = Counter \<or> i = UpDownCounter) \<and> (d < 0 \<longrightarrow> i = UpDownCounter)"
| "measured_on (RecordFloat n x al) (m, i) \<longleftrightarrow> n = m \<and> i = Histogram"
| "measured_on (RecordInt n x) (m, i) \<longleftrightarrow> n = m \<and> i = Gauge"

fun deleted_nonneg :: "job_event \<Rightarrow> bool" where
  "deleted_nonneg (CleanupDeleted kind n) \<longleftrightarrow> 0 \<le> n"
| "deleted_nonneg _ \<longleftrightarrow> True"

lemma measured_on_instruments:
  "list_ex (measured_on (measure_request m)) instruments"
  "deleted_nonneg j \<Longrightarrow> list_ex (measured_on (measure_job j)) instruments"
  "list_ex (measured_on (measure_db g)) instruments"
  subgoal by (cases m) (simp_all add: instruments_def)
  subgoal by (cases j) (simp_all add: instruments_def)
  subgoal by (cases g) (simp_all add: instruments_def)
  done

lemma views_on_histograms: "list_all (\<lambda>(n, b). map_of instruments n = Some Histogram \<and> sorted b) views"
  by (simp add: views_def instruments_def)

text \<open>The stack as \<open>New\<close> leaves it: only the meter provider is ever shut down.\<close>

lemma new_telemetry_shutdown:
  "new_telemetry X url c = Inr tel \<Longrightarrow> tel_shutdown tel = ([''meter provider''], x_meter_shutdown X)"
  by (auto simp: new_telemetry_def tel_shutdown_def Let_def split: sum.splits option.splits)

text \<open>A sequence of probes and of changes of the drain flag.\<close>

datatype health_event = Probe string string gotime gotime bool | Draining bool

fun health_step :: "health_event \<Rightarrow> health \<Rightarrow> answer option \<times> health" where
  "health_step (Probe meth full t1 t2 up) h = (case readiness meth full t1 t2 up h of (a, h) \<Rightarrow> (Some a, h))"
| "health_step (Draining v) h = (None, set_draining v h)"

definition health_after :: "health_event list \<Rightarrow> health" where
  "health_after evs = fold (\<lambda>ev h. snd (health_step ev h)) evs new_health"

fun drained :: "health_event list \<Rightarrow> bool" where
  "drained [] \<longleftrightarrow> False"
| "drained (Draining v # evs) \<longleftrightarrow> v"
| "drained (ev # evs) \<longleftrightarrow> drained evs"

text \<open>The cached answer is that of a probe that was made, or there is none yet.\<close>

definition cached_probe :: "health_event list \<Rightarrow> gotime \<Rightarrow> bool \<Rightarrow> bool" where
  "cached_probe evs t ok \<longleftrightarrow> (\<exists>f t1. f \<noteq> ''1'' \<and> Probe ''GET'' f t1 t ok \<in> set evs)"

lemma health_after_inv:
  "draining (health_after evs) = drained (rev evs) \<and> h_cache_ttl (health_after evs) = second
   \<and> (h_last (health_after evs) = zero_time \<or> cached_probe evs (h_last (health_after evs)) (h_last_ok (health_after evs)))"
proof (induction evs rule: rev_induct)
  case Nil
  then show ?case by (simp add: health_after_def new_health_def)
next
  case (snoc ev evs)
  have mono: "cached_probe (evs @ [ev]) t ok" if "cached_probe evs t ok" for t ok
    using that by (auto simp: cached_probe_def)
  have step: "health_after (evs @ [ev]) = snd (health_step ev (health_after evs))" by (simp add: health_after_def)
  show ?case
  proof (cases ev)
    case (Probe m f t1 t2 up)
    have state: "snd (readiness m f t1 t2 up h) = (if m = ''GET'' \<and> \<not> draining h \<and> f \<noteq> ''1''
        \<and> \<not> time_sub t1 (h_last h) < h_cache_ttl h then h\<lparr>h_last := t2, h_last_ok := up\<rparr> else h)" for h
      by (simp add: readiness_def ping_ok_def split: bool.split)
    have fresh: "m = ''GET'' \<Longrightarrow> f \<noteq> ''1'' \<Longrightarrow> cached_probe (evs @ [ev]) t2 up"
      by (auto simp: cached_probe_def Probe)
    have h: "snd (health_step ev (health_after evs)) = snd (readiness m f t1 t2 up (health_after evs))"
      by (simp add: Probe case_prod_beta)
    show ?thesis
      unfolding step h state using snoc.IH mono fresh by (simp add: Probe) blast
  next
    case (Draining v)
    then show ?thesis unfolding step using snoc.IH mono by (simp add: set_draining_def) blast
  qed
qed

definition not_ready :: "string \<Rightarrow> answer" where
  "not_ready reason = (503, json_object [(''reason'', reason), (''status'', ''not ready'')])"

text \<open>C34: Readiness: while draining every probe is refused; otherwise \<open>?full=1\<close> tells
  whether the database answers now, and a plain probe tells whether it answered
  now or at a plain probe less than a second ago.\<close>
theorem readiness_fresh:
  assumes "ns zero_time + second \<le> ns t1" "health_step (Probe ''GET'' full t1 t2 up) (health_after evs) = (Some a, h)"
  shows "if drained (rev evs) then a = not_ready ''draining''
    else if full = ''1'' then a = (if up then (200, json_object [(''status'', ''ready'')]) else not_ready ''db'')
    else \<exists>t ok. (t = t2 \<and> ok = up \<or> cached_probe evs t ok \<and> ns t1 - ns t < second)
      \<and> a = (if ok then (200, json_object [(''status'', ''ready'')]) else not_ready ''db'')"
proof -
  let ?h = "health_after evs"
  note inv = health_after_inv [of evs]
  have cached: "cached_probe evs (h_last ?h) (h_last_ok ?h) \<and> ns t1 - ns (h_last ?h) < second"
    if "time_sub t1 (h_last ?h) < second"
  proof -
    have d: "ns t1 - ns (h_last ?h) < second"
      using that by (simp add: time_sub_def max_duration_def second_def min_def max_def split: if_splits)
    with assms(1) have "h_last ?h \<noteq> zero_time" by auto
    with inv d show ?thesis by blast
  qed
  show ?thesis
    using assms(2) inv cached
    by (auto simp: readiness_def ping_ok_def not_ready_def split: if_splits bool.splits)
qed

text \<open>The database is down half a second after a good probe: the cached answer is still
  \<open>ready\<close>, the full probe is not, and a drained server is not either way.\<close>
lemma readiness_fresh_witness:
  "let t = sample_time 0; u = t\<lparr>ns := ns t + 500000000\<rparr>; h = health_after [Probe ''GET'' [] t t True]
   in fst (health_step (Probe ''GET'' ''1'' u u False) h) = Some (not_ready ''db'')
      \<and> fst (health_step (Probe ''GET'' [] u u True) (health_after [Draining True])) = Some (not_ready ''draining'')"
proof -
  let ?t = "sample_time 0"
  let ?u = "?t\<lparr>ns := ns ?t + 500000000\<rparr>"
  have t: "ns zero_time + second \<le> ns ?u" by code_simp
  obtain a h b g where a: "health_step (Probe ''GET'' ''1'' ?u ?u False) (health_after [Probe ''GET'' [] ?t ?t True]) = (Some a, h)"
    and b: "health_step (Probe ''GET'' [] ?u ?u True) (health_after [Draining True]) = (Some b, g)"
    by (auto simp: case_prod_beta)
  from readiness_fresh [OF t a] readiness_fresh [OF t b] a b show ?thesis by (simp add: Let_def)
qed

end
