(* ===== verification/Kvp_Main.thy ===== *)
theory Kvp_Main
  imports Store_Pending Server_Audit Cleanup_Laws Config_Laws Telemetry
begin

text \<open>
  The process (\<open>src/cmd/kvp/main.go\<close>): \<open>start\<close> is \<open>run\<close> up to the listeners, which
  wires configuration, telemetry, store, jobs and server together; \<open>shut_down\<close> is
  \<open>run\<close> from the wake-up on; \<open>sample_gauges\<close> is the gauge job.

  A \<open>machine\<close> is what the process finds: environment, database driver, files, clock,
  the embedded page, and the third-party wrapper. Calls that requests and jobs make
  while the servers drain are a list of store calls. \<open>start\<close> yields \<open>None\<close> for a
  rate that is not finite, which the limiter's model does not cover.
\<close>

section \<open>Wiring\<close>

record ('db, 'fs) machine =
  environment :: "string \<Rightarrow> string"
  exotic_floats :: "string \<Rightarrow> go_float option"
  url_parser :: "string \<Rightarrow> (string \<times> string) option"
  otel_sdk :: otel
  driver :: "'db sqlite"
  opened_db :: "(sql_error, 'db) res"
  disk :: "'fs files"
  disk_state :: 'fs
  wall_clock :: "nat \<Rightarrow> gotime"
  zone_rules :: zone
  uuids :: "nat \<Rightarrow> string"
  entry_orders :: "nat \<Rightarrow> entries_order"
  key_orders :: "nat \<Rightarrow> key list \<Rightarrow> key list"
  page :: "string \<Rightarrow> (string, ui_file) res"
  tracing :: "'db handler \<Rightarrow> 'db handler"

datatype run_error = ConfigFailed string config_error | TelemetryFailed string | OpenFailed store_error

definition telemetry_options :: "config \<Rightarrow> telemetry_config" where
  "telemetry_options c = \<lparr>t_service = c_otel_service_name c, t_level = c_log_level c, t_endpoint = c_otlp_endpoint c\<rparr>"

text \<open>The \<open>server.Options\<close> literal: the fields it does not set are zero.\<close>

definition server_options :: "config \<Rightarrow> rat \<Rightarrow> (string \<Rightarrow> (string, ui_file) res) \<Rightarrow> ('db handler \<Rightarrow> 'db handler) \<Rightarrow> 'db options" where
  "server_options c per_sec ui wrap = \<lparr>
     o_max_body = c_max_body_bytes c,
     o_max_key = c_max_key_bytes c,
     o_ttl = c_ttl c,
     o_api_key = c_api_key c,
     o_commit_mode = [],
     o_rps = per_sec,
     o_burst = c_rate_limit_burst c,
     o_trusted = c_trusted_proxies c,
     o_ui = Some ui,
     o_metrics = True,
     o_after_write = True,
     o_wrap = Some wrap\<rparr>"

definition eviction_limit :: "config \<Rightarrow> int" where
  "eviction_limit c = (if 0 < c_memory_cache_bytes c then c_memory_cache_bytes c else c_max_db_bytes c)"

text \<open>The two \<open>http.Server\<close> literals without their handlers; zero is no timeout.\<close>

record http_server =
  hs_addr :: string
  hs_read_header :: duration
  hs_read :: duration
  hs_write :: duration
  hs_idle :: duration

definition public_server :: "config \<Rightarrow> http_server" where
  "public_server c = \<lparr>hs_addr = c_port c, hs_read_header = 5 * second, hs_read = 30 * second, hs_write = 30 * second,
     hs_idle = 120 * second\<rparr>"

definition admin_server :: "config \<Rightarrow> http_server" where
  "admin_server c = \<lparr>hs_addr = c_metrics_port c, hs_read_header = 5 * second, hs_read = 0, hs_write = 0, hs_idle = 0\<rparr>"

text \<open>The admin mux on clean paths; \<open>metrics\<close> is the Prometheus page, another path is not found.\<close>

definition admin_mux :: "string \<Rightarrow> answer \<Rightarrow> string \<Rightarrow> string \<Rightarrow> gotime \<Rightarrow> gotime \<Rightarrow> bool \<Rightarrow> health
    \<Rightarrow> answer option \<times> health" where
  "admin_mux path metrics meth full_param t1 t2 up h =
    (if path = ''/healthz'' then (Some (liveness meth), h)
     else if path = ''/readyz''
       then (case readiness meth full_param t1 t2 up h of (a, h) \<Rightarrow> (Some a, h))
     else if path = ''/metrics'' then (Some metrics, h)
     else (None, h))"

record ('db, 'fs) app =
  a_config :: config
  a_telemetry :: telemetry
  a_health :: health
  a_gauges :: "db_gauge list"
  a_jobs :: "('db, 'fs) instance_state jobs"
  a_expiry :: expiry_runner
  a_evictor :: evictor
  a_backuper :: backuper
  a_flusher :: flusher
  a_gate :: gate
  a_site :: "('db, 'fs) instance_state site"
  a_server :: "'db server"
  a_limiter :: limiter
  a_public :: http_server
  a_admin :: http_server

text \<open>The job state around the opened store: nothing counted, nothing logged, one clock reading made.\<close>

definition first_site :: "('db, 'fs) machine \<Rightarrow> 'db store \<Rightarrow> ('db, 'fs) instance_state site" where
  "first_site M st = \<lparr>base = \<lparr>in_store = st, in_files = disk_state M, in_clock = wall_clock M, in_ticks = 1,
     in_entries = entry_orders M, in_keys = key_orders M\<rparr>, job_ticks = 1, job_events = [], job_lines = []\<rparr>"

definition wire :: "('db, 'fs) machine \<Rightarrow> config \<Rightarrow> telemetry \<Rightarrow> 'db store \<Rightarrow> rat \<Rightarrow> ('db, 'fs) app" where
  "wire M c tel st per_sec =
    (let jobs = \<lparr>surf = store_surface (driver M) (disk M), job_clk = wall_clock M, job_metered = True\<rparr>;
         ev = new_evictor (eviction_limit c) (c_cleanup_batch_size c) (c_cleanup_max_runs c) (c_size_cleanup_throttle c);
         (r, gate, site) = maybe_evict jobs ev (new_gate, first_site M st);
         (srv, rl) = new_server (driver M) (wall_clock M) (zone_rules M) (uuids M) (server_options c per_sec (page M) (tracing M))
     in \<lparr>a_config = c, a_telemetry = tel, a_health = new_health, a_gauges = [SetDBLimit (c_max_db_bytes c)],
         a_jobs = jobs,
         a_expiry = new_expiry_runner (c_cleanup_interval c) (c_cleanup_sweep_limit c),
         a_evictor = ev,
         a_backuper = new_backuper (c_backup_dir c) (c_backup_interval c) (c_backup_retention c),
         a_flusher = new_flusher (c_flush_interval c),
         a_gate = gate, a_site = site, a_server = srv, a_limiter = rl,
         a_public = public_server c, a_admin = admin_server c\<rparr>)"

definition start :: "('db, 'fs) machine \<Rightarrow> (run_error, ('db, 'fs) app) res option" where
  "start M =
    (case parse_env (exotic_floats M) (environment M) of
       (c, Some (n, e)) \<Rightarrow> Some (Inl (ConfigFailed n e))
     | (c, None) \<Rightarrow>
         (case new_telemetry (otel_sdk M) (url_parser M) (telemetry_options c) of
            Inl e \<Rightarrow> Some (Inl (TelemetryFailed e))
          | Inr tel \<Rightarrow>
              (case open_store (driver M) (opened_db M) (wall_clock M 0) (c_db_path c) (c_memory_cache_bytes c) of
                 Inl e \<Rightarrow> Some (Inl (OpenFailed e))
               | Inr st \<Rightarrow>
                   (case c_rate_limit_rps c of
                      Finite per_sec \<Rightarrow> Some (Inr (wire M c tel st per_sec))
                    | _ \<Rightarrow> None))))"

text \<open>A tick of \<open>sampleDBGauges\<close>; a failed sample is logged. The loop waits for its first tick.\<close>

definition sample_gauges :: "'db sqlite \<Rightarrow> 'db store \<Rightarrow> (db_gauge list \<times> store_error list) \<times> 'db store" where
  "sample_gauges E s =
    (let (sz, s) = store_size E s;
         (gs, ws) = (case sz of Inr n \<Rightarrow> ([SetDBSize n], []) | Inl e \<Rightarrow> ([], [e]));
         (rows, s) = row_count E s
     in case rows of
          Inr n \<Rightarrow> ((gs @ [SetDBRows n], ws), s)
        | Inl e \<Rightarrow> ((gs, ws @ [e]), s))"

fun gauges_loop :: "'db sqlite \<Rightarrow> select list \<Rightarrow> 'db store \<Rightarrow> (db_gauge list \<times> store_error list) \<times> 'db store" where
  "gauges_loop E [] s = (([], []), s)"
| "gauges_loop E (Done # ss) s = (([], []), s)"
| "gauges_loop E (Tick # ss) s =
     (let ((gs, ws), s) = sample_gauges E s;
          ((gs', ws'), s) = gauges_loop E ss s
      in ((gs @ gs', ws @ ws'), s))"

definition gauges_run :: "'db sqlite \<Rightarrow> duration \<Rightarrow> select list \<Rightarrow> 'db store
    \<Rightarrow> unit outcome \<times> (db_gauge list \<times> store_error list) \<times> 'db store" where
  "gauges_run E interval ss s =
    (if interval \<le> 0 then (Panics ''non-positive interval for NewTicker'', ([], []), s)
     else (Returns (), gauges_loop E ss s))"

section \<open>Shutdown\<close>

datatype wake = ListenerFailed string | ListenerClosed | Signalled

datatype main_line =
    ServerFailed string
  | SignalReceived
  | PublicShutdown string
  | AdminShutdown string
  | FlushIncomplete int store_error
  | ShutdownFlush int
  | TelemetryShutdown string
  | StoreClose sql_error
  | ShutdownComplete

fun main_level :: "main_line \<Rightarrow> level" where
  "main_level (ServerFailed e) = LevelError"
| "main_level SignalReceived = LevelInfo"
| "main_level (ShutdownFlush n) = LevelInfo"
| "main_level ShutdownComplete = LevelInfo"
| "main_level _ = LevelWarn"

text \<open>The lines that reach the output.\<close>

definition visible :: "telemetry \<Rightarrow> main_line list \<Rightarrow> main_line list" where
  "visible tel ls = filter (\<lambda>l. tel_level tel \<le> main_level l) ls"

record 'db process =
  p_store :: "'db store"
  p_health :: health
  p_lines :: "main_line list"

definition jot :: "main_line option \<Rightarrow> 'db process \<Rightarrow> 'db process" where
  "jot l p = (case l of None \<Rightarrow> p | Some l \<Rightarrow> p\<lparr>p_lines := p_lines p @ [l]\<rparr>)"

text \<open>
  \<open>late\<close> are the store calls made until the servers and the jobs have stopped, \<open>pub\<close>
  and \<open>adm\<close> the errors of the two \<open>http.Server.Shutdown\<close>. The deferred \<open>Close\<close> is
  the second one.
\<close>

definition shut_down :: "'db sqlite \<Rightarrow> (key list \<Rightarrow> key list) \<Rightarrow> wake \<Rightarrow> op list \<Rightarrow> string option \<Rightarrow> string option
    \<Rightarrow> telemetry \<Rightarrow> 'db process \<Rightarrow> 'db process" where
  "shut_down E rng why late pub adm tel p =
    (let p = jot (case why of ListenerFailed e \<Rightarrow> Some (ServerFailed e) | ListenerClosed \<Rightarrow> None
           | Signalled \<Rightarrow> Some SignalReceived) p;
         p = p\<lparr>p_health := set_draining True (p_health p)\<rparr>;
         p = p\<lparr>p_store := snd (run E late (p_store p))\<rparr>;
         p = jot (map_option PublicShutdown pub) p;
         p = jot (map_option AdminShutdown adm) p;
         ((n, err), s) = flush E rng (p_store p);
         p = p\<lparr>p_store := s\<rparr>;
         p = jot (case err of Some e \<Rightarrow> Some (FlushIncomplete n e)
           | None \<Rightarrow> if 0 < n then Some (ShutdownFlush n) else None) p;
         p = jot (map_option TelemetryShutdown (snd (tel_shutdown tel))) p;
         (r, s) = close_store E (p_store p);
         p = p\<lparr>p_store := s\<rparr>;
         p = jot (case r of Inl e \<Rightarrow> Some (StoreClose e) | Inr u \<Rightarrow> None) p;
         p = jot (Some ShutdownComplete) p
     in p\<lparr>p_store := snd (close_store E (p_store p))\<rparr>)"

text \<open>\<open>run\<close>: an error only when the start fails.\<close>

definition run_main :: "('db, 'fs) machine \<Rightarrow> (key list \<Rightarrow> key list) \<Rightarrow> wake \<Rightarrow> op list \<Rightarrow> string option \<Rightarrow> string option
    \<Rightarrow> (run_error option \<times> 'db process option) option" where
  "run_main M rng why late pub adm =
    (case start M of
       None \<Rightarrow> None
     | Some (Inl e) \<Rightarrow> Some (Some e, None)
     | Some (Inr a) \<Rightarrow> Some (None, Some (shut_down (driver M) rng why late pub adm (a_telemetry a)
         \<lparr>p_store = in_store (base (a_site a)), p_health = a_health a, p_lines = []\<rparr>)))"

section \<open>What is started\<close>

lemma startE:
  assumes "start M = Some (Inr a)"
  obtains c tel st per_sec where "parse_env (exotic_floats M) (environment M) = (c, None)"
    "new_telemetry (otel_sdk M) (url_parser M) (telemetry_options c) = Inr tel"
    "open_store (driver M) (opened_db M) (wall_clock M 0) (c_db_path c) (c_memory_cache_bytes c) = Inr st"
    "c_rate_limit_rps c = Finite per_sec" "a = wire M c tel st per_sec"
  using assms by (auto simp: start_def split: prod.splits option.splits sum.splits go_float.splits)

lemma wire_simps:
  "a_config (wire M c tel st per_sec) = c" "a_telemetry (wire M c tel st per_sec) = tel"
  "a_expiry (wire M c tel st per_sec) = new_expiry_runner (c_cleanup_interval c) (c_cleanup_sweep_limit c)"
  "a_evictor (wire M c tel st per_sec)
    = new_evictor (eviction_limit c) (c_cleanup_batch_size c) (c_cleanup_max_runs c) (c_size_cleanup_throttle c)"
  "a_backuper (wire M c tel st per_sec) = new_backuper (c_backup_dir c) (c_backup_interval c) (c_backup_retention c)"
  "a_flusher (wire M c tel st per_sec) = new_flusher (c_flush_interval c)"
  "a_public (wire M c tel st per_sec) = public_server c" "a_admin (wire M c tel st per_sec) = admin_server c"
  "a_health (wire M c tel st per_sec) = new_health" "a_gauges (wire M c tel st per_sec) = [SetDBLimit (c_max_db_bytes c)]"
  "a_jobs (wire M c tel st per_sec) = \<lparr>surf = store_surface (driver M) (disk M), job_clk = wall_clock M, job_metered = True\<rparr>"
  "(a_gate (wire M c tel st per_sec), a_site (wire M c tel st per_sec))
    = snd (maybe_evict (a_jobs (wire M c tel st per_sec)) (a_evictor (wire M c tel st per_sec)) (new_gate, first_site M st))"
  "(a_server (wire M c tel st per_sec), a_limiter (wire M c tel st per_sec))
    = new_server (driver M) (wall_clock M) (zone_rules M) (uuids M) (server_options c per_sec (page M) (tracing M))"
  by (simp_all add: wire_def Let_def case_prod_beta)

lemma config_okD:
  assumes "config_ok c"
  shows "0 < c_max_body_bytes c" "0 < c_max_key_bytes c" "0 < c_ttl c" "0 < c_rate_limit_burst c" "0 < c_max_db_bytes c"
    "0 < c_cleanup_interval c" "0 < c_size_cleanup_throttle c" "0 < c_flush_interval c" "0 < c_backup_interval c"
    "\<not> float_not_positive (c_rate_limit_rps c)"
  using assms by (simp_all add: config_ok_def in_range_def)

lemma new_server_set:
  assumes "0 < o_max_body o1" "0 < o_max_key o1" "0 < o_ttl o1" "0 < o_rps o1" "0 < o_burst o1" "o_commit_mode o1 = []"
  shows "new_server E clock z new_id o1
    = (\<lparr>engine = E, opts = o1, default_mode = PutSync, clk = clock, tz = z, fresh_id = new_id\<rparr>, new_rate_limiter (o_rps o1) (o_burst o1))"
proof -
  have "parse_put_mode [] = (PutSync, False)" by code_simp
  with assms show ?thesis by (simp add: new_server_def not_le [symmetric])
qed

text \<open>C33: What a start that succeeds has running: the configuration is the parsed one and was
  found valid; the store is the one opened on the configured path with the configured memory
  budget, after one eviction pass; the server, the limiter, the two HTTP servers, the expiry job, the evictor,
  the flusher and the backup job each carry its values (no constructor replaces one by its
  default); the eviction budget is the memory budget with a memory layer and the
  database budget without; and no job's ticker panics. The default commit mode is sync
  whatever \<open>KVP_COMMIT_MODE\<close> says: the options do not pass it on.\<close>
theorem started_as_configured:
  assumes "start M = Some (Inr a)"
  shows "config_ok (a_config a) \<and> parse_env (exotic_floats M) (environment M) = (a_config a, None)
    \<and> (\<exists>r. c_rate_limit_rps (a_config a) = Finite r \<and> opts (a_server a) = server_options (a_config a) r (page M) (tracing M)
        \<and> a_limiter a = new_rate_limiter r (c_rate_limit_burst (a_config a)))
    \<and> default_mode (a_server a) = PutSync
    \<and> engine (a_server a) = driver M \<and> clk (a_server a) = wall_clock M \<and> tz (a_server a) = zone_rules M
    \<and> a_expiry a = \<lparr>er_interval = c_cleanup_interval (a_config a), er_sweep_limit = c_cleanup_sweep_limit (a_config a)\<rparr>
    \<and> a_evictor a = \<lparr>ev_limit = (if 0 < c_memory_cache_bytes (a_config a) then c_memory_cache_bytes (a_config a)
          else c_max_db_bytes (a_config a)),
        ev_batch = c_cleanup_batch_size (a_config a), ev_max_runs = c_cleanup_max_runs (a_config a),
        ev_throttle = c_size_cleanup_throttle (a_config a)\<rparr>
    \<and> a_flusher a = \<lparr>fl_interval = c_flush_interval (a_config a)\<rparr>
    \<and> a_backuper a = \<lparr>bk_dir = c_backup_dir (a_config a), bk_interval = c_backup_interval (a_config a),
        bk_retention = c_backup_retention (a_config a)\<rparr>
    \<and> (\<exists>st. open_store (driver M) (opened_db M) (wall_clock M 0) (c_db_path (a_config a)) (c_memory_cache_bytes (a_config a)) = Inr st
        \<and> (a_gate a, a_site a) = snd (maybe_evict (a_jobs a) (a_evictor a) (new_gate, first_site M st)))
    \<and> a_jobs a = \<lparr>surf = store_surface (driver M) (disk M), job_clk = wall_clock M, job_metered = True\<rparr>
    \<and> a_health a = new_health \<and> a_gauges a = [SetDBLimit (c_max_db_bytes (a_config a))]
    \<and> 0 < ev_limit (a_evictor a)
    \<and> fst (expiry_run J (a_expiry a) ss s) = Returns ()
    \<and> fst (evictor_run_loop J (a_evictor a) ss gs) = Returns ()
    \<and> fst (flusher_run J (a_flusher a) ss s) = Returns ()
    \<and> fst (gauges_run (driver M) (er_interval (a_expiry a)) ss q) = Returns ()
    \<and> (bk_dir (a_backuper a) \<noteq> [] \<longrightarrow> 0 < bk_interval (a_backuper a))
    \<and> a_public a = public_server (a_config a) \<and> a_admin a = admin_server (a_config a)"
proof -
  obtain c tel st per_sec where "parse_env (exotic_floats M) (environment M) = (c, None)"
    "new_telemetry (otel_sdk M) (url_parser M) (telemetry_options c) = Inr tel"
    "open_store (driver M) (opened_db M) (wall_clock M 0) (c_db_path c) (c_memory_cache_bytes c) = Inr st"
    "c_rate_limit_rps c = Finite per_sec" "a = wire M c tel st per_sec"
    by (rule startE [OF assms])
  note c = this(1,4,5) and st = this(3)
  have ok: "config_ok c" using parsed_env [OF c(1)] env_config_ok by blast
  note pos = config_okD [OF ok]
  have srv: "(a_server a, a_limiter a)
      = new_server (driver M) (wall_clock M) (zone_rules M) (uuids M) (server_options c per_sec (page M) (tracing M))"
    unfolding c(3) by (rule wire_simps)
  have "0 < per_sec" using pos(10) c(2) by simp
  then have "(a_server a, a_limiter a)
      = (\<lparr>engine = driver M, opts = server_options c per_sec (page M) (tracing M), default_mode = PutSync, clk = wall_clock M,
          tz = zone_rules M, fresh_id = uuids M\<rparr>, new_rate_limiter per_sec (c_rate_limit_burst c))"
    unfolding srv using pos by (subst new_server_set) (simp_all add: server_options_def)
  then have "engine (a_server a) = driver M" "clk (a_server a) = wall_clock M" "tz (a_server a) = zone_rules M"
    "opts (a_server a) = server_options c per_sec (page M) (tracing M)" "default_mode (a_server a) = PutSync"
    "a_limiter a = new_rate_limiter per_sec (c_rate_limit_burst c)"
    by simp_all
  moreover have "0 < ev_limit (a_evictor a)" "0 < ev_throttle (a_evictor a)"
    using pos by (simp_all add: c(3) wire_simps new_evictor_def eviction_limit_def)
  ultimately show ?thesis
    using ok c pos st
    by (simp add: wire_simps expiry_run_def evictor_run_loop_def flusher_run_def gauges_run_def
        new_expiry_runner_def new_flusher_def new_backuper_def new_evictor_def eviction_limit_def Let_def)
qed

definition sample_machine :: "(ref_db, ref_fs) machine" where
  "sample_machine = \<lparr>environment = env_of [(''KVP_COMMIT_MODE'', ''async'')], exotic_floats = (\<lambda>s. None),
     url_parser = (\<lambda>s. None),
     otel_sdk = \<lparr>x_resource = None, x_prometheus = None, x_metric_exporter = (\<lambda>h i. None), x_trace_exporter = (\<lambda>h i. None),
       x_instrument = (\<lambda>i n. None), x_meter_shutdown = None\<rparr>,
     driver = ref_engine, opened_db = Inr (ref_start []), disk = ref_files ''b'',
     disk_state = \<lparr>listing = mempty, fs_faults = []\<rparr>, wall_clock = (\<lambda>n. sample_time (int n)), zone_rules = utc,
     uuids = (\<lambda>n. ''id''), entry_orders = (\<lambda>i xs. xs), key_orders = (\<lambda>i xs. xs),
     page = (\<lambda>p. Inl ''file does not exist''), tracing = (\<lambda>h. h)\<rparr>"

lemma sample_machine_starts: "\<exists>a. start sample_machine = Some (Inr a) \<and> c_commit_mode (a_config a) = ''async''"
proof -
  let ?env = "env_of [(''KVP_COMMIT_MODE'', ''async'')]"
  define c where "c = env_config (\<lambda>s. None) ?env"
  have "first_error (env_checks (\<lambda>s. None) ?env) = None" by code_simp
  from parse_envI [OF this] have p: "parse_env (exotic_floats sample_machine) (environment sample_machine) = (c, None)"
    by (simp add: sample_machine_def c_def)
  have "is_ok (new_telemetry (otel_sdk sample_machine) (url_parser sample_machine) (telemetry_options c))"
    "is_ok (open_store (driver sample_machine) (opened_db sample_machine) (wall_clock sample_machine 0) (c_db_path c) (c_memory_cache_bytes c))"
    "c_rate_limit_rps c = Finite 10" "c_commit_mode c = ''async''"
    unfolding c_def by code_simp+
  with p show ?thesis by (auto simp: start_def wire_simps isl_def split: sum.split)
qed

text \<open>\<open>KVP_COMMIT_MODE=async\<close> is read, validated and dropped.\<close>
lemma started_as_configured_witness:
  "\<exists>a. start sample_machine = Some (Inr a) \<and> c_commit_mode (a_config a) = ''async'' \<and> default_mode (a_server a) = PutSync"
proof -
  obtain a where a: "start sample_machine = Some (Inr a)" "c_commit_mode (a_config a) = ''async''"
    using sample_machine_starts by blast
  from started_as_configured [OF a(1)] a show ?thesis by blast
qed

section \<open>A clean shutdown\<close>

lemma jot_simps [simp]: "p_store (jot l p) = p_store p" "p_health (jot l p) = p_health p"
  "set (p_lines (jot l p)) = set (p_lines p) \<union> set_option l"
  by (simp_all add: jot_def split: option.split)

lemma shut_down_store:
  assumes "run E late (p_store p) = (rs, s1)" "flush E rng s1 = ((n, err), s2)"
  shows "p_store (shut_down E rng why late pub adm tel p) = snd (close_store E (snd (close_store E s2)))"
    "err = Some e \<Longrightarrow> FlushIncomplete n e \<in> set (p_lines (shut_down E rng why late pub adm tel p))"
    "draining (p_health (shut_down E rng why late pub adm tel p))"
  using assms by (simp_all add: shut_down_def Let_def case_prod_beta set_draining_def)

text \<open>C7: What was acknowledged as sync or async survives a clean shutdown. A store is opened
  with a memory layer, calls run on it until the process is woken up and then until servers
  and jobs have stopped; the final flush is not reported incomplete. An entry that is in memory
  when they have stopped, of a key whose last successful write was not in memory
  mode, is what the next process finds under its key, whatever memory budget that has, unless
  it has expired by then. The calls may fail and may be of every kind, under these conditions: an
  earlier flush that failed had found at most 500 dirty keys (beyond that the keys of the
  chunks after the failing one lose their marks and are not flushed again), no eviction
  failed in the middle of a batch, lifetimes are positive, no call reads an
  earlier clock than the call before it, and the expiries in the first rows, the expiries written
  and the times of the sweeps are ones whose texts are ordered as the times are. Calls
  follow one another: a write that overlaps a flush can be lost (see \<open>Race_Laws\<close>).\<close>
theorem clean_shutdown_durable:
  assumes "sql_engine E tbl pend" and "open_store E (Inr d0) t0 path0 limit0 = Inr s0" and "0 < limit0"
    and "faithful T" and "rows_in T (tbl d0)" and "timely_run T (ns t0) (cs @ late)"
    and "list_all orders_ok (cs @ late)" and "range_order rng"
    and "run E cs s0 = (rs, p_store p)" and "run E late (p_store p) = (rs', s1)"
    and "list_all (\<lambda>r. \<not> batch_failed r) (rs @ rs')" and "small_flushes E (cs @ late) s0"
    and "\<forall>n x. FlushIncomplete n x \<notin> set (p_lines (shut_down E rng why late pub adm tel p))"
    and "mget (cache s1) k = Some e" and "k \<notin> memory_keys (cs @ late) (rs @ rs') {}"
    and "open_store E (Inr d) now path limit = Inr s2"
    and "tbl d = tbl (db (p_store (shut_down E rng why late pub adm tel p)))"
    and "\<not> after now (expires_at e)"
  shows "live now (abs_store tbl s2) k = Some (val e)"
proof -
  note run = run_append [OF assms(9,10)]
  have m0: "mirror_inv T (ns t0) (tbl (db s0)) s0"
    by (rule sql_engine.mirror_open [OF assms(1,2,3,4,5)])
  have m: "mirror_inv T (last_clock (ns t0) (cs @ late)) (tbl (db s1)) s1"
    by (rule sql_engine.mirror_run [OF assms(1) run m0 assms(6,7,11)])
  have "pending (memory_keys (cs @ late) (rs @ rs') {}) s1"
    by (rule pending_run [OF assms(1) run pending_open [OF assms(1,2,3)] mirror_invD(1) [OF m0] assms(7,12)])
  then have dirty: "volatile e \<longrightarrow> k \<in> dom (mget (dirty s1))"
    using pendingD assms(14,15) by blast
  obtain n err s' where f: "flush E rng s1 = ((n, err), s')" by (metis surj_pair)
  note sd = shut_down_store [OF assms(10) f, where why = why and pub = pub and adm = adm and tel = tel]
  have "err = None" using sd(2) assms(13) by (cases err) auto
  with f have f: "flush E rng s1 = ((n, None), s')" by simp
  have "tbl (db s') k = Some (item_row e)"
    using flush_durable [OF assms(1) mirror_invD(1) [OF m] assms(8) f] assms(14) dirty
      mirroredD [OF mirror_invD(3) [OF m] assms(14)]
    by (auto dest!: spec [of _ k] split: if_splits)
  moreover have "tbl d = tbl (db s')"
    by (simp add: assms(17) sd(1) close_store_def case_prod_beta sql_engine.close_pure [OF assms(1)])
  ultimately have "rows_abs (tbl d) k = Some (val e, expires_at e)"
    using mirror_inv_row(1) [OF m assms(14)] by (simp add: rows_abs_def item_row_def parse_format)
  then show ?thesis
    using sql_engine.open_live [OF assms(1,16) refl] assms(18) by (simp add: live_def)
qed

text \<open>An incomplete final flush is told unless \<open>KVP_LOG_LEVEL\<close> is error.\<close>

lemma incomplete_flush_visible:
  "FlushIncomplete n e \<in> set ls \<Longrightarrow> FlushIncomplete n e \<in> set (visible tel ls) \<longleftrightarrow> tel_level tel \<noteq> LevelError"
  by (cases "tel_level tel") (auto simp: visible_def less_eq_level_def)

text \<open>
  An async write whose flush failed, another in flight when the signal arrives, and a next
  process without a memory layer. The seventh access to the database fails: the
  \<open>BEGIN\<close> of that first flush.
\<close>

definition sample_early :: "op list" where
  "sample_early = [OpPut utc (sample_time 0) ''k'' ''v'' (10 * second) PutAsync, OpFlush (\<lambda>xs. xs)]"

definition sample_late :: "op list" where
  "sample_late = [OpPut utc (sample_time 1) ''l'' ''w'' (10 * second) PutAsync]"

definition sample_tel :: telemetry where
  "sample_tel = \<lparr>tel_service = ''kvp'', tel_level = LevelInfo, metric_exports = False, trace_exports = False,
     meter_provider = Some None, metric_shutdown = None, trace_shutdown = None\<rparr>"

definition sample_opened :: "ref_db store" where
  "sample_opened = projr (open_store ref_engine (Inr (ref_start (replicate 6 False @ [True]))) (sample_time 0) ''p'' 1000)"

definition sample_process :: "ref_db process" where
  "sample_process = \<lparr>p_store = snd (run ref_engine sample_early sample_opened), p_health = new_health, p_lines = []\<rparr>"

lemma clean_shutdown_durable_witness:
  "\<exists>s2. open_store ref_engine (Inr (db (p_store (shut_down ref_engine (\<lambda>xs. xs) Signalled sample_late None None sample_tel sample_process))))
      (sample_time 3) ''p'' 0 = Inr s2
    \<and> live (sample_time 3) (abs_store ref_tbl s2) ''k'' = Some ''v''"
proof -
  let ?o = "open_store ref_engine (Inr (ref_start (replicate 6 False @ [True]))) (sample_time 0) ''p'' 1000"
  let ?p = "shut_down ref_engine (\<lambda>xs. xs) Signalled sample_late None None sample_tel sample_process"
  let ?r = "run ref_engine sample_early sample_opened" and ?r' = "run ref_engine sample_late (p_store sample_process)"
  let ?T = "{t. writable t \<and> off t = 0 \<and> ns t mod second = 0}"
  let ?e = "\<lparr>val = ''v'', expires_at = sample_time 10, volatile = True\<rparr>"
  have "is_ok ?o" by code_simp
  then have o: "?o = Inr sample_opened" by (cases ?o) (simp_all add: sample_opened_def)
  have r: "?r = (fst ?r, p_store sample_process)" by (simp add: sample_process_def)
  have e: "mget (cache (snd ?r')) ''k'' = Some ?e" by code_simp
  have fst: "fst ?r = [RPut None, RCount 0 (Some (ErrFlushBegin ''disk I/O error''))]" "fst ?r' = [RPut None]"
    by code_simp+
  then have ok: "list_all (\<lambda>r. \<not> batch_failed r) (fst ?r @ fst ?r')"
    "''k'' \<notin> memory_keys (sample_early @ sample_late) (fst ?r @ fst ?r') {}"
    by (simp_all add: sample_early_def sample_late_def)
  have small: "small_flushes ref_engine (sample_early @ sample_late) sample_opened" by code_simp
  have "p_lines ?p = [SignalReceived, ShutdownFlush 2, ShutdownComplete]" by code_simp
  then have lines: "\<forall>n x. FlushIncomplete n x \<notin> set (p_lines ?p)" by simp
  have "is_ok (open_store ref_engine (Inr (db (p_store ?p))) (sample_time 3) ''p'' 0)" by code_simp
  then obtain s2 where s2: "open_store ref_engine (Inr (db (p_store ?p))) (sample_time 3) ''p'' 0 = Inr s2"
    by (auto simp: isl_def) (metis sum.exhaust)
  have rows: "rows_in ?T (ref_tbl (ref_start (replicate 6 False @ [True])))"
    by (simp add: rows_in_def ref_start_def ref_tbl_def)
  have t: "timely_run ?T (ns (sample_time 0)) (sample_early @ sample_late)"
    by (simp add: sample_early_def sample_late_def clock_after_def) (simp add: second_def sample_time_def)
  have ord: "list_all orders_ok (sample_early @ sample_late)" by (simp add: sample_early_def sample_late_def)
  have "\<not> after (sample_time 3) (expires_at ?e)" by (simp add: after_def sample_time_def second_def)
  from clean_shutdown_durable [OF ref.sql_engine_axioms o _ faithful_whole_seconds rows t ord range_order_id(1) r
      surjective_pairing ok(1) small lines e ok(2) s2 refl this]
  have "live (sample_time 3) (abs_store ref_tbl s2) ''k'' = Some ''v''" by simp
  with s2 show ?thesis by blast
qed

end
