(* ===== verification/Spec2Isabelle.thy ===== *)
theory Spec2Isabelle
  imports Store_Mirror Race_Laws Race_Safety Store_Backup Server_Audit Evict_Converge Config_Laws Kvp_Main
begin

text \<open>
  A verification development of \<open>kvp\<close>, an HTTP key-value store in Go over SQLite with
  an in-memory layer. Paths below are under \<open>src/\<close>.

  \<^bold>\<open>The program.\<close> \<open>cmd/kvp/main.go\<close> reads the configuration from the environment
  (\<open>internal/config\<close>), builds the telemetry (\<open>internal/telemetry\<close>), opens the store
  (\<open>internal/store\<close>), starts the background jobs (\<open>internal/cleanup\<close>) and serves
  requests (\<open>internal/server\<close>). A key's value lives in the table \<open>kv_store\<close> and, with a
  memory budget, in a map that answers every lookup. A write is \<^emph>\<open>sync\<close> (row, then map),
  \<^emph>\<open>async\<close> (map, then a mark for the flush job) or \<^emph>\<open>memory\<close> (map only). Requests and jobs
  share the store under a mutex that covers single map operations; jobs sweep expired
  keys, flush marked ones, evict the oldest over the budget, and write backups.

  \<^bold>\<open>Foundations.\<close>
  \<^item> \<open>Kvp_Prelude\<close>: results of fallible calls (\<open>res\<close>), outcomes with panics, Go maps as
    association lists with sums over their entries, iteration orders, slicing loops, JSON
    and decimal text; the collection \<open>kvp_inv\<close> of preservation lemmas.
  \<^item> \<open>Go_Time\<close>, \<open>Time_Order\<close>: package \<open>time\<close> as far as it is used, RFC 3339 text and its
    order. \<open>Float64\<close>: float64 arithmetic on finite values by rounding rationals.
    \<open>Net_Addr\<close>: addresses and prefixes of \<open>net\<close> and \<open>netip\<close>.
  \<^item> \<open>Sql_Engine\<close>: the SQLite driver as a parameter, a record of calls on an opaque state.
    The locale \<open>sql_engine\<close> states what SQLite documents of each statement of the source;
    \<open>ref_engine\<close> is an executable engine with a schedule of failures that meets it.

  \<^bold>\<open>The store\<close> (\<open>internal/store/store.go\<close>). The record \<open>store\<close> is the struct \<open>Store\<close>:
  \<open>db\<close>, \<open>cache\<close>, \<open>cache_bytes\<close>, \<open>mem_limit\<close>, \<open>dirty\<close>, and the deletes that lookups left
  to goroutines. The clock is an argument of each operation.
  \<^item> \<open>Store_Types\<close>, \<open>Store_Core\<close>: the data, \<open>Open\<close>, \<open>PutWithMode\<close>, \<open>Get\<close>, sizes.
    \<open>Store_Flush\<close>: \<open>Flush\<close>. \<open>Store_Evict\<close>: \<open>DeleteExpired\<close>, \<open>EvictOldest\<close>, the vacuum.
    \<open>Store_Backup\<close>: \<open>Backup\<close>, \<open>RetainBackups\<close> over a file system that obeys \<open>backup_dir\<close>.
  \<^item> \<open>Store_Spec\<close>: the contract, a map from keys to values with expiries, with the replies
    a call may give; every operation refines it. \<open>Store_Runs\<close>: runs of calls, a lookup
    returns the last write, or nothing once an eviction ran. \<open>Store_Mirror\<close>: what \<open>Open\<close>
    loads; memory and table agree on what is not volatile, so a restart finds it.
    \<open>Store_Pending\<close>: what is volatile is marked for the next flush, unless written in
    memory mode. \<open>Store_Evict_Laws\<close>: which rows and entries go, in which order.
  \<^item> \<open>Evict_Steps\<close>, \<open>Store_Races\<close>, \<open>Race_Safety\<close>, \<open>Race_Laws\<close>: the same calls cut into atomic steps at the
    mutex and at each statement, any number of goroutines, and what holds in every
    interleaving: the byte counter, that no value is invented, that async writes are
    kept; run without interruption the steps are the calls (\<open>uninterrupted_calls\<close>); the locale \<open>healthy_engine\<close> extends \<open>sql_engine\<close> by transactions that
    succeed. The schedules that lose writes are theorems as well.

  \<^bold>\<open>The jobs\<close> (\<open>internal/cleanup/cleanup.go\<close>): \<open>Cleanup\<close> has the four runners, each with
  one pass and its ticker loop over the Go interface \<open>Store\<close>, and the gate of \<open>MaybeEvict\<close>.
  \<open>Cleanup_Laws\<close> proves the laws of the jobs in the locale \<open>maintenance\<close>, interpreted on the
  store's model. \<open>Evict_Converge\<close>: eviction passes reach the budget.

  \<^bold>\<open>The server\<close> (\<open>internal/server\<close>): \<open>Rate_Limit\<close> is \<open>ratelimit.go\<close>. \<open>Server_State\<close> has the
  options, requests, the response writer with its recorder and body counter, metrics and
  log lines; \<open>Server_Handlers\<close> the handlers and the middleware chain of \<open>server.go\<close> and
  \<open>middleware.go\<close>. \<open>Server_Laws\<close> evaluates the chain, \<open>Server_Exchange\<close> refines it to the
  specification of one exchange, \<open>Server_Audit\<close> is about logs, metrics and addresses.

  \<^bold>\<open>The rest.\<close> \<open>Config\<close>, \<open>Config_Laws\<close>: \<open>Parse\<close> with its validators, and the table it
  amounts to. \<open>Telemetry\<close>: levels, endpoint, instruments and what each metrics method
  records, construction and shutdown, the health handlers, and \<open>deploy/hc\<close>. \<open>Kvp_Main\<close>:
  \<open>run\<close> from the environment to the listeners and from the wake-up to the return, the
  admin mux and the gauge job, over a \<open>machine\<close> that is everything the process finds.

  \<^bold>\<open>Bounds and fuel.\<close> Loops over lists are structural; the eviction loops recurse on the
  runs left, as the source counts them. \<open>duration_loop\<close> gets the length of its text as
  fuel, of which each turn consumes a character; \<open>v6_loop\<close> gets 8, the groups of an IPv6
  address. Ticker loops take the list of events they receive, schedules the list of the
  goroutines that run. \<open>evict_oldest\<close> takes an iteration order per purge run.
  Sizes and counters are \<open>int\<close>; they are bounded by what memory holds, and the one
  product that can leave 64 bits, the configured budget, is wrapped (\<open>wrap64\<close>).

  \<^bold>\<open>Hypotheses.\<close> Besides the laws of the engine and of the file system: \<open>range_order\<close>, a
  Go map is ranged over in some order, each key once; \<open>writable\<close>, years 0 to 9999 and
  whole-minute offsets, what RFC 3339 text can express; \<open>faithful\<close> times, those whose text
  order is their time order (the store compares texts; \<open>sweep_deletes_live_row\<close> shows what
  happens to rows outside such a set); \<open>traces\<close>, the \<open>otelhttp\<close> wrapper adds trace ids and nothing else.

  \<^bold>\<open>Not modelled.\<close>
  \<^item> SQLite, \<open>net/http\<close>, OpenTelemetry and Prometheus are third-party or library code
    behind parameters; of \<open>net/http\<close> there is what the handlers use (first status line
    wins, implied 200, \<open>MaxBytesReader\<close>), not its listeners, timeouts, path cleaning or
    the dropped bodies of HEAD responses. \<open>url.Parse\<close> is an argument.
  \<^item> Contexts and deadlines: a cancelled call is one the engine fails.
  \<^item> Rates that are infinite or not a number: \<open>start\<close> yields \<open>None\<close> for them. Float
    literals with hexadecimal digits or underscores are the argument \<open>exotic_floats\<close>;
    \<open>TrimSpace\<close> is that of ASCII.
  \<^item> Fused multiply-add, which Go permits on some processors.
  \<^item> \<open>Flush\<close> and \<open>Unwrap\<close> of the recorder and \<open>Health.Handler\<close>, which nothing calls; the
    embedded page (\<open>web\<close>) is an argument; error texts are constructors.
  \<^item> Interleavings have the memory layer on; without it each call is its statements. The
    steps are critical sections and statements made atomic, so blocking on the mutex or on
    the one connection is not expressed; \<open>prune\<close> of the limiter, which takes no mutex, is
    one step too. In the sequential theorems calls, and in \<open>Cleanup_Laws\<close> passes of
    jobs, follow one another whole.
    \<open>clean_shutdown_durable\<close> takes the jobs as stopped before the final flush, which the
    program does not wait for: \<open>final_flush_misses_key\<close> shows the difference.
\<close>

end
